(* ===== verification/Prelude.thy ===== *)
theory Prelude
  imports Main "HOL-Library.Word" "HOL-Library.Code_Target_Numeral"
begin

text \<open>
  Shared vocabulary of the development: the result type for code that can throw, exit or read
  outside an object, the 64-bit arithmetic of \<^verbatim>\<open>size_t\<close>, the standard-library pieces the sources
  use (\<^verbatim>\<open>std::vector\<close>, \<^verbatim>\<open>std::copy\<close>, \<^verbatim>\<open>std::to_string\<close>), and the generic lemma that an
  invariant of a transition system holds in every reachable state.
\<close>

named_theorems wf_intros
named_theorems size_simps

section \<open>Results\<close>

text \<open>
  How a C++ call can fail to return: \<open>LengthError\<close> is the \<^verbatim>\<open>std::length_error\<close> a vector throws,
  \<open>OutOfRange\<close> an access outside an object (undefined behaviour), \<open>UseAfterFree\<close> a dereference of a
  pointer to no object, \<open>ExitFatal\<close> the \<^verbatim>\<open>exit(-1)\<close> of \<^verbatim>\<open>LOG_FATAL\<close>, \<open>SignedOverflow\<close> an \<^verbatim>\<open>int\<close> that leaves
  its range (undefined behaviour), \<open>OverlappingCopy\<close> a \<^verbatim>\<open>std::copy\<close> into its own source range (likewise).
\<close>

datatype cpp_error = LengthError | OutOfRange | UseAfterFree | ExitFatal | SignedOverflow
  | OverlappingCopy

text \<open>The largest value of an \<^verbatim>\<open>int\<close>.\<close>

definition int_max :: int where
  "int_max = 2147483647"

type_synonym 'a result = "cpp_error + 'a"

definition bind_r :: "'a result \<Rightarrow> ('a \<Rightarrow> 'b result) \<Rightarrow> 'b result" where
  "bind_r m f = (case m of Inl e \<Rightarrow> Inl e | Inr x \<Rightarrow> f x)"

lemma bind_r_simps [simp]:
  "bind_r (Inl e) f = Inl e"
  "bind_r (Inr x) f = f x"
  by (simp_all add: bind_r_def)

lemma bind_r_Inr_iff: "bind_r m f = Inr y \<longleftrightarrow> (\<exists>x. m = Inr x \<and> f x = Inr y)"
  by (cases m) auto

lemma bind_r_Inr_E [elim]:
  assumes "bind_r m f = Inr y"
  obtains x where "m = Inr x" and "f x = Inr y"
  using assms by (cases m) auto

lemma bind_r_assoc: "bind_r (bind_r m f) g = bind_r m (\<lambda>x. bind_r (f x) g)"
  by (cases m) auto

section \<open>Arithmetic of size_t\<close>

text \<open>\<^verbatim>\<open>size_t\<close> is 64 bits wide and wraps around; sizes are \<open>nat\<close> below \<open>2 ^ 64\<close>.\<close>

definition sz_add :: "nat \<Rightarrow> nat \<Rightarrow> nat" where
  "sz_add a b = (a + b) mod 2 ^ 64"

definition sz_sub :: "nat \<Rightarrow> nat \<Rightarrow> nat" where
  "sz_sub a b = (a + (2 ^ 64 - b)) mod 2 ^ 64"

lemma sz_add_nowrap [size_simps]: "a + b < 2 ^ 64 \<Longrightarrow> sz_add a b = a + b"
  by (simp add: sz_add_def)

lemma sz_sub_nowrap [size_simps]:
  assumes "b \<le> a" and "a < 2 ^ 64"
  shows "sz_sub a b = a - b"
proof -
  have "a + (2 ^ 64 - b) = (a - b) + 2 ^ 64" using assms by simp
  moreover have "a - b < 2 ^ 64" using assms by simp
  ultimately show ?thesis by (simp add: sz_sub_def)
qed

lemma sz_add_bound: "sz_add a b < 2 ^ 64"
  by (simp add: sz_add_def)

section \<open>std::vector of characters\<close>

text \<open>\<^verbatim>\<open>std::vector<char>::max_size()\<close> is \<^verbatim>\<open>PTRDIFF_MAX\<close>; new elements are zero.\<close>

definition vec_max_size :: nat where
  "vec_max_size = 2 ^ 63 - 1"

definition vec_new :: "nat \<Rightarrow> char list result" where
  "vec_new n = (if vec_max_size < n then Inl LengthError else Inr (replicate n (CHR 0x00)))"

definition vec_resize :: "nat \<Rightarrow> char list \<Rightarrow> char list result" where
  "vec_resize n v = (if vec_max_size < n then Inl LengthError
     else Inr (take n v @ replicate (n - length v) (CHR 0x00)))"

text \<open>Writing a block of bytes through a pointer into a vector.\<close>

definition vec_write :: "nat \<Rightarrow> char list \<Rightarrow> char list \<Rightarrow> char list result" where
  "vec_write pos d v = (if pos + length d \<le> length v
     then Inr (take pos v @ d @ drop (pos + length d) v) else Inl OutOfRange)"

text \<open>Reading a block of bytes through a pointer into a vector.\<close>

definition vec_read :: "nat \<Rightarrow> nat \<Rightarrow> char list \<Rightarrow> char list result" where
  "vec_read pos n v = (if pos + n \<le> length v then Inr (take n (drop pos v)) else Inl OutOfRange)"

text \<open>
  \<^verbatim>\<open>std::copy\<close> inside one array, element by element in increasing order as the standard specifies
  it: \<open>n\<close> elements from index \<open>i\<close> to index \<open>j\<close>.
\<close>

fun std_copy :: "nat \<Rightarrow> nat \<Rightarrow> nat \<Rightarrow> 'a list \<Rightarrow> 'a list" where
  "std_copy 0 i j v = v"
| "std_copy (Suc n) i j v = std_copy n (Suc i) (Suc j) (v[j := v ! i])"

text \<open>\<^verbatim>\<open>std::copy\<close> within one vector: the destination must not begin inside the source range.\<close>

definition vec_copy :: "nat \<Rightarrow> nat \<Rightarrow> nat \<Rightarrow> 'a list \<Rightarrow> 'a list result" where
  "vec_copy n i j v = (if i \<le> j \<and> j < i + n then Inl OverlappingCopy else Inr (std_copy n i j v))"

lemma length_std_copy [simp]: "length (std_copy n i j v) = length v"
  by (induction n i j v rule: std_copy.induct) auto

text \<open>Copying towards the front moves the block as a whole, overlapping or not.\<close>

lemma std_copy_front:
  assumes "j < i" and "i + n \<le> length v"
  shows "std_copy n i j v = take j v @ take n (drop i v) @ drop (j + n) v"
  using assms
proof (induction n i j v rule: std_copy.induct)
  case (1 i j v)
  then show ?case by simp
next
  case (2 n i j v)
  have "std_copy n (Suc i) (Suc j) (v[j := v ! i]) =
      take (Suc j) (v[j := v ! i]) @ take n (drop (Suc i) (v[j := v ! i]))
        @ drop (Suc j + n) (v[j := v ! i])"
    using "2.prems" by (intro "2.IH") auto
  also have "take (Suc j) (v[j := v ! i]) = take j v @ [v ! i]"
    using "2.prems" by (simp add: take_Suc_conv_app_nth)
  also have "drop (Suc i) (v[j := v ! i]) = drop (Suc i) v"
    using "2.prems" by simp
  also have "drop (Suc j + n) (v[j := v ! i]) = drop (Suc j + n) v"
    using "2.prems" by simp
  finally have "std_copy (Suc n) i j v =
      take j v @ (v ! i # take n (drop (Suc i) v)) @ drop (Suc j + n) v" by simp
  moreover have "v ! i # take n (drop (Suc i) v) = take (Suc n) (drop i v)"
    using "2.prems" by (simp add: Cons_nth_drop_Suc [symmetric])
  ultimately show ?case by simp
qed

section \<open>Decimal numbers\<close>

text \<open>\<^verbatim>\<open>std::to_string\<close> and the \<^verbatim>\<open>%d\<close>/\<^verbatim>\<open>%u\<close> conversions: decimal digits, most significant first.\<close>

definition digit_char :: "nat \<Rightarrow> char" where
  "digit_char d = char_of (48 + d)"

fun nat_to_string :: "nat \<Rightarrow> string" where
  "nat_to_string n = (if n < 10 then [digit_char n]
     else nat_to_string (n div 10) @ [digit_char (n mod 10)])"

declare nat_to_string.simps [simp del]

definition to_string :: "int \<Rightarrow> string" where
  "to_string i = (if i < 0 then CHR ''-'' # nat_to_string (nat (- i)) else nat_to_string (nat i))"

text \<open>Reading decimal digits back.\<close>

definition digit_value :: "char \<Rightarrow> nat" where
  "digit_value c = of_char c - 48"

definition string_value :: "string \<Rightarrow> nat" where
  "string_value s = foldl (\<lambda>v c. 10 * v + digit_value c) 0 s"

definition is_digit :: "char \<Rightarrow> bool" where
  "is_digit c \<longleftrightarrow> (48 :: nat) \<le> of_char c \<and> of_char c \<le> (57 :: nat)"

lemma digit_value_char [simp]: "d < 10 \<Longrightarrow> digit_value (digit_char d) = d"
  by (simp add: digit_value_def digit_char_def)

lemma is_digit_char [simp]: "d < 10 \<Longrightarrow> is_digit (digit_char d)"
  by (simp add: is_digit_def digit_char_def)

lemma string_value_snoc [simp]: "string_value (s @ [c]) = 10 * string_value s + digit_value c"
  by (simp add: string_value_def)

lemma string_value_nat [simp]: "string_value (nat_to_string n) = n"
proof (induction n rule: nat_to_string.induct)
  case (1 n)
  show ?case
  proof (cases "n < 10")
    case True
    then show ?thesis by (subst nat_to_string.simps) (simp add: string_value_def)
  next
    case False
    with 1 show ?thesis by (subst nat_to_string.simps) simp
  qed
qed

lemma nat_to_string_digits: "\<forall>c \<in> set (nat_to_string n). is_digit c"
proof (induction n rule: nat_to_string.induct)
  case (1 n)
  then show ?case by (subst nat_to_string.simps) (cases "n < 10"; auto)
qed

lemma nat_to_string_not_Nil [simp]: "nat_to_string n \<noteq> []"
  by (subst nat_to_string.simps) simp

lemma nat_to_string_inject [simp]: "nat_to_string m = nat_to_string n \<longleftrightarrow> m = n"
  by (metis string_value_nat)

lemma nat_to_string_length: "n < 10 ^ k \<Longrightarrow> 0 < k \<Longrightarrow> length (nat_to_string n) \<le> k"
proof (induction k arbitrary: n)
  case 0
  then show ?case by simp
next
  case (Suc k)
  show ?case
  proof (cases "n < 10")
    case True
    then show ?thesis by (subst nat_to_string.simps) simp
  next
    case False
    with Suc.prems have "0 < k" by (cases k) auto
    moreover have "n div 10 < 10 ^ k" using Suc.prems by (simp add: less_mult_imp_div_less)
    ultimately have "length (nat_to_string (n div 10)) \<le> k" by (intro Suc.IH)
    with False show ?thesis by (subst nat_to_string.simps) simp
  qed
qed

lemma minus_not_digit: "\<not> is_digit (CHR ''-'')"
  by (simp add: is_digit_def)

lemma to_string_inject [simp]: "to_string i = to_string j \<longleftrightarrow> i = j"
proof -
  have "nat_to_string n \<noteq> CHR ''-'' # s" for n s
    using nat_to_string_digits [of n] minus_not_digit by (metis list.set_intros(1))
  moreover have "CHR ''-'' # s \<noteq> nat_to_string n" for n s
    using nat_to_string_digits [of n] minus_not_digit by (metis list.set_intros(1))
  ultimately show ?thesis by (auto simp: to_string_def)
qed

section \<open>Reachability and invariants\<close>

lemma steps2: "r a b \<Longrightarrow> r b c \<Longrightarrow> r\<^sup>*\<^sup>* a c"
  by (meson rtranclp.simps)

lemma steps3: "r a b \<Longrightarrow> r b c \<Longrightarrow> r c d \<Longrightarrow> r\<^sup>*\<^sup>* a d"
  by (meson rtranclp.rtrancl_into_rtrancl steps2)

lemma step_after: "r\<^sup>*\<^sup>* a b \<Longrightarrow> r b c \<Longrightarrow> r\<^sup>*\<^sup>* a c"
  by (rule rtranclp.rtrancl_into_rtrancl)

text \<open>
  The contract of an inductive invariant: it holds initially and every step keeps it. Each state
  machine of the development instantiates it.
\<close>

locale inductive_invariant =
  fixes start :: "'s \<Rightarrow> bool"
    and step :: "'s \<Rightarrow> 's \<Rightarrow> bool"
    and invar :: "'s \<Rightarrow> bool"
  assumes invar_start: "start s \<Longrightarrow> invar s"
    and invar_step: "invar s \<Longrightarrow> step s t \<Longrightarrow> invar t"
begin

lemma invar_steps: "invar s \<Longrightarrow> step\<^sup>*\<^sup>* s t \<Longrightarrow> invar t"
  by (erule rtranclp_induct [where P = invar, rotated]) (auto intro: invar_step)

lemma invar_reachable: "start s \<Longrightarrow> step\<^sup>*\<^sup>* s t \<Longrightarrow> invar t"
  by (blast intro: invar_steps invar_start)

end

end
