(* ===== verification/ByteQueue.thy ===== *)
theory ByteQueue
  imports Prelude
begin

text \<open>
  The contract a byte buffer gives its clients: an abstract first-in first-out stream of bytes.
  A \<^verbatim>\<open>TcpConnection\<close> relies on it for both of its buffers. The client lemmas (what a whole sequence
  of puts and gets does to the stream) are proved once here, from the laws alone.
\<close>

datatype queue_op = Put "char list" | Get nat

text \<open>What a sequence of operations puts into the stream.\<close>

fun put_bytes :: "queue_op list \<Rightarrow> char list" where
  "put_bytes [] = []"
| "put_bytes (Put d # ops) = d @ put_bytes ops"
| "put_bytes (Get n # ops) = put_bytes ops"

text \<open>Running a sequence of operations; what the gets remove is collected in order.\<close>

fun run_queue :: "(char list \<Rightarrow> 'b \<Rightarrow> 'b result) \<Rightarrow> (nat \<Rightarrow> 'b \<Rightarrow> 'b) \<Rightarrow> ('b \<Rightarrow> char list) \<Rightarrow>
    queue_op list \<Rightarrow> 'b \<Rightarrow> (char list \<times> 'b) result" where
  "run_queue put get view [] b = Inr ([], b)"
| "run_queue put get view (Put d # ops) b = bind_r (put d b) (run_queue put get view ops)"
| "run_queue put get view (Get n # ops) b =
     bind_r (run_queue put get view ops (get n b)) (\<lambda>(out, b'). Inr (take n (view b) @ out, b'))"

locale byte_queue =
  fixes invar :: "'b \<Rightarrow> bool"
    and view :: "'b \<Rightarrow> char list"
    and put :: "char list \<Rightarrow> 'b \<Rightarrow> 'b result"
    and get :: "nat \<Rightarrow> 'b \<Rightarrow> 'b"
  assumes put_invar: "invar b \<Longrightarrow> put d b = Inr b' \<Longrightarrow> invar b'"
    and put_view: "invar b \<Longrightarrow> put d b = Inr b' \<Longrightarrow> view b' = view b @ d"
    and get_invar: "invar b \<Longrightarrow> invar (get n b)"
    and get_view: "invar b \<Longrightarrow> view (get n b) = drop n (view b)"
begin

lemma run_invar: "invar b \<Longrightarrow> run_queue put get view ops b = Inr (out, b') \<Longrightarrow> invar b'"
proof (induction ops arbitrary: b out)
  case Nil
  then show ?case by simp
next
  case (Cons x ops)
  then show ?case
    by (cases x) (auto elim!: bind_r_Inr_E dest: put_invar intro: get_invar)
qed

text \<open>Nothing is lost, duplicated or reordered by any sequence of operations.\<close>

lemma run_stream:
  "invar b \<Longrightarrow> run_queue put get view ops b = Inr (out, b') \<Longrightarrow>
     out @ view b' = view b @ put_bytes ops"
proof (induction ops arbitrary: b out)
  case Nil
  then show ?case by simp
next
  case (Cons x ops)
  show ?case
  proof (cases x)
    case (Put d)
    with Cons.prems obtain b1 where "put d b = Inr b1"
      and "run_queue put get view ops b1 = Inr (out, b')" by auto
    with Cons.prems(1) Put show ?thesis
      by (auto dest: Cons.IH [rotated] put_invar simp: put_view)
  next
    case (Get n)
    with Cons.prems obtain o1 where r: "run_queue put get view ops (get n b) = Inr (o1, b')"
      and o: "out = take n (view b) @ o1" by auto
    have "o1 @ view b' = drop n (view b) @ put_bytes ops"
      using Cons.IH [OF get_invar r] Cons.prems(1) by (simp add: get_view)
    then show ?thesis by (simp add: o Get)
  qed
qed

end

end
