(* ===== verification/Buffer.thy ===== *)
theory Buffer
  imports ByteQueue
begin

text \<open>
  The byte buffer of \<^verbatim>\<open>include/Buffer.h\<close> and \<^verbatim>\<open>src/Buffer.cc\<close>: a vector with a reader and a writer
  index. Sizes and indices are \<^verbatim>\<open>size_t\<close> values with the wrap-around written out. The system calls
  \<^verbatim>\<open>readv\<close> and \<^verbatim>\<open>write\<close> are parameters of the operations that make them.
\<close>

section \<open>State and operations\<close>

record buffer =
  bufferV :: "char list"
  readerIndex :: nat
  writerIndex :: nat

definition kCheapPrepend :: nat where
  "kCheapPrepend = 8"

definition kInitialSize :: nat where
  "kInitialSize = 1024"

definition mk_buffer :: "nat \<Rightarrow> buffer result" where
  "mk_buffer initialSize = bind_r (vec_new (sz_add kCheapPrepend initialSize))
     (\<lambda>v. Inr \<lparr>bufferV = v, readerIndex = kCheapPrepend, writerIndex = kCheapPrepend\<rparr>)"

definition readableBytes :: "buffer \<Rightarrow> nat" where
  "readableBytes b = sz_sub (writerIndex b) (readerIndex b)"

definition writableBytes :: "buffer \<Rightarrow> nat" where
  "writableBytes b = sz_sub (length (bufferV b)) (writerIndex b)"

definition prependableBytes :: "buffer \<Rightarrow> nat" where
  "prependableBytes b = readerIndex b"

text \<open>The pointer \<^verbatim>\<open>peek()\<close> returns, read for \<open>len\<close> bytes.\<close>

definition peek :: "nat \<Rightarrow> buffer \<Rightarrow> char list result" where
  "peek len b = vec_read (readerIndex b) len (bufferV b)"

definition retrieveAll :: "buffer \<Rightarrow> buffer" where
  "retrieveAll b = b\<lparr>readerIndex := kCheapPrepend, writerIndex := kCheapPrepend\<rparr>"

definition retrieve :: "nat \<Rightarrow> buffer \<Rightarrow> buffer" where
  "retrieve len b = (if len < readableBytes b
     then b\<lparr>readerIndex := sz_add (readerIndex b) len\<rparr>
     else retrieveAll b)"

definition retrieveAsString :: "nat \<Rightarrow> buffer \<Rightarrow> (string \<times> buffer) result" where
  "retrieveAsString len b = bind_r (peek len b) (\<lambda>s. Inr (s, retrieve len b))"

definition retrieveAllAsString :: "buffer \<Rightarrow> (string \<times> buffer) result" where
  "retrieveAllAsString b = retrieveAsString (readableBytes b) b"

definition makeSpace :: "nat \<Rightarrow> buffer \<Rightarrow> buffer result" where
  "makeSpace len b =
     (if sz_add (writableBytes b) (prependableBytes b) < sz_add len kCheapPrepend
      then bind_r (vec_resize (sz_add (writerIndex b) len) (bufferV b))
             (\<lambda>v. Inr (b\<lparr>bufferV := v\<rparr>))
      else (let readable = readableBytes b in
        bind_r (vec_copy (writerIndex b - readerIndex b) (readerIndex b) kCheapPrepend (bufferV b))
          (\<lambda>v. Inr (b\<lparr>bufferV := v, readerIndex := kCheapPrepend,
                     writerIndex := sz_add kCheapPrepend readable\<rparr>))))"

definition ensureWritableBytes :: "nat \<Rightarrow> buffer \<Rightarrow> buffer result" where
  "ensureWritableBytes len b = (if writableBytes b < len then makeSpace len b else Inr b)"

text \<open>\<^verbatim>\<open>append(data, len)\<close>; the bytes at \<^verbatim>\<open>beginWrite()\<close> are overwritten.\<close>

definition append_b :: "char list \<Rightarrow> buffer \<Rightarrow> buffer result" where
  "append_b d b = bind_r (ensureWritableBytes (length d) b)
     (\<lambda>b1. bind_r (vec_write (writerIndex b1) d (bufferV b1))
       (\<lambda>v. Inr (b1\<lparr>bufferV := v, writerIndex := sz_add (writerIndex b1) (length d)\<rparr>)))"

definition swap_b :: "buffer \<Rightarrow> buffer \<Rightarrow> buffer \<times> buffer" where
  "swap_b b rhs = (rhs, b)"

subsection \<open>Reading and writing a file descriptor\<close>

text \<open>
  Outcome of \<^verbatim>\<open>readv\<close>: an error number, or the bytes received, which the call stores into the
  blocks of the \<^verbatim>\<open>iovec\<close> array in order. Outcome of \<^verbatim>\<open>write\<close>: an error number or a byte count.
\<close>

datatype read_out = ReadErr int | ReadOk "char list"
datatype write_out = WriteErr int | WriteOk nat

definition extrabuf_size :: nat where
  "extrabuf_size = 65536"

text \<open>The block lengths \<^verbatim>\<open>readFd\<close> passes to \<^verbatim>\<open>readv\<close>.\<close>

definition readFd_iov :: "buffer \<Rightarrow> nat list" where
  "readFd_iov b = (if writableBytes b < extrabuf_size
     then [writableBytes b, extrabuf_size] else [writableBytes b])"

text \<open>\<^verbatim>\<open>readFd\<close>: the new buffer, the returned \<^verbatim>\<open>n\<close> and the saved \<^verbatim>\<open>errno\<close>.\<close>

definition readFd :: "(nat list \<Rightarrow> read_out) \<Rightarrow> buffer \<Rightarrow> (buffer \<times> int \<times> int option) result" where
  "readFd readv b =
     (case readv (readFd_iov b) of
        ReadErr e \<Rightarrow> Inr (b, -1, Some e)
      | ReadOk bs \<Rightarrow>
          bind_r (vec_write (writerIndex b) (take (writableBytes b) bs) (bufferV b)) (\<lambda>v.
            (let b1 = b\<lparr>bufferV := v\<rparr>; n = length bs in
             if n \<le> writableBytes b
             then Inr (b1\<lparr>writerIndex := sz_add (writerIndex b) n\<rparr>, int n, None)
             else bind_r (append_b (drop (writableBytes b) bs) (b1\<lparr>writerIndex := length v\<rparr>))
                    (\<lambda>b2. Inr (b2, int n, None)))))"

text \<open>\<^verbatim>\<open>writeFd\<close>: hands the readable bytes to \<^verbatim>\<open>write\<close>; the buffer does not change.\<close>

definition writeFd :: "(char list \<Rightarrow> write_out) \<Rightarrow> buffer \<Rightarrow> (int \<times> int option) result" where
  "writeFd write b = bind_r (peek (readableBytes b) b)
     (\<lambda>d. case write d of WriteErr e \<Rightarrow> Inr (-1, Some e) | WriteOk n \<Rightarrow> Inr (int n, None))"

text \<open>Documented behaviour of the two calls: no more bytes than there is room or data for.\<close>

definition readv_doc :: "(nat list \<Rightarrow> read_out) \<Rightarrow> bool" where
  "readv_doc readv \<longleftrightarrow> (\<forall>iov bs. readv iov = ReadOk bs \<longrightarrow> length bs \<le> sum_list iov)"

definition write_doc :: "(char list \<Rightarrow> write_out) \<Rightarrow> bool" where
  "write_doc write \<longleftrightarrow> (\<forall>d n. write d = WriteOk n \<longrightarrow> n \<le> length d)"

section \<open>Invariant and abstraction\<close>

text \<open>The picture at the top of \<^verbatim>\<open>Buffer.h\<close>, and the bound the vector keeps.\<close>

definition buffer_wf :: "buffer \<Rightarrow> bool" where
  "buffer_wf b \<longleftrightarrow> kCheapPrepend \<le> readerIndex b \<and> readerIndex b \<le> writerIndex b \<and>
     writerIndex b \<le> length (bufferV b) \<and> length (bufferV b) \<le> vec_max_size"

text \<open>The readable bytes: what the buffer holds.\<close>

definition content :: "buffer \<Rightarrow> char list" where
  "content b = take (writerIndex b - readerIndex b) (drop (readerIndex b) (bufferV b))"

lemma buffer_wf_bounds:
  assumes "buffer_wf b"
  shows "kCheapPrepend \<le> readerIndex b" and "readerIndex b \<le> writerIndex b"
    and "writerIndex b \<le> length (bufferV b)" and "length (bufferV b) \<le> vec_max_size"
    and "length (bufferV b) < 2 ^ 63"
  using assms by (auto simp: buffer_wf_def vec_max_size_def)

lemma vec_max_size_less: "n \<le> vec_max_size \<longleftrightarrow> n < 2 ^ 63"
  by (auto simp: vec_max_size_def)

lemma length_content: "buffer_wf b \<Longrightarrow> length (content b) = writerIndex b - readerIndex b"
  by (auto simp: buffer_wf_def content_def)

text \<open>Under the invariant no size computation wraps around.\<close>

lemma buffer_sizes [simp]:
  assumes "buffer_wf b"
  shows "readableBytes b = length (content b)"
    and "writableBytes b = length (bufferV b) - writerIndex b"
    and "prependableBytes b = readerIndex b"
    and "sz_add (length (bufferV b) - writerIndex b) (readerIndex b) =
      length (bufferV b) - writerIndex b + readerIndex b"
  using buffer_wf_bounds [OF assms]
  by (simp_all add: readableBytes_def writableBytes_def prependableBytes_def
      length_content [OF assms] size_simps)

lemma sz_add_small [simp]:
  "len \<le> vec_max_size \<Longrightarrow> sz_add len kCheapPrepend = len + kCheapPrepend"
  "n \<le> vec_max_size \<Longrightarrow> len \<le> vec_max_size \<Longrightarrow> sz_add n len = n + len"
  by (simp_all add: vec_max_size_less kCheapPrepend_def size_simps)

lemma mk_buffer_ok:
  assumes "kCheapPrepend + n \<le> vec_max_size"
  shows "\<exists>b. mk_buffer n = Inr b \<and> buffer_wf b \<and> content b = [] \<and>
    length (bufferV b) = kCheapPrepend + n"
proof -
  have "sz_add kCheapPrepend n = kCheapPrepend + n"
    using assms by (simp add: vec_max_size_less size_simps)
  with assms show ?thesis
    by (simp add: mk_buffer_def vec_new_def buffer_wf_def content_def)
qed

lemma retrieveAll_wf [wf_intros]: "buffer_wf b \<Longrightarrow> buffer_wf (retrieveAll b)"
  by (auto simp: buffer_wf_def retrieveAll_def)

lemma content_retrieveAll [simp]: "content (retrieveAll b) = []"
  by (simp add: content_def retrieveAll_def)

lemma retrieve_eq:
  assumes "buffer_wf b"
  shows "retrieve n b = (if n < length (content b) then b\<lparr>readerIndex := readerIndex b + n\<rparr>
    else retrieveAll b)"
proof -
  have "n < length (content b) \<Longrightarrow> sz_add (readerIndex b) n = readerIndex b + n"
    using buffer_wf_bounds [OF assms] by (simp add: length_content [OF assms] size_simps)
  with assms show ?thesis by (simp add: retrieve_def)
qed

lemma retrieve_wf [wf_intros]: "buffer_wf b \<Longrightarrow> buffer_wf (retrieve n b)"
  by (simp add: retrieve_eq retrieveAll_wf length_content) (auto simp: buffer_wf_def)

lemma content_retrieve: "buffer_wf b \<Longrightarrow> content (retrieve n b) = drop n (content b)"
  by (simp add: retrieve_eq) (simp add: content_def drop_take add.commute)

lemma bufferV_retrieve [simp]: "bufferV (retrieve n b) = bufferV b"
  by (simp add: retrieve_def retrieveAll_def)

lemma peek_content:
  assumes "buffer_wf b" and "n \<le> length (content b)"
  shows "peek n b = Inr (take n (content b))"
  using assms buffer_wf_bounds [OF assms(1)]
  by (simp add: peek_def vec_read_def length_content) (simp add: content_def)

subsection \<open>Making space\<close>

text \<open>The branch that moves the data to the front, in take/drop form.\<close>

lemma makeSpace_move:
  assumes wf: "buffer_wf b" and need: "writableBytes b < len"
    and fits: "\<not> sz_add (writableBytes b) (prependableBytes b) < sz_add len kCheapPrepend"
    and len: "len \<le> vec_max_size"
  shows "kCheapPrepend < readerIndex b"
    and "makeSpace len b = Inr \<lparr>bufferV = take kCheapPrepend (bufferV b) @ content b
      @ drop (kCheapPrepend + length (content b)) (bufferV b),
      readerIndex = kCheapPrepend, writerIndex = kCheapPrepend + length (content b)\<rparr>"
proof -
  note bnd = buffer_wf_bounds [OF wf]
  show lt: "kCheapPrepend < readerIndex b"
    using fits need len wf by simp
  have "sz_add kCheapPrepend (length (content b)) = kCheapPrepend + length (content b)"
    using bnd lt by (simp add: length_content [OF wf] size_simps)
  moreover have "vec_copy (writerIndex b - readerIndex b) (readerIndex b) kCheapPrepend (bufferV b) =
      Inr (take kCheapPrepend (bufferV b) @ content b
        @ drop (kCheapPrepend + length (content b)) (bufferV b))"
    using bnd lt by (simp add: vec_copy_def std_copy_front length_content [OF wf]) (simp add: content_def)
  ultimately show "makeSpace len b = Inr \<lparr>bufferV = take kCheapPrepend (bufferV b) @ content b
      @ drop (kCheapPrepend + length (content b)) (bufferV b),
      readerIndex = kCheapPrepend, writerIndex = kCheapPrepend + length (content b)\<rparr>"
    using fits by (simp add: makeSpace_def wf)
qed

text \<open>The branch that grows the vector.\<close>

lemma makeSpace_resize:
  assumes wf: "buffer_wf b" and need: "writableBytes b < len"
    and full: "sz_add (writableBytes b) (prependableBytes b) < sz_add len kCheapPrepend"
    and len: "len \<le> vec_max_size"
  shows "makeSpace len b = (if vec_max_size < writerIndex b + len then Inl LengthError
      else Inr (b\<lparr>bufferV := bufferV b @ replicate (writerIndex b + len - length (bufferV b)) (CHR 0x00)\<rparr>))"
    and "length (bufferV b) < kCheapPrepend + length (content b) + len"
proof -
  note bnd = buffer_wf_bounds [OF wf]
  have "sz_add (writerIndex b) len = writerIndex b + len"
    using bnd len by simp
  then show "makeSpace len b = (if vec_max_size < writerIndex b + len then Inl LengthError
      else Inr (b\<lparr>bufferV := bufferV b @ replicate (writerIndex b + len - length (bufferV b)) (CHR 0x00)\<rparr>))"
    using full need by (simp add: makeSpace_def vec_resize_def wf)
  show "length (bufferV b) < kCheapPrepend + length (content b) + len"
    using full bnd len by (simp add: length_content wf)
qed

lemma makeSpace_full:
  assumes "buffer_wf b" and "len \<le> vec_max_size"
  shows "sz_add (writableBytes b) (prependableBytes b) < sz_add len kCheapPrepend \<longleftrightarrow>
      length (bufferV b) < kCheapPrepend + length (content b) + len"
  using buffer_wf_bounds [OF assms(1)] assms by (auto simp: length_content)

lemma ensureWritableBytes_eq:
  assumes wf: "buffer_wf b" and len: "len \<le> vec_max_size"
  shows "ensureWritableBytes len b =
      (if len \<le> writableBytes b then Inr b
       else if length (bufferV b) < kCheapPrepend + length (content b) + len
       then (if vec_max_size < writerIndex b + len then Inl LengthError
             else Inr (b\<lparr>bufferV := bufferV b @ replicate (writerIndex b + len - length (bufferV b)) (CHR 0x00)\<rparr>))
       else Inr \<lparr>bufferV = take kCheapPrepend (bufferV b) @ content b
              @ drop (kCheapPrepend + length (content b)) (bufferV b),
              readerIndex = kCheapPrepend, writerIndex = kCheapPrepend + length (content b)\<rparr>)"
proof (cases "writableBytes b < len")
  case True
  note r = makeSpace_resize(1) [OF wf True _ len, unfolded makeSpace_full [OF wf len]]
    and m = makeSpace_move(2) [OF wf True _ len, unfolded makeSpace_full [OF wf len]]
  show ?thesis
    by (cases "length (bufferV b) < kCheapPrepend + length (content b) + len")
      (use True in \<open>simp_all add: ensureWritableBytes_def not_le [symmetric] r m\<close>)
qed (simp add: ensureWritableBytes_def)

text \<open>What \<^verbatim>\<open>ensureWritableBytes\<close> promises, as one relation between the two buffers.\<close>

definition has_room :: "nat \<Rightarrow> buffer \<Rightarrow> buffer \<Rightarrow> bool" where
  "has_room len b b' \<longleftrightarrow> buffer_wf b' \<and> content b' = content b \<and>
     writerIndex b' + len \<le> length (bufferV b') \<and>
     (length (bufferV b') = length (bufferV b) \<or>
      length (bufferV b') = writerIndex b + len \<and>
      length (bufferV b) < kCheapPrepend + length (content b) + len)"

lemma ensureWritableBytes_cases:
  assumes wf: "buffer_wf b" and len: "len \<le> vec_max_size"
  shows "(\<exists>b'. ensureWritableBytes len b = Inr b' \<and> has_room len b b') \<or>
    ensureWritableBytes len b = Inl LengthError \<and> vec_max_size < writerIndex b + len"
proof (cases "writableBytes b < len")
  case False
  with wf have "has_room len b b" by (auto simp: has_room_def dest: buffer_wf_bounds)
  with False show ?thesis by (simp add: ensureWritableBytes_def)
next
  case need: True
  note bnd = buffer_wf_bounds [OF wf]
  show ?thesis
  proof (cases "sz_add (writableBytes b) (prependableBytes b) < sz_add len kCheapPrepend")
    case True
    note r = makeSpace_resize [OF wf need True len]
    let ?b = "b\<lparr>bufferV := bufferV b @ replicate (writerIndex b + len - length (bufferV b)) (CHR 0x00)\<rparr>"
    have "\<not> vec_max_size < writerIndex b + len \<Longrightarrow> has_room len b ?b"
      using bnd need wf r(2) by (auto simp: has_room_def buffer_wf_def content_def)
    with r(1) need show ?thesis by (auto simp: ensureWritableBytes_def)
  next
    case False
    note m = makeSpace_move [OF wf need False len]
    let ?b = "\<lparr>bufferV = take kCheapPrepend (bufferV b) @ content b
      @ drop (kCheapPrepend + length (content b)) (bufferV b),
      readerIndex = kCheapPrepend, writerIndex = kCheapPrepend + length (content b)\<rparr>"
    have l: "kCheapPrepend + length (content b) + len \<le> length (bufferV b)"
      using False bnd m(1) len wf by (simp add: length_content)
    then have "content ?b = content b"
      by (simp add: content_def [of ?b])
    with l bnd have "has_room len b ?b"
      by (simp add: has_room_def buffer_wf_def)
    then show ?thesis using need m(2) by (simp add: ensureWritableBytes_def)
  qed
qed

subsection \<open>Appending\<close>

lemma content_vec_write:
  assumes wf: "buffer_wf b" and fit: "writerIndex b + length d \<le> length (bufferV b)"
    and b': "b' = b\<lparr>bufferV := take (writerIndex b) (bufferV b) @ d
        @ drop (writerIndex b + length d) (bufferV b),
      writerIndex := writerIndex b + length d\<rparr>"
  shows "buffer_wf b'" and "content b' = content b @ d"
    and "length (bufferV b') = length (bufferV b)"
proof -
  note bnd = buffer_wf_bounds [OF wf]
  show "buffer_wf b'" using bnd fit by (simp add: b' buffer_wf_def)
  show "length (bufferV b') = length (bufferV b)" using fit by (simp add: b')
  have "drop (readerIndex b) (take (writerIndex b) (bufferV b)) = content b"
    by (simp add: content_def drop_take)
  then show "content b' = content b @ d"
    using bnd fit by (simp add: b' content_def [of b'] length_content [OF wf] Suc_diff_le)
      (simp add: content_def)
qed

text \<open>Every outcome of \<^verbatim>\<open>append\<close> on data that can exist in memory.\<close>

lemma append_b_cases:
  assumes wf: "buffer_wf b" and len: "length d \<le> vec_max_size"
  shows "(\<exists>b'. append_b d b = Inr b' \<and> buffer_wf b' \<and> content b' = content b @ d \<and>
      (length (bufferV b') = length (bufferV b) \<or>
       length (bufferV b') = writerIndex b + length d \<and>
       length (bufferV b) < kCheapPrepend + length (content b) + length d)) \<or>
    append_b d b = Inl LengthError \<and> vec_max_size < writerIndex b + length d"
  using ensureWritableBytes_cases [OF wf len]
proof (elim disjE exE conjE)
  fix b1 assume e: "ensureWritableBytes (length d) b = Inr b1" and r: "has_room (length d) b b1"
  from r have wf1: "buffer_wf b1" and fit: "writerIndex b1 + length d \<le> length (bufferV b1)"
    and c: "content b1 = content b" by (auto simp: has_room_def)
  let ?b = "b1\<lparr>bufferV := take (writerIndex b1) (bufferV b1) @ d
        @ drop (writerIndex b1 + length d) (bufferV b1),
      writerIndex := writerIndex b1 + length d\<rparr>"
  have "writerIndex b1 \<le> vec_max_size" using buffer_wf_bounds [OF wf1] by simp
  with e fit len have "append_b d b = Inr ?b"
    by (simp add: append_b_def vec_write_def)
  with content_vec_write [OF wf1 fit refl] r c show ?thesis
    by (intro disjI1 exI [of _ ?b]) (auto simp: has_room_def)
qed (simp add: append_b_def)

lemma append_b_small: "buffer_wf b \<Longrightarrow> append_b d b = Inr b' \<Longrightarrow> length d \<le> vec_max_size"
  by (auto simp: append_b_def ensureWritableBytes_def makeSpace_def vec_write_def vec_resize_def vec_copy_def
      Let_def dest: buffer_wf_bounds(4) split: if_splits elim!: bind_r_Inr_E)

lemma append_b_Inr:
  assumes "buffer_wf b" and "append_b d b = Inr b'"
  shows "buffer_wf b'" and "content b' = content b @ d"
  using append_b_cases [OF assms(1) append_b_small [OF assms]] assms(2) by auto

interpretation bq: byte_queue buffer_wf content append_b retrieve
  by unfold_locales (auto simp: append_b_Inr retrieve_wf content_retrieve)

subsection \<open>Reading from a descriptor\<close>

lemma readFd_iov_sum:
  "buffer_wf b \<Longrightarrow> sum_list (readFd_iov b) \<le> length (bufferV b) - writerIndex b + extrabuf_size"
  by (simp add: readFd_iov_def)

lemma readFd_capacity:
  assumes "buffer_wf b" and "readv_doc readv" and "readv (readFd_iov b) = ReadOk bs"
  shows "length bs \<le> length (bufferV b) - writerIndex b + extrabuf_size"
proof -
  have "length bs \<le> sum_list (readFd_iov b)"
    using assms(2,3) by (auto simp: readv_doc_def)
  with readFd_iov_sum [OF assms(1)] show ?thesis by simp
qed

lemma readFd_Ok:
  assumes wf: "buffer_wf b" and doc: "readv_doc readv"
    and room: "length (bufferV b) + extrabuf_size \<le> vec_max_size"
    and rv: "readv (readFd_iov b) = ReadOk bs"
  shows "\<exists>b'. readFd readv b = Inr (b', int (length bs), None) \<and> buffer_wf b' \<and>
      content b' = content b @ bs"
proof -
  note bnd = buffer_wf_bounds [OF wf]
  let ?w = "length (bufferV b) - writerIndex b"
  let ?d = "take ?w bs"
  have fit: "writerIndex b + length ?d \<le> length (bufferV b)" using bnd by simp
  let ?v = "take (writerIndex b) (bufferV b) @ ?d @ drop (writerIndex b + length ?d) (bufferV b)"
  let ?b1 = "b\<lparr>bufferV := ?v, writerIndex := writerIndex b + length ?d\<rparr>"
  note w = content_vec_write [OF wf fit refl]
  have vw: "vec_write (writerIndex b) ?d (bufferV b) = Inr ?v"
    using fit by (simp add: vec_write_def)
  show ?thesis
  proof (cases "length bs \<le> ?w")
    case True
    then have "sz_add (writerIndex b) (length bs) = writerIndex b + length bs"
      using bnd by simp
    with True rv vw wf have "readFd readv b = Inr (?b1, int (length bs), None)"
      by (simp add: readFd_def Let_def)
    with w True show ?thesis by auto
  next
    case False
    let ?e = "drop ?w bs"
    have e: "length ?e \<le> extrabuf_size"
      using readFd_capacity [OF wf doc rv] by simp
    have b1: "b\<lparr>bufferV := ?v, writerIndex := length ?v\<rparr> = ?b1"
      using False bnd by simp
    have l: "length ?e \<le> vec_max_size" and ne: "\<not> vec_max_size < writerIndex ?b1 + length ?e"
      using e room bnd False by (auto simp: extrabuf_size_def)
    from append_b_cases [OF w(1) l] ne obtain b2 where
      b2: "append_b ?e ?b1 = Inr b2" "buffer_wf b2" "content b2 = content ?b1 @ ?e" by blast
    have "readFd readv b = Inr (b2, int (length bs), None)"
      using False rv vw wf b2(1) b1 by (simp add: readFd_def Let_def)
    moreover have "content b2 = content b @ bs"
      using b2(3) w(2) by simp
    ultimately show ?thesis using b2(2) by blast
  qed
qed

lemma readFd_Err: "readv (readFd_iov b) = ReadErr e \<Longrightarrow> readFd readv b = Inr (b, -1, Some e)"
  by (simp add: readFd_def)

section \<open>Properties\<close>

definition sample_buffer :: buffer where
  "sample_buffer = \<lparr>bufferV = ''12345678abcdef..'', readerIndex = 10, writerIndex = 14\<rparr>"

lemma sample_buffer_wf: "buffer_wf sample_buffer"
  by (simp add: buffer_wf_def sample_buffer_def kCheapPrepend_def vec_max_size_def)

text \<open>
  C15: \<^verbatim>\<open>append\<close> on a well-formed buffer either leaves a well-formed buffer whose readable bytes are
  the old ones followed by the new data, or throws \<^verbatim>\<open>length_error\<close>; it throws only when the vector
  would have to grow beyond \<^verbatim>\<open>max_size()\<close>, and it never writes outside the vector.
\<close>

theorem append_fifo:
  assumes "buffer_wf b" and "length d \<le> vec_max_size"
  shows "case append_b d b of
      Inr b' \<Rightarrow> buffer_wf b' \<and> content b' = content b @ d
    | Inl e \<Rightarrow> e = LengthError \<and> vec_max_size < writerIndex b + length d"
  using append_b_cases [OF assms] by (auto split: sum.split)

theorem append_fifo_witness:
  "buffer_wf sample_buffer \<and> length ''xyz'' \<le> vec_max_size \<and>
   (case append_b ''xyz'' sample_buffer of
      Inr b' \<Rightarrow> buffer_wf b' \<and> content b' = content sample_buffer @ ''xyz''
    | Inl e \<Rightarrow> e = LengthError \<and> vec_max_size < writerIndex sample_buffer + length ''xyz'')"
proof -
  have l: "length ''xyz'' \<le> vec_max_size" by (simp add: vec_max_size_def)
  show ?thesis using append_fifo [OF sample_buffer_wf l] sample_buffer_wf l by blast
qed

text \<open>
  C16: for every sequence of appends and retrieves on a well-formed buffer that completes, the bytes
  retrieved followed by the bytes left in the buffer are the bytes that were there followed by the
  bytes appended: the buffer is a first-in first-out byte stream, whatever moves and resizes happen
  inside.
\<close>

theorem buffer_stream:
  assumes "buffer_wf b" and "run_queue append_b retrieve content ops b = Inr (out, b')"
  shows "out @ content b' = content b @ put_bytes ops \<and> buffer_wf b'"
  using bq.run_stream [OF assms] bq.run_invar [OF assms] by simp

theorem buffer_stream_witness:
  "run_queue append_b retrieve content [Get 1, Put ''xyz'', Get 4, Put ''uv''] sample_buffer =
     Inr (''cdefx'', \<lparr>bufferV = ''12345678defxyzuv'', readerIndex = 12, writerIndex = 16\<rparr>) \<and>
   ''cdefx'' @ content \<lparr>bufferV = ''12345678defxyzuv'', readerIndex = 12, writerIndex = 16\<rparr> =
     content sample_buffer @ put_bytes [Get 1, Put ''xyz'', Get 4, Put ''uv'']"
proof -
  have r: "run_queue append_b retrieve content [Get 1, Put ''xyz'', Get 4, Put ''uv''] sample_buffer =
     Inr (''cdefx'', \<lparr>bufferV = ''12345678defxyzuv'', readerIndex = 12, writerIndex = 16\<rparr>)"
    by code_simp
  show ?thesis using r buffer_stream [OF sample_buffer_wf r] by blast
qed

text \<open>
  C18: exactly what \<^verbatim>\<open>ensureWritableBytes\<close> does. If \<open>len\<close> bytes fit behind the writer index, nothing. If the
  prependable header, the readable bytes and \<open>len\<close> together do not fit in the vector, the vector grows to the
  writer index plus \<open>len\<close>, or \<^verbatim>\<open>length_error\<close> is thrown when that exceeds the largest vector. Otherwise the
  vector keeps its length and the readable bytes are moved to the front; then the source range of \<^verbatim>\<open>std::copy\<close>
  starts strictly behind its destination, so the copy is not one into its own source range, which would be
  undefined. Either way the content stays the same and there is room for \<open>len\<close> bytes.
\<close>

theorem ensureWritable_grows_only_if_needed:
  assumes "buffer_wf b" and "len \<le> vec_max_size"
  shows "ensureWritableBytes len b =
      (if len \<le> writableBytes b then Inr b
       else if length (bufferV b) < kCheapPrepend + length (content b) + len
       then (if vec_max_size < writerIndex b + len then Inl LengthError
             else Inr (b\<lparr>bufferV := bufferV b @ replicate (writerIndex b + len - length (bufferV b)) (CHR 0x00)\<rparr>))
       else Inr \<lparr>bufferV = take kCheapPrepend (bufferV b) @ content b
              @ drop (kCheapPrepend + length (content b)) (bufferV b),
              readerIndex = kCheapPrepend, writerIndex = kCheapPrepend + length (content b)\<rparr>) \<and>
    (writableBytes b < len \<and> kCheapPrepend + length (content b) + len \<le> length (bufferV b) \<longrightarrow>
       kCheapPrepend < readerIndex b) \<and>
    (\<forall>b'. ensureWritableBytes len b = Inr b' \<longrightarrow>
       buffer_wf b' \<and> content b' = content b \<and> len \<le> writableBytes b')"
proof -
  have "buffer_wf b' \<and> content b' = content b \<and> len \<le> writableBytes b'" if "ensureWritableBytes len b = Inr b'" for b'
    using ensureWritableBytes_cases [OF assms] that by (auto simp: has_room_def)
  moreover have "kCheapPrepend < readerIndex b"
    if "writableBytes b < len" "kCheapPrepend + length (content b) + len \<le> length (bufferV b)"
    by (rule makeSpace_move(1) [OF assms(1) that(1) _ assms(2)]) (use makeSpace_full [OF assms] that in simp)
  moreover note ensureWritableBytes_eq [OF assms]
  ultimately show ?thesis by blast
qed

theorem ensureWritable_grows_only_if_needed_witness:
  "ensureWritableBytes 4 sample_buffer =
     Inr \<lparr>bufferV = ''12345678cdefef..'', readerIndex = 8, writerIndex = 12\<rparr> \<and>
   content \<lparr>bufferV = ''12345678cdefef..'', readerIndex = 8, writerIndex = 12\<rparr> = content sample_buffer"
proof -
  have e: "ensureWritableBytes 4 sample_buffer =
     Inr \<lparr>bufferV = ''12345678cdefef..'', readerIndex = 8, writerIndex = 12\<rparr>"
    by code_simp
  have l: "(4::nat) \<le> vec_max_size" by (simp add: vec_max_size_def)
  show ?thesis
    using e ensureWritable_grows_only_if_needed [OF sample_buffer_wf l] by blast
qed

text \<open>
  C17: whatever \<^verbatim>\<open>readv\<close> delivers is in the buffer after \<^verbatim>\<open>readFd\<close>, behind what was there, also when
  it spilled into the 64 KiB stack block; the byte count is returned, and on an error the buffer is
  unchanged and the error number is reported.
\<close>

theorem readFd_appends_everything:
  assumes "buffer_wf b" and "readv_doc readv"
    and "length (bufferV b) + extrabuf_size \<le> vec_max_size"
  shows "case readv (readFd_iov b) of
      ReadErr e \<Rightarrow> readFd readv b = Inr (b, -1, Some e)
    | ReadOk bs \<Rightarrow> (\<exists>b'. readFd readv b = Inr (b', int (length bs), None) \<and> buffer_wf b' \<and>
        content b' = content b @ bs)"
  using readFd_Ok [OF assms] readFd_Err by (auto split: read_out.split)

definition sample_readv :: "nat list \<Rightarrow> read_out" where
  "sample_readv iov = ReadOk (take (sum_list iov) ''hello'')"

theorem readFd_appends_everything_witness:
  "readv_doc sample_readv \<and> sample_readv (readFd_iov sample_buffer) = ReadOk ''hello'' \<and>
   (\<exists>b'. readFd sample_readv sample_buffer = Inr (b', int (length ''hello''), None) \<and> buffer_wf b' \<and>
      content b' = content sample_buffer @ ''hello'')"
proof -
  have d: "readv_doc sample_readv" by (simp add: readv_doc_def sample_readv_def)
  have r: "length (bufferV sample_buffer) + extrabuf_size \<le> vec_max_size"
    by (simp add: sample_buffer_def extrabuf_size_def vec_max_size_def)
  have s: "sample_readv (readFd_iov sample_buffer) = ReadOk ''hello''" by code_simp
  show ?thesis using d s readFd_appends_everything [OF sample_buffer_wf d r] by simp
qed

text \<open>
  C19: \<^verbatim>\<open>retrieveAsString(len)\<close> returns the first \<open>len\<close> readable bytes and removes them when at least
  that many are readable. When \<open>len\<close> is larger, nothing stops it: as long as the vector is long
  enough it returns \<open>len\<close> bytes anyway, the readable ones followed by bytes that were never
  received, and empties the buffer; beyond the vector it reads outside the object.
\<close>

theorem retrieveAsString_cases:
  assumes "buffer_wf b"
  shows "retrieveAsString len b =
    (if len \<le> length (content b) then Inr (take len (content b), retrieve len b)
     else if len \<le> length (bufferV b) - readerIndex b
     then Inr (content b @ take (len - length (content b)) (drop (writerIndex b) (bufferV b)),
               retrieveAll b)
     else Inl OutOfRange)"
proof -
  note bnd = buffer_wf_bounds [OF assms]
  have split: "drop (readerIndex b) (bufferV b) = content b @ drop (writerIndex b) (bufferV b)"
    using bnd by (simp add: content_def)
      (metis append_take_drop_id drop_drop le_add_diff_inverse2)
  have "len \<le> length (bufferV b) - readerIndex b \<Longrightarrow>
      peek len b = Inr (take len (content b) @
        take (len - length (content b)) (drop (writerIndex b) (bufferV b)))"
    using bnd by (simp add: peek_def vec_read_def split)
  moreover have "\<not> len \<le> length (bufferV b) - readerIndex b \<Longrightarrow> peek len b = Inl OutOfRange"
    using bnd by (simp add: peek_def vec_read_def)
  ultimately show ?thesis
    using assms bnd by (auto simp: retrieveAsString_def length_content retrieve_eq)
qed

theorem retrieveAsString_cases_witness:
  "buffer_wf sample_buffer \<and>
   retrieveAsString 2 sample_buffer = Inr (''cd'', retrieve 2 sample_buffer) \<and>
   retrieveAsString 6 sample_buffer = Inr (''cdef..'', retrieveAll sample_buffer) \<and>
   retrieveAsString 7 sample_buffer = Inl OutOfRange"
proof -
  have "content sample_buffer = ''cdef''" by code_simp
  then show ?thesis
    using sample_buffer_wf retrieveAsString_cases [OF sample_buffer_wf, of 2]
      retrieveAsString_cases [OF sample_buffer_wf, of 6]
      retrieveAsString_cases [OF sample_buffer_wf, of 7]
    by (simp add: sample_buffer_def)
qed

end
