(* ===== verification/Kernel.thy ===== *)
theory Kernel
  imports Buffer
begin

text \<open>
  The operating system as the library sees it. Its calls are the fields of a record, a parameter of
  every operation that makes system calls; \<open>'k\<close> is the kernel's own state, of which nothing is known
  but what the views \<open>interest\<close>, \<open>sent\<close>, \<open>readable\<close> and \<open>wr_shut\<close> show. The predicates at the end
  state the documented behaviour of the calls; theorems that need it take it as a hypothesis. A
  small executable kernel that satisfies all of them is defined for the witnesses.
\<close>

section \<open>The calls\<close>

datatype ctl_op = CtlAdd | CtlMod | CtlDel

text \<open>A ready event is a mask of event bits and the user pointer registered with the descriptor.\<close>

type_synonym events = "32 word"
type_synonym chan_ptr = nat
type_synonym epoll_event = "events \<times> chan_ptr"

datatype wait_out = WaitErr int | WaitOk "epoll_event list"

record 'k kernel =
  epoll_ctl :: "'k \<Rightarrow> ctl_op \<Rightarrow> int \<Rightarrow> epoll_event \<Rightarrow> 'k \<times> int"
  epoll_wait :: "'k \<Rightarrow> nat \<Rightarrow> int \<Rightarrow> 'k \<times> wait_out"
  eventfd_write :: "'k \<Rightarrow> int \<Rightarrow> 'k \<times> int"
  eventfd_read :: "'k \<Rightarrow> int \<Rightarrow> 'k \<times> int"
  sock_write :: "'k \<Rightarrow> int \<Rightarrow> char list \<Rightarrow> 'k \<times> write_out"
  sock_readv :: "'k \<Rightarrow> int \<Rightarrow> nat list \<Rightarrow> 'k \<times> read_out"
  sock_sendfile :: "'k \<Rightarrow> int \<Rightarrow> int \<Rightarrow> nat \<Rightarrow> nat \<Rightarrow> 'k \<times> write_out"
  sock_shutdown :: "'k \<Rightarrow> int \<Rightarrow> 'k \<times> int"
  sock_error :: "'k \<Rightarrow> int \<Rightarrow> int"
  sock_listen :: "'k \<Rightarrow> int \<Rightarrow> 'k \<times> int"
  clock_us :: "'k \<Rightarrow> int"
  interest :: "'k \<Rightarrow> int \<Rightarrow> epoll_event option"
  sent :: "'k \<Rightarrow> int \<Rightarrow> char list"
  readable :: "'k \<Rightarrow> int \<Rightarrow> bool"
  wr_shut :: "'k \<Rightarrow> int \<Rightarrow> bool"
  file_data :: "'k \<Rightarrow> int \<Rightarrow> char list"

text \<open>Error numbers the sources name (Linux values).\<close>

definition EINTR :: int where "EINTR = 4"
definition EWOULDBLOCK :: int where "EWOULDBLOCK = 11"
definition EMFILE :: int where "EMFILE = 24"
definition EPIPE :: int where "EPIPE = 32"
definition ECONNRESET :: int where "ECONNRESET = 104"

section \<open>Documented behaviour\<close>

text \<open>Everything a call that only touches the epoll instance leaves alone.\<close>

definition same_io :: "'k kernel \<Rightarrow> 'k \<Rightarrow> 'k \<Rightarrow> bool" where
  "same_io K k k' \<longleftrightarrow> sent K k' = sent K k \<and> readable K k' = readable K k \<and>
     wr_shut K k' = wr_shut K k \<and> file_data K k' = file_data K k"

text \<open>
  \<^verbatim>\<open>epoll_ctl(2)\<close>: adding twice is refused with \<^verbatim>\<open>EEXIST\<close>, changing or removing an absent descriptor with
  \<^verbatim>\<open>ENOENT\<close>; the other calls succeed, as long as the system has memory and watches left. Nothing is
  assumed of a call that is refused, so that no theorem can rest on one.
\<close>

definition ctl_accepted :: "'k kernel \<Rightarrow> 'k \<Rightarrow> ctl_op \<Rightarrow> int \<Rightarrow> bool" where
  "ctl_accepted K k op fd \<longleftrightarrow> (op = CtlAdd) = (interest K k fd = None)"

definition epoll_doc :: "'k kernel \<Rightarrow> bool" where
  "epoll_doc K \<longleftrightarrow> (\<forall>k op fd e k' r. epoll_ctl K k op fd e = (k', r) \<and> ctl_accepted K k op fd \<longrightarrow>
     same_io K k k' \<and> r = 0 \<and> interest K k' = (interest K k)(fd := if op = CtlDel then None else Some e))"

text \<open>\<^verbatim>\<open>epoll_wait(2)\<close>: at most \<^verbatim>\<open>maxevents\<close> events, each of a registered descriptor.\<close>

definition wait_doc :: "'k kernel \<Rightarrow> bool" where
  "wait_doc K \<longleftrightarrow> (\<forall>k n t k' out. epoll_wait K k n t = (k', out) \<longrightarrow> same_io K k k' \<and>
     interest K k' = interest K k \<and>
     (\<forall>evs. out = WaitOk evs \<longrightarrow> length evs \<le> n \<and>
        (\<forall>(ev, p) \<in> set evs. \<exists>fd e. interest K k fd = Some (e, p))))"

text \<open>
  \<^verbatim>\<open>eventfd(2)\<close>: after a write of 8 bytes the descriptor is readable, and a write that fails (the
  counter is at its maximum) leaves it readable; after a read it is not readable.
\<close>

definition eventfd_doc :: "'k kernel \<Rightarrow> bool" where
  "eventfd_doc K \<longleftrightarrow>
     (\<forall>k fd k' n. eventfd_write K k fd = (k', n) \<longrightarrow> readable K k' = (readable K k)(fd := True) \<and>
        sent K k' = sent K k \<and> wr_shut K k' = wr_shut K k \<and> file_data K k' = file_data K k \<and>
        interest K k' = interest K k) \<and>
     (\<forall>k fd k' n. eventfd_read K k fd = (k', n) \<longrightarrow> readable K k' = (readable K k)(fd := False) \<and>
        sent K k' = sent K k \<and> wr_shut K k' = wr_shut K k \<and> file_data K k' = file_data K k \<and>
        interest K k' = interest K k)"

text \<open>
  \<^verbatim>\<open>write(2)\<close> and \<^verbatim>\<open>sendfile(2)\<close> on a socket: a prefix of the data is accepted, or nothing. \<open>sent\<close> is
  what the kernel has accepted on a descriptor so far.
\<close>

definition sock_frame :: "'k kernel \<Rightarrow> 'k \<Rightarrow> 'k \<Rightarrow> bool" where
  "sock_frame K k k' \<longleftrightarrow> interest K k' = interest K k \<and> readable K k' = readable K k \<and>
     wr_shut K k' = wr_shut K k \<and> file_data K k' = file_data K k"

definition sock_write_doc :: "'k kernel \<Rightarrow> bool" where
  "sock_write_doc K \<longleftrightarrow> (\<forall>k fd d k' out. sock_write K k fd d = (k', out) \<longrightarrow> sock_frame K k k' \<and>
     (case out of WriteErr e \<Rightarrow> sent K k' = sent K k
      | WriteOk n \<Rightarrow> n \<le> length d \<and> sent K k' = (sent K k)(fd := sent K k fd @ take n d)))"

definition sendfile_doc :: "'k kernel \<Rightarrow> bool" where
  "sendfile_doc K \<longleftrightarrow> (\<forall>k fd f off c k' out. sock_sendfile K k fd f off c = (k', out) \<longrightarrow>
     sock_frame K k k' \<and>
     (case out of WriteErr e \<Rightarrow> sent K k' = sent K k
      | WriteOk n \<Rightarrow> n \<le> c \<and> n \<le> length (drop off (file_data K k f)) \<and>
          sent K k' = (sent K k)(fd := sent K k fd @ take n (drop off (file_data K k f)))))"

text \<open>\<^verbatim>\<open>readv(2)\<close> touches nothing the library can see but the bytes it returns.\<close>

definition sock_readv_doc :: "'k kernel \<Rightarrow> bool" where
  "sock_readv_doc K \<longleftrightarrow> (\<forall>k fd iov k' out. sock_readv K k fd iov = (k', out) \<longrightarrow>
     sock_frame K k k' \<and> sent K k' = sent K k \<and>
     (\<forall>bs. out = ReadOk bs \<longrightarrow> length bs \<le> sum_list iov))"

text \<open>\<^verbatim>\<open>shutdown(2)\<close> with \<^verbatim>\<open>SHUT_WR\<close>.\<close>

definition shutdown_doc :: "'k kernel \<Rightarrow> bool" where
  "shutdown_doc K \<longleftrightarrow> (\<forall>k fd k' r. sock_shutdown K k fd = (k', r) \<longrightarrow>
     interest K k' = interest K k \<and> readable K k' = readable K k \<and> sent K k' = sent K k \<and>
     file_data K k' = file_data K k \<and> wr_shut K k' = (wr_shut K k)(fd := True))"

text \<open>\<^verbatim>\<open>listen(2)\<close> succeeds and touches nothing else.\<close>

definition listen_doc :: "'k kernel \<Rightarrow> bool" where
  "listen_doc K \<longleftrightarrow> (\<forall>k fd k' r. sock_listen K k fd = (k', r) \<longrightarrow>
     r = 0 \<and> interest K k' = interest K k \<and> same_io K k k')"

definition kernel_doc :: "'k kernel \<Rightarrow> bool" where
  "kernel_doc K \<longleftrightarrow> epoll_doc K \<and> wait_doc K \<and> eventfd_doc K \<and> sock_write_doc K \<and>
     sendfile_doc K \<and> sock_readv_doc K \<and> shutdown_doc K \<and> listen_doc K"

lemma kernel_docD:
  assumes "kernel_doc K"
  shows "epoll_doc K" and "wait_doc K" and "eventfd_doc K" and "sock_write_doc K"
    and "sendfile_doc K" and "sock_readv_doc K" and "shutdown_doc K" and "listen_doc K"
  using assms by (simp_all add: kernel_doc_def)

section \<open>A kernel for the witnesses\<close>

text \<open>
  Every write accepts at most \<open>sk_window\<close> bytes, reads return \<open>sk_inbox\<close>, \<open>sk_broken\<close> makes
  socket writes fail with the given error number.
\<close>

record skernel =
  sk_interest :: "int \<Rightarrow> epoll_event option"
  sk_sent :: "int \<Rightarrow> char list"
  sk_readable :: "int \<Rightarrow> bool"
  sk_shut :: "int \<Rightarrow> bool"
  sk_window :: nat
  sk_inbox :: "char list"
  sk_broken :: "int option"
  sk_ready :: "epoll_event list"

definition sk_ctl :: "skernel \<Rightarrow> ctl_op \<Rightarrow> int \<Rightarrow> epoll_event \<Rightarrow> skernel \<times> int" where
  "sk_ctl k op fd e = (if (op = CtlAdd) = (sk_interest k fd = None)
     then (k\<lparr>sk_interest := (sk_interest k)(fd := if op = CtlDel then None else Some e)\<rparr>, 0)
     else (k, -1))"

definition sk_wait :: "skernel \<Rightarrow> nat \<Rightarrow> int \<Rightarrow> skernel \<times> wait_out" where
  "sk_wait k n t = (k, WaitOk (take n
     (filter (\<lambda>(ev, p). sk_interest k (int p) \<noteq> None \<and> snd (the (sk_interest k (int p))) = p)
       (sk_ready k))))"

definition sk_accept :: "skernel \<Rightarrow> int \<Rightarrow> char list \<Rightarrow> skernel \<times> write_out" where
  "sk_accept k fd d = (case sk_broken k of Some e \<Rightarrow> (k, WriteErr e)
     | None \<Rightarrow> (k\<lparr>sk_sent := (sk_sent k)(fd := sk_sent k fd @ take (sk_window k) d)\<rparr>,
         WriteOk (min (sk_window k) (length d))))"

definition sample_file :: "char list" where
  "sample_file = ''file contents''"

definition skern :: "skernel kernel" where
  "skern = \<lparr>epoll_ctl = sk_ctl, epoll_wait = sk_wait,
     eventfd_write = (\<lambda>k fd. (k\<lparr>sk_readable := (sk_readable k)(fd := True)\<rparr>, 8)),
     eventfd_read = (\<lambda>k fd. (k\<lparr>sk_readable := (sk_readable k)(fd := False)\<rparr>, 8)),
     sock_write = sk_accept,
     sock_readv = (\<lambda>k fd iov. (k, ReadOk (take (sum_list iov) (sk_inbox k)))),
     sock_sendfile = (\<lambda>k fd f off c. sk_accept k fd (take c (drop off sample_file))),
     sock_shutdown = (\<lambda>k fd. (k\<lparr>sk_shut := (sk_shut k)(fd := True)\<rparr>, 0)),
     sock_error = (\<lambda>k fd. 0), sock_listen = (\<lambda>k fd. (k, 0)), clock_us = (\<lambda>k. 0),
     interest = sk_interest, sent = sk_sent, readable = sk_readable, wr_shut = sk_shut,
     file_data = (\<lambda>k f. sample_file)\<rparr>"

definition sk_init :: skernel where
  "sk_init = \<lparr>sk_interest = (\<lambda>_. None), sk_sent = (\<lambda>_. []), sk_readable = (\<lambda>_. False),
     sk_shut = (\<lambda>_. False), sk_window = 4, sk_inbox = ''hello'', sk_broken = None, sk_ready = []\<rparr>"

lemma skern_sel [simp]:
  "epoll_ctl skern = sk_ctl" "epoll_wait skern = sk_wait" "sock_write skern = sk_accept"
  "eventfd_write skern k fd = (k\<lparr>sk_readable := (sk_readable k)(fd := True)\<rparr>, 8)"
  "eventfd_read skern k fd = (k\<lparr>sk_readable := (sk_readable k)(fd := False)\<rparr>, 8)"
  "sock_readv skern k fd iov = (k, ReadOk (take (sum_list iov) (sk_inbox k)))"
  "sock_sendfile skern k fd f off c = sk_accept k fd (take c (drop off sample_file))"
  "sock_shutdown skern k fd = (k\<lparr>sk_shut := (sk_shut k)(fd := True)\<rparr>, 0)"
  "sock_listen skern k fd = (k, 0)" "clock_us skern k = 0" "sock_error skern k fd = 0"
  "interest skern = sk_interest" "sent skern = sk_sent" "readable skern = sk_readable"
  "wr_shut skern = sk_shut" "file_data skern k f = sample_file"
  by (simp_all add: skern_def)

lemma sk_accept_cases:
  "sk_accept k fd d = (k', out) \<Longrightarrow>
     sk_interest k' = sk_interest k \<and> sk_readable k' = sk_readable k \<and> sk_shut k' = sk_shut k \<and>
     (case out of WriteErr e \<Rightarrow> sk_sent k' = sk_sent k
      | WriteOk n \<Rightarrow> n \<le> length d \<and> sk_sent k' = (sk_sent k)(fd := sk_sent k fd @ take n d))"
  by (auto simp: sk_accept_def min_def split: option.splits)

lemma skern_epoll: "epoll_doc skern"
  by (auto simp: epoll_doc_def ctl_accepted_def sk_ctl_def same_io_def fun_eq_iff split: if_splits)

lemma skern_wait: "wait_doc skern"
  by (fastforce simp: wait_doc_def sk_wait_def same_io_def dest: in_set_takeD)

lemma skern_write: "sock_write_doc skern"
  by (auto simp: sock_write_doc_def sock_frame_def fun_eq_iff dest!: sk_accept_cases
      split: write_out.splits)

lemma skern_sendfile: "sendfile_doc skern"
  by (auto simp: sendfile_doc_def sock_frame_def fun_eq_iff dest!: sk_accept_cases
      split: write_out.splits)

lemma skern_doc: "kernel_doc skern"
proof -
  have "eventfd_doc skern" "sock_readv_doc skern" "shutdown_doc skern" "listen_doc skern"
    by (auto simp: eventfd_doc_def sock_readv_doc_def shutdown_doc_def listen_doc_def same_io_def
        fun_eq_iff sock_frame_def)
  then show ?thesis
    by (simp add: kernel_doc_def skern_epoll skern_wait skern_write skern_sendfile)
qed

text \<open>The same kernel with a peer that never resets and always reads.\<close>

definition calm :: "skernel kernel" where
  "calm = skern\<lparr>sock_write := \<lambda>k. sk_accept (k\<lparr>sk_broken := None, sk_window := max 1 (sk_window k)\<rparr>),
     sock_sendfile := \<lambda>k fd f off c. sk_accept (k\<lparr>sk_broken := None, sk_window := max 1 (sk_window k)\<rparr>)
       fd (take c (drop off sample_file))\<rparr>"

lemma calm_sel [simp]:
  "epoll_ctl calm = sk_ctl" "epoll_wait calm = sk_wait"
  "sock_write calm k = sk_accept (k\<lparr>sk_broken := None, sk_window := max 1 (sk_window k)\<rparr>)"
  "eventfd_write calm k fd = (k\<lparr>sk_readable := (sk_readable k)(fd := True)\<rparr>, 8)"
  "eventfd_read calm k fd = (k\<lparr>sk_readable := (sk_readable k)(fd := False)\<rparr>, 8)"
  "sock_readv calm k fd iov = (k, ReadOk (take (sum_list iov) (sk_inbox k)))"
  "sock_sendfile calm k fd f off c = sk_accept (k\<lparr>sk_broken := None, sk_window := max 1 (sk_window k)\<rparr>)
     fd (take c (drop off sample_file))"
  "sock_shutdown calm k fd = (k\<lparr>sk_shut := (sk_shut k)(fd := True)\<rparr>, 0)"
  "sock_listen calm k fd = (k, 0)" "clock_us calm k = 0" "sock_error calm k fd = 0"
  "interest calm = sk_interest" "sent calm = sk_sent" "readable calm = sk_readable"
  "wr_shut calm = sk_shut" "file_data calm k f = sample_file"
  by (simp_all add: calm_def)

lemma calm_doc: "kernel_doc calm"
proof -
  have "epoll_doc calm"
    by (auto simp: epoll_doc_def ctl_accepted_def sk_ctl_def same_io_def fun_eq_iff split: if_splits)
  moreover have "wait_doc calm"
    by (fastforce simp: wait_doc_def sk_wait_def same_io_def dest: in_set_takeD)
  moreover have "eventfd_doc calm" "sock_readv_doc calm" "shutdown_doc calm" "listen_doc calm"
    by (auto simp: eventfd_doc_def sock_readv_doc_def shutdown_doc_def listen_doc_def same_io_def
        fun_eq_iff sock_frame_def)
  moreover have "sock_write_doc calm" "sendfile_doc calm"
    by (auto simp: sock_write_doc_def sendfile_doc_def sock_frame_def fun_eq_iff dest!: sk_accept_cases
        split: write_out.splits)
  ultimately show ?thesis by (simp add: kernel_doc_def)
qed

end
