(* ===== verification/Channel.thy ===== *)
theory Channel
  imports Kernel
begin

unbundle bit_operations_syntax

text \<open>
  \<^verbatim>\<open>include/Channel.h\<close> and \<^verbatim>\<open>src/Channel.cc\<close>: a descriptor with the events it is interested in, the
  events that happened and the callbacks for them. Event masks are 32-bit words. The callbacks are
  code of the channel's owner; here a channel knows which of them are set, and handling an event
  yields the callbacks to run, in order. The operations that go through the event loop
  (\<^verbatim>\<open>update\<close>, \<^verbatim>\<open>remove\<close>) are in theory \<open>EPollPoller\<close>.
\<close>

definition EPOLLIN :: events where "EPOLLIN = 1"
definition EPOLLPRI :: events where "EPOLLPRI = 2"
definition EPOLLOUT :: events where "EPOLLOUT = 4"
definition EPOLLERR :: events where "EPOLLERR = 8"
definition EPOLLHUP :: events where "EPOLLHUP = 16"

definition kNoneEvent :: events where "kNoneEvent = 0"
definition kReadEvent :: events where "kReadEvent = EPOLLIN OR EPOLLPRI"
definition kWriteEvent :: events where "kWriteEvent = EPOLLOUT"

datatype channel_callback = CloseCallback | ErrorCallback | ReadCallback | WriteCallback

text \<open>\<open>ch_tie\<close> is the object the weak pointer refers to; objects are numbered.\<close>

record channel =
  ch_fd :: int
  ch_events :: events
  ch_revents :: events
  ch_index :: int
  ch_tie :: "nat option"
  ch_tied :: bool
  readCallback :: bool
  writeCallback :: bool
  closeCallback :: bool
  errorCallback :: bool

definition mk_channel :: "int \<Rightarrow> channel" where
  "mk_channel fd = \<lparr>ch_fd = fd, ch_events = 0, ch_revents = 0, ch_index = -1, ch_tie = None,
     ch_tied = False, readCallback = False, writeCallback = False, closeCallback = False,
     errorCallback = False\<rparr>"

definition setReadCallback :: "channel \<Rightarrow> channel" where
  "setReadCallback ch = ch\<lparr>readCallback := True\<rparr>"

definition setWriteCallback :: "channel \<Rightarrow> channel" where
  "setWriteCallback ch = ch\<lparr>writeCallback := True\<rparr>"

definition setCloseCallback :: "channel \<Rightarrow> channel" where
  "setCloseCallback ch = ch\<lparr>closeCallback := True\<rparr>"

definition setErrorCallback :: "channel \<Rightarrow> channel" where
  "setErrorCallback ch = ch\<lparr>errorCallback := True\<rparr>"

definition tie :: "nat \<Rightarrow> channel \<Rightarrow> channel" where
  "tie obj ch = ch\<lparr>ch_tie := Some obj, ch_tied := True\<rparr>"

text \<open>The event mask each of the enabling and disabling operations computes.\<close>

definition enableReading_ev :: "channel \<Rightarrow> events" where
  "enableReading_ev ch = ch_events ch OR kReadEvent"

definition disableReading_ev :: "channel \<Rightarrow> events" where
  "disableReading_ev ch = ch_events ch AND NOT kReadEvent"

definition enableWriting_ev :: "channel \<Rightarrow> events" where
  "enableWriting_ev ch = ch_events ch OR kWriteEvent"

definition disableWriting_ev :: "channel \<Rightarrow> events" where
  "disableWriting_ev ch = ch_events ch AND NOT kWriteEvent"

definition isNoneEvent :: "channel \<Rightarrow> bool" where
  "isNoneEvent ch \<longleftrightarrow> ch_events ch = kNoneEvent"

definition isWriting :: "channel \<Rightarrow> bool" where
  "isWriting ch \<longleftrightarrow> ch_events ch AND kWriteEvent \<noteq> 0"

definition isReading :: "channel \<Rightarrow> bool" where
  "isReading ch \<longleftrightarrow> ch_events ch AND kReadEvent \<noteq> 0"

definition handleEventWithGuard :: "channel \<Rightarrow> channel_callback list" where
  "handleEventWithGuard ch =
     (if ch_revents ch AND EPOLLHUP \<noteq> 0 \<and> \<not> ch_revents ch AND EPOLLIN \<noteq> 0
      then (if closeCallback ch then [CloseCallback] else []) else []) @
     (if ch_revents ch AND EPOLLERR \<noteq> 0
      then (if errorCallback ch then [ErrorCallback] else []) else []) @
     (if ch_revents ch AND (EPOLLIN OR EPOLLPRI) \<noteq> 0
      then (if readCallback ch then [ReadCallback] else []) else []) @
     (if ch_revents ch AND EPOLLOUT \<noteq> 0
      then (if writeCallback ch then [WriteCallback] else []) else [])"

text \<open>\<open>alive\<close> tells whether an object still exists, that is, whether \<^verbatim>\<open>tie_.lock()\<close> succeeds.\<close>

definition handleEvent :: "(nat \<Rightarrow> bool) \<Rightarrow> channel \<Rightarrow> channel_callback list" where
  "handleEvent alive ch =
     (if ch_tied ch
      then (case ch_tie ch of
              None \<Rightarrow> []
            | Some obj \<Rightarrow> if alive obj then handleEventWithGuard ch else [])
      else handleEventWithGuard ch)"

section \<open>Event masks\<close>

lemmas event_bits = EPOLLIN_def EPOLLPRI_def EPOLLOUT_def EPOLLERR_def EPOLLHUP_def
  kNoneEvent_def kReadEvent_def kWriteEvent_def

lemma mask_or_not_zero: "(m :: events) \<noteq> 0 \<Longrightarrow> (x OR m) AND m \<noteq> 0"
  by (simp add: bit.conj_disj_distrib2)

lemma mask_cleared: "((x :: events) AND NOT m) AND m = 0"
  by (simp add: and.assoc)

lemma mask_or_other: "(m :: events) AND n = 0 \<Longrightarrow> (x OR m) AND n = x AND n"
  by (simp add: bit.conj_disj_distrib2)

lemma mask_clear_other:
  assumes "(m :: events) AND n = 0"
  shows "(x AND NOT m) AND n = x AND n"
proof -
  have "NOT m AND n = n"
    by (rule bit_eqI) (use assms in \<open>auto simp: bit_simps bit_eq_iff\<close>)
  then show ?thesis by (simp add: and.assoc)
qed

lemma event_masks [simp]:
  "kReadEvent \<noteq> 0" "kWriteEvent \<noteq> 0"
  "kReadEvent AND kWriteEvent = 0" "kWriteEvent AND kReadEvent = 0"
  by (simp_all add: event_bits)

lemma isWriting_upd [simp]:
  "isWriting (ch\<lparr>ch_events := enableWriting_ev ch'\<rparr>)"
  "\<not> isWriting (ch\<lparr>ch_events := disableWriting_ev ch'\<rparr>)"
  "isWriting (ch\<lparr>ch_events := enableReading_ev ch'\<rparr>) \<longleftrightarrow> isWriting ch'"
  "isWriting (ch\<lparr>ch_events := disableReading_ev ch'\<rparr>) \<longleftrightarrow> isWriting ch'"
  "\<not> isWriting (ch\<lparr>ch_events := 0\<rparr>)"
  by (auto simp: isWriting_def enableWriting_ev_def disableWriting_ev_def enableReading_ev_def
      disableReading_ev_def mask_or_not_zero mask_cleared mask_or_other mask_clear_other)

lemma isReading_upd [simp]:
  "isReading (ch\<lparr>ch_events := enableReading_ev ch'\<rparr>)"
  "\<not> isReading (ch\<lparr>ch_events := disableReading_ev ch'\<rparr>)"
  "isReading (ch\<lparr>ch_events := enableWriting_ev ch'\<rparr>) \<longleftrightarrow> isReading ch'"
  "isReading (ch\<lparr>ch_events := disableWriting_ev ch'\<rparr>) \<longleftrightarrow> isReading ch'"
  "\<not> isReading (ch\<lparr>ch_events := 0\<rparr>)"
  by (auto simp: isReading_def enableWriting_ev_def disableWriting_ev_def enableReading_ev_def
      disableReading_ev_def mask_or_not_zero mask_cleared mask_or_other mask_clear_other)

lemma isWriting_frame [simp]:
  "isWriting (ch\<lparr>ch_index := i\<rparr>) = isWriting ch"
  "isWriting (ch\<lparr>ch_revents := e\<rparr>) = isWriting ch"
  "isWriting (ch\<lparr>ch_tie := x\<rparr>) = isWriting ch"
  "isWriting (ch\<lparr>ch_tied := t\<rparr>) = isWriting ch"
  by (simp_all add: isWriting_def)

section \<open>Properties\<close>

text \<open>
  C20: which callbacks handling an event runs. Nothing runs when the channel is tied to an object
  that no longer exists. Otherwise a callback runs exactly when it is set and its event bits are
  there, the close, error, read and write callbacks run in this order and each at most once; close
  and read run for the same event only in the case of a hang-up with priority data and without
  \<^verbatim>\<open>EPOLLIN\<close>.
\<close>

theorem handleEvent_dispatch:
  "(ch_tied ch \<and> \<not> (\<exists>obj. ch_tie ch = Some obj \<and> alive obj) \<longrightarrow> handleEvent alive ch = []) \<and>
   (\<not> (ch_tied ch \<and> \<not> (\<exists>obj. ch_tie ch = Some obj \<and> alive obj)) \<longrightarrow>
     (CloseCallback \<in> set (handleEvent alive ch) \<longleftrightarrow> closeCallback ch \<and>
        ch_revents ch AND EPOLLHUP \<noteq> 0 \<and> ch_revents ch AND EPOLLIN = 0) \<and>
     (ErrorCallback \<in> set (handleEvent alive ch) \<longleftrightarrow> errorCallback ch \<and>
        ch_revents ch AND EPOLLERR \<noteq> 0) \<and>
     (ReadCallback \<in> set (handleEvent alive ch) \<longleftrightarrow> readCallback ch \<and>
        (ch_revents ch AND EPOLLIN \<noteq> 0 \<or> ch_revents ch AND EPOLLPRI \<noteq> 0)) \<and>
     (WriteCallback \<in> set (handleEvent alive ch) \<longleftrightarrow> writeCallback ch \<and>
        ch_revents ch AND EPOLLOUT \<noteq> 0) \<and>
     handleEvent alive ch = filter (\<lambda>c. c \<in> set (handleEvent alive ch))
       [CloseCallback, ErrorCallback, ReadCallback, WriteCallback] \<and>
     (CloseCallback \<in> set (handleEvent alive ch) \<and> ReadCallback \<in> set (handleEvent alive ch) \<longrightarrow>
        ch_revents ch AND EPOLLPRI \<noteq> 0))"
proof -
  have rd: "ch_revents ch AND (EPOLLIN OR EPOLLPRI) \<noteq> 0 \<longleftrightarrow>
      ch_revents ch AND EPOLLIN \<noteq> 0 \<or> ch_revents ch AND EPOLLPRI \<noteq> 0"
    by (simp add: bit.conj_disj_distrib or_eq_0_iff)
  have "handleEvent alive ch =
      (if ch_tied ch \<and> \<not> (\<exists>obj. ch_tie ch = Some obj \<and> alive obj) then []
       else handleEventWithGuard ch)"
    by (auto simp: handleEvent_def split: option.splits)
  then show ?thesis by (simp add: handleEventWithGuard_def rd)
qed

definition sample_channel :: channel where
  "sample_channel = setReadCallback (setWriteCallback (setCloseCallback (setErrorCallback
     (tie 3 ((mk_channel 7)\<lparr>ch_revents := EPOLLHUP OR EPOLLOUT\<rparr>)))))"

theorem handleEvent_dispatch_witness:
  "handleEvent (\<lambda>x. x \<noteq> 3) sample_channel = [] \<and>
   handleEvent (\<lambda>x. x = 3) sample_channel = [CloseCallback, WriteCallback]"
proof -
  have a: "ch_tied sample_channel \<and> \<not> (\<exists>obj. ch_tie sample_channel = Some obj \<and> obj \<noteq> 3)"
    by (simp add: sample_channel_def tie_def setReadCallback_def setWriteCallback_def
        setCloseCallback_def setErrorCallback_def)
  have "handleEvent (\<lambda>x. x = 3) sample_channel = [CloseCallback, WriteCallback]"
    by (simp add: sample_channel_def tie_def setReadCallback_def setWriteCallback_def
        setCloseCallback_def setErrorCallback_def mk_channel_def handleEvent_def
        handleEventWithGuard_def event_bits)
  moreover have "handleEvent (\<lambda>x. x \<noteq> 3) sample_channel = []"
    using a by (rule handleEvent_dispatch [THEN conjunct1, rule_format])
  ultimately show ?thesis by blast
qed

end
