(* ===== verification/PollerSpec.thy ===== *)
theory PollerSpec
  imports Channel
begin

text \<open>
  The abstract class \<^verbatim>\<open>Poller\<close> of \<^verbatim>\<open>include/Poller.h\<close> as a contract: what the owner of a channel may
  rely on when it sets the channel's events or removes the channel. \<open>mask s p\<close> is the set of events
  the operating system reports for channel \<open>p\<close>.
\<close>

datatype chan_op = SetEvents events | Remove

fun run_chan :: "(events \<Rightarrow> chan_ptr \<Rightarrow> 's \<Rightarrow> 's result) \<Rightarrow> (chan_ptr \<Rightarrow> 's \<Rightarrow> 's result) \<Rightarrow>
    chan_op list \<Rightarrow> chan_ptr \<Rightarrow> 's \<Rightarrow> 's result" where
  "run_chan setev rem [] p s = Inr s"
| "run_chan setev rem (SetEvents ev # ops) p s = bind_r (setev ev p s) (run_chan setev rem ops p)"
| "run_chan setev rem (Remove # ops) p s = bind_r (rem p s) (run_chan setev rem ops p)"

text \<open>The events a sequence of operations asks for in the end.\<close>

fun final_mask :: "events \<Rightarrow> chan_op list \<Rightarrow> events" where
  "final_mask m [] = m"
| "final_mask m (SetEvents ev # ops) = final_mask ev ops"
| "final_mask m (Remove # ops) = final_mask 0 ops"

locale poller_contract =
  fixes wf :: "'s \<Rightarrow> bool"
    and owns :: "chan_ptr \<Rightarrow> 's \<Rightarrow> bool"
    and mask :: "'s \<Rightarrow> chan_ptr \<Rightarrow> events"
    and setev :: "events \<Rightarrow> chan_ptr \<Rightarrow> 's \<Rightarrow> 's result"
    and rem :: "chan_ptr \<Rightarrow> 's \<Rightarrow> 's result"
  assumes setev_law: "wf s \<Longrightarrow> owns p s \<Longrightarrow>
      \<exists>s'. setev ev p s = Inr s' \<and> wf s' \<and> owns p s' \<and> mask s' = (mask s)(p := ev)"
    and rem_law: "wf s \<Longrightarrow> owns p s \<Longrightarrow>
      \<exists>s'. rem p s = Inr s' \<and> wf s' \<and> owns p s' \<and> mask s' = (mask s)(p := 0)"
begin

text \<open>Any sequence of operations of the owner succeeds and has the effect of its last request.\<close>

lemma run_chan_ok:
  "wf s \<Longrightarrow> owns p s \<Longrightarrow>
     \<exists>s'. run_chan setev rem ops p s = Inr s' \<and> wf s' \<and> owns p s' \<and>
       mask s' = (mask s)(p := final_mask (mask s p) ops)"
proof (induction ops arbitrary: s)
  case Nil
  then show ?case by simp
next
  case (Cons x ops)
  show ?case
  proof (cases x)
    case (SetEvents ev)
    from setev_law [OF Cons.prems] obtain s1 where "setev ev p s = Inr s1" "wf s1" "owns p s1"
      and m: "mask s1 = (mask s)(p := ev)" by blast
    with Cons.IH [of s1] SetEvents show ?thesis by (auto simp: m fun_eq_iff)
  next
    case Remove
    from rem_law [OF Cons.prems] obtain s1 where "rem p s = Inr s1" "wf s1" "owns p s1"
      and m: "mask s1 = (mask s)(p := 0)" by blast
    with Cons.IH [of s1] Remove show ?thesis by (auto simp: m fun_eq_iff)
  qed
qed

end

end
