(* ===== verification/EPollPoller.thy ===== *)
theory EPollPoller
  imports PollerSpec
begin

text \<open>
  \<^verbatim>\<open>include/Poller.h\<close>, \<^verbatim>\<open>src/EPollPoller.cc\<close> and \<^verbatim>\<open>src/DefaultPoller.cc\<close>: the poller's table of
  channels, the size of its event array and the epoll instance behind it. Channels are objects of a
  store, reached through pointers, because the poller, the kernel and the channels' owners all hold
  pointers to them. The state is a record that the event loop extends.
\<close>

section \<open>State\<close>

record 'k reactor =
  chans :: "chan_ptr \<Rightarrow> channel option"
  channelsM :: "int \<Rightarrow> chan_ptr option"
  eventsSize :: nat
  kst :: 'k

definition kNew :: int where "kNew = -1"
definition kAdded :: int where "kAdded = 1"
definition kDeleted :: int where "kDeleted = 2"
definition kInitEventListSize :: nat where "kInitEventListSize = 16"

lemmas index_defs = kNew_def kAdded_def kDeleted_def

definition set_chan :: "chan_ptr \<Rightarrow> channel \<Rightarrow> ('k, 'z) reactor_scheme \<Rightarrow> ('k, 'z) reactor_scheme" where
  "set_chan p ch r = r\<lparr>chans := (chans r)(p := Some ch)\<rparr>"

text \<open>Following a channel pointer.\<close>

definition deref :: "chan_ptr \<Rightarrow> ('k, 'z) reactor_scheme \<Rightarrow> channel result" where
  "deref p r = (case chans r p of None \<Rightarrow> Inl UseAfterFree | Some ch \<Rightarrow> Inr ch)"

section \<open>Operations\<close>

text \<open>The constructor; \<open>epollfd\<close> is what \<^verbatim>\<open>epoll_create1\<close> returned and \<open>k\<close> the kernel state with it.\<close>

definition mk_epollpoller :: "int \<Rightarrow> 'k \<Rightarrow> 'k reactor result" where
  "mk_epollpoller epollfd k = (if epollfd < 0 then Inl ExitFatal
     else Inr \<lparr>chans = (\<lambda>_. None), channelsM = (\<lambda>_. None), eventsSize = kInitEventListSize, kst = k\<rparr>)"

text \<open>\<^verbatim>\<open>Poller::newDefaultPoller\<close>: no poller at all when \<^verbatim>\<open>MUDUO_USE_POLL\<close> is set.\<close>

definition newDefaultPoller :: "bool \<Rightarrow> int \<Rightarrow> 'k \<Rightarrow> 'k reactor option result" where
  "newDefaultPoller MUDUO_USE_POLL epollfd k = (if MUDUO_USE_POLL then Inr None
     else bind_r (mk_epollpoller epollfd k) (\<lambda>po. Inr (Some po)))"

definition hasChannel :: "chan_ptr \<Rightarrow> ('k, 'z) reactor_scheme \<Rightarrow> bool result" where
  "hasChannel p r = bind_r (deref p r) (\<lambda>ch. Inr (channelsM r (ch_fd ch) = Some p))"

definition update :: "'k kernel \<Rightarrow> ctl_op \<Rightarrow> chan_ptr \<Rightarrow> ('k, 'z) reactor_scheme \<Rightarrow>
    ('k, 'z) reactor_scheme result" where
  "update K operation p r = bind_r (deref p r) (\<lambda>ch.
     (case epoll_ctl K (kst r) operation (ch_fd ch) (ch_events ch, p) of (k', ret) \<Rightarrow>
        if ret < 0
        then (if operation = CtlDel then Inr (r\<lparr>kst := k'\<rparr>) else Inl ExitFatal)
        else Inr (r\<lparr>kst := k'\<rparr>)))"

definition set_index :: "int \<Rightarrow> chan_ptr \<Rightarrow> ('k, 'z) reactor_scheme \<Rightarrow>
    ('k, 'z) reactor_scheme result" where
  "set_index i p r = bind_r (deref p r) (\<lambda>ch. Inr (set_chan p (ch\<lparr>ch_index := i\<rparr>) r))"

definition updateChannel :: "'k kernel \<Rightarrow> chan_ptr \<Rightarrow> ('k, 'z) reactor_scheme \<Rightarrow>
    ('k, 'z) reactor_scheme result" where
  "updateChannel K p r = bind_r (deref p r) (\<lambda>ch.
     if ch_index ch = kNew \<or> ch_index ch = kDeleted
     then (let r1 = (if ch_index ch = kNew
                     then r\<lparr>channelsM := (channelsM r)(ch_fd ch := Some p)\<rparr> else r)
           in bind_r (set_index kAdded p r1) (update K CtlAdd p))
     else (if isNoneEvent ch
           then bind_r (update K CtlDel p r) (set_index kDeleted p)
           else update K CtlMod p r))"

definition removeChannel :: "'k kernel \<Rightarrow> chan_ptr \<Rightarrow> ('k, 'z) reactor_scheme \<Rightarrow>
    ('k, 'z) reactor_scheme result" where
  "removeChannel K p r = bind_r (deref p r) (\<lambda>ch.
     (let r1 = r\<lparr>channelsM := (channelsM r)(ch_fd ch := None)\<rparr> in
      bind_r (if ch_index ch = kAdded then update K CtlDel p r1 else Inr r1) (set_index kNew p)))"

text \<open>\<^verbatim>\<open>EventLoop\<close> passes the calls of channels on to its poller, and \<^verbatim>\<open>Channel::remove\<close> goes through it.\<close>

abbreviation loop_updateChannel :: "'k kernel \<Rightarrow> chan_ptr \<Rightarrow> ('k, 'z) reactor_scheme \<Rightarrow>
    ('k, 'z) reactor_scheme result" where
  "loop_updateChannel \<equiv> updateChannel"

abbreviation loop_removeChannel :: "'k kernel \<Rightarrow> chan_ptr \<Rightarrow> ('k, 'z) reactor_scheme \<Rightarrow>
    ('k, 'z) reactor_scheme result" where
  "loop_removeChannel \<equiv> removeChannel"

abbreviation channel_remove :: "'k kernel \<Rightarrow> chan_ptr \<Rightarrow> ('k, 'z) reactor_scheme \<Rightarrow>
    ('k, 'z) reactor_scheme result" where
  "channel_remove \<equiv> loop_removeChannel"

text \<open>The channel operations that change the events of interest and tell the poller.\<close>

definition set_events :: "'k kernel \<Rightarrow> events \<Rightarrow> chan_ptr \<Rightarrow> ('k, 'z) reactor_scheme \<Rightarrow>
    ('k, 'z) reactor_scheme result" where
  "set_events K ev p r = bind_r (deref p r) (\<lambda>ch. loop_updateChannel K p (set_chan p (ch\<lparr>ch_events := ev\<rparr>) r))"

definition enableReading :: "'k kernel \<Rightarrow> chan_ptr \<Rightarrow> ('k, 'z) reactor_scheme \<Rightarrow>
    ('k, 'z) reactor_scheme result" where
  "enableReading K p r = bind_r (deref p r) (\<lambda>ch. set_events K (enableReading_ev ch) p r)"

definition disableReading :: "'k kernel \<Rightarrow> chan_ptr \<Rightarrow> ('k, 'z) reactor_scheme \<Rightarrow>
    ('k, 'z) reactor_scheme result" where
  "disableReading K p r = bind_r (deref p r) (\<lambda>ch. set_events K (disableReading_ev ch) p r)"

definition enableWriting :: "'k kernel \<Rightarrow> chan_ptr \<Rightarrow> ('k, 'z) reactor_scheme \<Rightarrow>
    ('k, 'z) reactor_scheme result" where
  "enableWriting K p r = bind_r (deref p r) (\<lambda>ch. set_events K (enableWriting_ev ch) p r)"

definition disableWriting :: "'k kernel \<Rightarrow> chan_ptr \<Rightarrow> ('k, 'z) reactor_scheme \<Rightarrow>
    ('k, 'z) reactor_scheme result" where
  "disableWriting K p r = bind_r (deref p r) (\<lambda>ch. set_events K (disableWriting_ev ch) p r)"

definition disableAll :: "'k kernel \<Rightarrow> chan_ptr \<Rightarrow> ('k, 'z) reactor_scheme \<Rightarrow>
    ('k, 'z) reactor_scheme result" where
  "disableAll K p r = set_events K kNoneEvent p r"

fun fillActiveChannels :: "epoll_event list \<Rightarrow> ('k, 'z) reactor_scheme \<Rightarrow>
    (('k, 'z) reactor_scheme \<times> chan_ptr list) result" where
  "fillActiveChannels [] r = Inr (r, [])"
| "fillActiveChannels ((ev, p) # evs) r = bind_r (deref p r) (\<lambda>ch.
     bind_r (fillActiveChannels evs (set_chan p (ch\<lparr>ch_revents := ev\<rparr>) r))
       (\<lambda>(r', ps). Inr (r', p # ps)))"

text \<open>
  \<^verbatim>\<open>EPollPoller::poll\<close>: the new state, the active channels and the time. The array doubles when a
  call filled it.
\<close>

definition poll :: "'k kernel \<Rightarrow> int \<Rightarrow> ('k, 'z) reactor_scheme \<Rightarrow>
    (('k, 'z) reactor_scheme \<times> chan_ptr list \<times> int) result" where
  "poll K timeoutMs r =
     (case epoll_wait K (kst r) (eventsSize r) timeoutMs of (k', out) \<Rightarrow>
        let r1 = r\<lparr>kst := k'\<rparr>; now = clock_us K k' in
        (case out of
           WaitErr e \<Rightarrow> Inr (r1, [], now)
         | WaitOk evs \<Rightarrow>
             if evs = [] then Inr (r1, [], now)
             else bind_r (fillActiveChannels evs r1) (\<lambda>(r2, ps).
               Inr (if length evs = eventsSize r2 then r2\<lparr>eventsSize := eventsSize r2 * 2\<rparr> else r2,
                    ps, now))))"

section \<open>Invariant\<close>

text \<open>
  How the channel store, the poller's table and the kernel's interest list agree, by the index of a
  channel: an added channel is in the table and registered with its current events, a deleted one is
  only in the table, a new one in neither.
\<close>

definition chan_ok :: "'k kernel \<Rightarrow> ('k, 'z) reactor_scheme \<Rightarrow> chan_ptr \<Rightarrow> channel \<Rightarrow> bool" where
  "chan_ok K r p ch \<longleftrightarrow>
     ch_index ch = kNew \<and> channelsM r (ch_fd ch) \<noteq> Some p \<or>
     ch_index ch = kAdded \<and> channelsM r (ch_fd ch) = Some p \<and>
       interest K (kst r) (ch_fd ch) = Some (ch_events ch, p) \<or>
     ch_index ch = kDeleted \<and> channelsM r (ch_fd ch) = Some p \<and>
       interest K (kst r) (ch_fd ch) = None"

definition reactor_wf :: "'k kernel \<Rightarrow> ('k, 'z) reactor_scheme \<Rightarrow> bool" where
  "reactor_wf K r \<longleftrightarrow>
     (\<forall>p ch. chans r p = Some ch \<longrightarrow> chan_ok K r p ch) \<and>
     (\<forall>fd p. channelsM r fd = Some p \<longrightarrow> (\<exists>ch. chans r p = Some ch \<and> ch_fd ch = fd)) \<and>
     (\<forall>fd. interest K (kst r) fd \<noteq> None \<longrightarrow> channelsM r fd \<noteq> None)"

text \<open>The descriptor of the channel is not in the table for another channel.\<close>

definition fd_free :: "('k, 'z) reactor_scheme \<Rightarrow> chan_ptr \<Rightarrow> bool" where
  "fd_free r p \<longleftrightarrow> (\<exists>ch. chans r p = Some ch \<and>
     (channelsM r (ch_fd ch) = None \<or> channelsM r (ch_fd ch) = Some p))"

lemma deref_simps [simp]:
  "chans r p = Some ch \<Longrightarrow> deref p r = Inr ch"
  "chans r p = None \<Longrightarrow> deref p r = Inl UseAfterFree"
  by (simp_all add: deref_def)

lemma set_chan_sel [simp]:
  "chans (set_chan p ch r) = (chans r)(p \<mapsto> ch)"
  "channelsM (set_chan p ch r) = channelsM r"
  "kst (set_chan p ch r) = kst r"
  "eventsSize (set_chan p ch r) = eventsSize r"
  by (simp_all add: set_chan_def)

lemma index_distinct [simp]:
  "kNew \<noteq> kAdded" "kAdded \<noteq> kNew" "kNew \<noteq> kDeleted" "kDeleted \<noteq> kNew" "kAdded \<noteq> kDeleted"
  "kDeleted \<noteq> kAdded"
  by (simp_all add: index_defs)

lemma epoll_docD:
  assumes "epoll_doc K" and "epoll_ctl K k op fd e = (k', r)"
  shows "(op = CtlAdd) = (interest K k fd = None) \<Longrightarrow> same_io K k k'"
    and "(op = CtlAdd) = (interest K k fd = None) \<Longrightarrow> r = 0"
    and "(op = CtlAdd) = (interest K k fd = None) \<Longrightarrow>
      interest K k' = (interest K k)(fd := if op = CtlDel then None else Some e)"
  using assms unfolding epoll_doc_def ctl_accepted_def by (metis (no_types, lifting))+

lemma reactor_wfD:
  assumes "reactor_wf K r"
  shows "chans r p = Some ch \<Longrightarrow> chan_ok K r p ch"
    and "channelsM r fd = Some p \<Longrightarrow> \<exists>ch. chans r p = Some ch \<and> ch_fd ch = fd"
    and "interest K (kst r) fd = Some e \<Longrightarrow> \<exists>p. channelsM r fd = Some p"
  using assms by (auto simp: reactor_wf_def)

lemma chan_okE:
  assumes "chan_ok K r p ch"
  obtains (new) "ch_index ch = kNew" "channelsM r (ch_fd ch) \<noteq> Some p"
  | (added) "ch_index ch = kAdded" "channelsM r (ch_fd ch) = Some p"
      "interest K (kst r) (ch_fd ch) = Some (ch_events ch, p)"
  | (deleted) "ch_index ch = kDeleted" "channelsM r (ch_fd ch) = Some p"
      "interest K (kst r) (ch_fd ch) = None"
  using assms by (auto simp: chan_ok_def)

text \<open>The index a channel has after its events were set to \<open>ev\<close>.\<close>

definition index_after :: "events \<Rightarrow> channel \<Rightarrow> int" where
  "index_after ev ch = (if ch_index ch = kAdded \<and> ev = 0 then kDeleted else kAdded)"

text \<open>
  Setting events on a registered or new channel succeeds: the poller issues the one \<^verbatim>\<open>epoll_ctl\<close>
  call the kernel accepts.
\<close>

lemma set_events_ok:
  assumes doc: "epoll_doc K" and wf: "reactor_wf K r" and ch: "chans r p = Some ch"
    and free: "fd_free r p"
  shows "\<exists>k'. set_events K ev p r = Inr (r\<lparr>
      chans := (chans r)(p \<mapsto> ch\<lparr>ch_events := ev, ch_index := index_after ev ch\<rparr>),
      channelsM := (channelsM r)(ch_fd ch \<mapsto> p), kst := k'\<rparr>) \<and> same_io K (kst r) k' \<and>
    interest K k' = (interest K (kst r))(ch_fd ch :=
      if index_after ev ch = kDeleted then None else Some (ev, p))"
  using reactor_wfD(1) [OF wf ch]
proof (cases rule: chan_okE)
  case new
  then have "channelsM r (ch_fd ch) = None" using free ch by (auto simp: fd_free_def)
  then have i: "interest K (kst r) (ch_fd ch) = None" using reactor_wfD(3) [OF wf] by (cases "interest K (kst r) (ch_fd ch)") force+
  obtain k' ret where c: "epoll_ctl K (kst r) CtlAdd (ch_fd ch) (ev, p) = (k', ret)" by force
  note d = epoll_docD [OF doc c]
  have "set_events K ev p r = Inr (r\<lparr>
      chans := (chans r)(p \<mapsto> ch\<lparr>ch_events := ev, ch_index := kAdded\<rparr>),
      channelsM := (channelsM r)(ch_fd ch \<mapsto> p), kst := k'\<rparr>)"
    using new(1) ch c d(2) i
    by (simp add: set_events_def updateChannel_def set_index_def update_def deref_def set_chan_def)
  then show ?thesis using new(1) d(1,3) i by (intro exI [of _ k']) (simp add: index_after_def)
next
  case deleted
  obtain k' ret where c: "epoll_ctl K (kst r) CtlAdd (ch_fd ch) (ev, p) = (k', ret)" by force
  note d = epoll_docD [OF doc c]
  have "set_events K ev p r = Inr (r\<lparr>
      chans := (chans r)(p \<mapsto> ch\<lparr>ch_events := ev, ch_index := kAdded\<rparr>),
      channelsM := (channelsM r)(ch_fd ch \<mapsto> p), kst := k'\<rparr>)"
    using deleted ch c d(2)
    by (simp add: set_events_def updateChannel_def set_index_def update_def deref_def set_chan_def
        fun_upd_idem)
  then show ?thesis using deleted d(1,3) by (intro exI [of _ k']) (simp add: index_after_def)
next
  case added
  define op where "op = (if ev = 0 then CtlDel else CtlMod)"
  obtain k' ret where c: "epoll_ctl K (kst r) op (ch_fd ch) (ev, p) = (k', ret)" by force
  note d = epoll_docD [OF doc c]
  have ret: "ret = 0" and i: "interest K k' = (interest K (kst r))(ch_fd ch :=
      if op = CtlDel then None else Some (ev, p))"
    using d(2,3) added by (auto simp: op_def)
  have same: "ch\<lparr>ch_events := ev, ch_index := kAdded\<rparr> = ch\<lparr>ch_events := ev\<rparr>"
    using added(1) by (cases ch) simp
  have "set_events K ev p r = Inr (r\<lparr>
      chans := (chans r)(p \<mapsto> ch\<lparr>ch_events := ev, ch_index := index_after ev ch\<rparr>),
      channelsM := (channelsM r)(ch_fd ch \<mapsto> p), kst := k'\<rparr>)"
    using added ch c ret
    by (auto simp: set_events_def updateChannel_def set_index_def update_def deref_def set_chan_def
        fun_upd_idem isNoneEvent_def kNoneEvent_def op_def index_after_def same split: if_splits)
  then show ?thesis using added d(1) i
    by (intro exI [of _ k']) (auto simp: index_after_def op_def)
qed

text \<open>The state after a successful update is well formed again.\<close>

lemma reactor_wf_set_events:
  assumes wf: "reactor_wf K r" and ch: "chans r p = Some ch" and free: "fd_free r p"
    and i: "interest K k' = (interest K (kst r))(ch_fd ch :=
      if j = kDeleted then None else Some (ev, p))"
    and j: "j = kAdded \<or> j = kDeleted"
  shows "reactor_wf K (r\<lparr>chans := (chans r)(p \<mapsto> ch\<lparr>ch_events := ev, ch_index := j\<rparr>),
      channelsM := (channelsM r)(ch_fd ch \<mapsto> p), kst := k'\<rparr>)" (is "reactor_wf K ?r")
proof -
  have other: "chan_ok K ?r q c" if "chans r q = Some c" "q \<noteq> p" for q c
  proof (cases "ch_fd c = ch_fd ch")
    case True
    then have "channelsM r (ch_fd c) \<noteq> Some q" using free ch that by (auto simp: fd_free_def)
    with reactor_wfD(1) [OF wf that(1)] have "ch_index c = kNew" by (auto elim: chan_okE)
    with True that show ?thesis by (simp add: chan_ok_def)
  next
    case False
    with reactor_wfD(1) [OF wf that(1)] i show ?thesis by (auto simp: chan_ok_def)
  qed
  have self: "chan_ok K ?r p (ch\<lparr>ch_events := ev, ch_index := j\<rparr>)"
    using j i by (auto simp: chan_ok_def)
  show ?thesis
    unfolding reactor_wf_def
  proof (intro conjI allI impI)
    fix q c assume "chans ?r q = Some c"
    then show "chan_ok K ?r q c" using other self by (auto split: if_splits)
  next
    fix fd q assume "channelsM ?r fd = Some q"
    then show "\<exists>c. chans ?r q = Some c \<and> ch_fd c = fd"
      using reactor_wfD(2) [OF wf, of fd q] ch by (auto split: if_splits)
  next
    fix fd assume "interest K (kst ?r) fd \<noteq> None"
    then show "channelsM ?r fd \<noteq> None"
      using reactor_wfD(3) [OF wf, of fd] i by (auto split: if_splits)
  qed
qed

lemma removeChannel_ok:
  assumes doc: "epoll_doc K" and wf: "reactor_wf K r" and ch: "chans r p = Some ch"
    and free: "fd_free r p"
  shows "\<exists>k'. removeChannel K p r = Inr (r\<lparr>
      chans := (chans r)(p \<mapsto> ch\<lparr>ch_index := kNew\<rparr>),
      channelsM := (channelsM r)(ch_fd ch := None), kst := k'\<rparr>) \<and> same_io K (kst r) k' \<and>
    interest K k' = (interest K (kst r))(ch_fd ch := None)"
  using reactor_wfD(1) [OF wf ch]
proof (cases rule: chan_okE)
  case added
  obtain k' ret where c: "epoll_ctl K (kst r) CtlDel (ch_fd ch) (ch_events ch, p) = (k', ret)"
    by force
  note d = epoll_docD [OF doc c]
  have "removeChannel K p r = Inr (r\<lparr>chans := (chans r)(p \<mapsto> ch\<lparr>ch_index := kNew\<rparr>),
      channelsM := (channelsM r)(ch_fd ch := None), kst := k'\<rparr>)"
    using added ch c d(2)
    by (simp add: removeChannel_def update_def set_index_def deref_def set_chan_def Let_def)
  then show ?thesis using added d(1,3) by (intro exI [of _ k']) simp
next
  case new
  then have "channelsM r (ch_fd ch) = None" using free ch by (auto simp: fd_free_def)
  then have i: "interest K (kst r) (ch_fd ch) = None"
    using reactor_wfD(3) [OF wf] by (cases "interest K (kst r) (ch_fd ch)") force+
  show ?thesis
    using new ch i by (intro exI [of _ "kst r"])
      (simp add: removeChannel_def set_index_def deref_def set_chan_def Let_def same_io_def
        fun_upd_idem)
next
  case deleted
  then show ?thesis
    using ch by (intro exI [of _ "kst r"])
      (simp add: removeChannel_def set_index_def deref_def set_chan_def Let_def same_io_def
        fun_upd_idem)
qed

lemma reactor_wf_remove:
  assumes wf: "reactor_wf K r" and ch: "chans r p = Some ch" and free: "fd_free r p"
    and i: "interest K k' = (interest K (kst r))(ch_fd ch := None)"
  shows "reactor_wf K (r\<lparr>chans := (chans r)(p \<mapsto> ch\<lparr>ch_index := kNew\<rparr>),
      channelsM := (channelsM r)(ch_fd ch := None), kst := k'\<rparr>)" (is "reactor_wf K ?r")
  unfolding reactor_wf_def
proof (intro conjI allI impI)
  fix q c assume c: "chans ?r q = Some c"
  show "chan_ok K ?r q c"
  proof (cases "q = p")
    case True
    with c show ?thesis by (auto simp: chan_ok_def)
  next
    case False
    with c have c: "chans r q = Some c" by simp
    show ?thesis
    proof (cases "ch_fd c = ch_fd ch")
      case True
      then have "channelsM r (ch_fd c) \<noteq> Some q" using free ch False by (auto simp: fd_free_def)
      with reactor_wfD(1) [OF wf c] have "ch_index c = kNew" by (auto elim: chan_okE)
      then show ?thesis using True by (simp add: chan_ok_def)
    next
      case False
      with reactor_wfD(1) [OF wf c] i show ?thesis by (auto simp: chan_ok_def)
    qed
  qed
next
  fix fd q assume "channelsM ?r fd = Some q"
  then show "\<exists>c. chans ?r q = Some c \<and> ch_fd c = fd"
    using reactor_wfD(2) [OF wf, of fd q] ch by (auto split: if_splits)
next
  fix fd assume "interest K (kst ?r) fd \<noteq> None"
  then show "channelsM ?r fd \<noteq> None"
    using reactor_wfD(3) [OF wf, of fd] i by (auto split: if_splits)
qed

text \<open>Destroying a channel object that is not registered.\<close>

lemma reactor_wf_delete:
  assumes wf: "reactor_wf K r" and ch: "chans r p = Some ch" and new: "ch_index ch = kNew"
  shows "reactor_wf K (r\<lparr>chans := (chans r)(p := None)\<rparr>)"
proof -
  have "channelsM r fd \<noteq> Some p" for fd
  proof
    assume "channelsM r fd = Some p"
    with reactor_wfD(2) [OF wf this] ch reactor_wfD(1) [OF wf ch] new show False
      by (auto elim: chan_okE)
  qed
  with wf show ?thesis
    unfolding reactor_wf_def by (auto simp: chan_ok_def)
qed

text \<open>A new channel object, not registered yet.\<close>

lemma reactor_wf_new:
  assumes wf: "reactor_wf K r" and p: "chans r p = None" and i: "ch_index ch = kNew"
  shows "reactor_wf K (set_chan p ch r)"
proof -
  have notp: "channelsM r x \<noteq> Some p" for x using reactor_wfD(2) [OF wf, of x p] p by auto
  show ?thesis
    unfolding reactor_wf_def
  proof (intro conjI allI impI)
    fix q c assume q: "chans (set_chan p ch r) q = Some c"
    show "chan_ok K (set_chan p ch r) q c"
      using q reactor_wfD(1) [OF wf, of q c] i notp by (cases "q = p") (auto simp: chan_ok_def)
  next
    fix x q assume "channelsM (set_chan p ch r) x = Some q"
    then show "\<exists>c. chans (set_chan p ch r) q = Some c \<and> ch_fd c = x"
      using reactor_wfD(2) [OF wf, of x q] notp by auto
  next
    fix x assume "interest K (kst (set_chan p ch r)) x \<noteq> None"
    then show "channelsM (set_chan p ch r) x \<noteq> None" using reactor_wfD(3) [OF wf, of x] by auto
  qed
qed

section \<open>The epoll poller keeps the contract\<close>

definition epoll_mask :: "'k kernel \<Rightarrow> ('k, 'z) reactor_scheme \<Rightarrow> chan_ptr \<Rightarrow> events" where
  "epoll_mask K r p = (case chans r p of None \<Rightarrow> 0
     | Some ch \<Rightarrow> (case interest K (kst r) (ch_fd ch) of None \<Rightarrow> 0
         | Some (ev, q) \<Rightarrow> if q = p then ev else 0))"

lemma epoll_mask_upd:
  assumes wf: "reactor_wf K r" and ch: "chans r p = Some ch" and free: "fd_free r p"
    and i: "interest K k' = (interest K (kst r))(ch_fd ch := e)"
    and e: "e = None \<and> ev = 0 \<or> e = Some (ev, p)" and fd: "ch_fd c' = ch_fd ch"
    and r': "chans r' = (chans r)(p \<mapsto> c')" "kst r' = k'"
  shows "epoll_mask K r' = (epoll_mask K r)(p := ev)"
proof (rule ext)
  fix q
  show "epoll_mask K r' q = ((epoll_mask K r)(p := ev)) q"
  proof (cases "q = p")
    case True
    with e i fd r' show ?thesis by (auto simp: epoll_mask_def)
  next
    case False
    have "interest K (kst r) (ch_fd ch) = Some (x, q) \<Longrightarrow> False" for x
    proof -
      assume x: "interest K (kst r) (ch_fd ch) = Some (x, q)"
      with reactor_wfD(3) [OF wf x] free ch have m: "channelsM r (ch_fd ch) = Some p"
        by (auto simp: fd_free_def)
      with reactor_wfD(1) [OF wf ch] x False show False by (auto elim: chan_okE)
    qed
    with False e i r' show ?thesis
      by (auto simp: epoll_mask_def split: option.splits if_splits)
  qed
qed

lemma index_after_cases: "index_after ev ch = kAdded \<or> index_after ev ch = kDeleted \<and> ev = 0"
  by (simp add: index_after_def)

lemma set_events_contract:
  assumes doc: "epoll_doc K" and wf: "reactor_wf K r" and free: "fd_free r p"
  shows "\<exists>r'. set_events K ev p r = Inr r' \<and> reactor_wf K r' \<and> fd_free r' p \<and>
    epoll_mask K r' = (epoll_mask K r)(p := ev)"
proof -
  from free obtain ch where ch: "chans r p = Some ch" by (auto simp: fd_free_def)
  from set_events_ok [OF doc wf ch free, of ev] obtain k' where
    s: "set_events K ev p r = Inr (r\<lparr>
      chans := (chans r)(p \<mapsto> ch\<lparr>ch_events := ev, ch_index := index_after ev ch\<rparr>),
      channelsM := (channelsM r)(ch_fd ch \<mapsto> p), kst := k'\<rparr>)" (is "_ = Inr ?r")
    and i: "interest K k' = (interest K (kst r))(ch_fd ch :=
      if index_after ev ch = kDeleted then None else Some (ev, p))" by blast
  have "reactor_wf K ?r"
    by (rule reactor_wf_set_events [OF wf ch free i]) (use index_after_cases in auto)
  moreover have "epoll_mask K ?r = (epoll_mask K r)(p := ev)"
    by (rule epoll_mask_upd [OF wf ch free i])
      (use index_after_cases [of ev ch] in \<open>auto simp: index_after_def split: if_splits\<close>)
  ultimately show ?thesis using s by (auto simp: fd_free_def)
qed

lemma removeChannel_contract:
  assumes doc: "epoll_doc K" and wf: "reactor_wf K r" and free: "fd_free r p"
  shows "\<exists>r'. removeChannel K p r = Inr r' \<and> reactor_wf K r' \<and> fd_free r' p \<and>
    epoll_mask K r' = (epoll_mask K r)(p := 0)"
proof -
  from free obtain ch where ch: "chans r p = Some ch" by (auto simp: fd_free_def)
  from removeChannel_ok [OF doc wf ch free] obtain k' where
    s: "removeChannel K p r = Inr (r\<lparr>chans := (chans r)(p \<mapsto> ch\<lparr>ch_index := kNew\<rparr>),
      channelsM := (channelsM r)(ch_fd ch := None), kst := k'\<rparr>)" (is "_ = Inr ?r")
    and i: "interest K k' = (interest K (kst r))(ch_fd ch := None)" by blast
  have "reactor_wf K ?r" by (rule reactor_wf_remove [OF wf ch free i])
  moreover have "epoll_mask K ?r = (epoll_mask K r)(p := 0)"
    by (rule epoll_mask_upd [OF wf ch free i]) auto
  ultimately show ?thesis using s by (auto simp: fd_free_def)
qed

text \<open>What destructors do: disable the channel and take it out of the poller.\<close>

lemma disable_remove_ok:
  assumes doc: "epoll_doc K" and wf: "reactor_wf K r" and ch: "chans r p = Some ch" and free: "fd_free r p"
  shows "\<exists>k' r'. bind_r (disableAll K p r) (removeChannel K p) = Inr r' \<and>
    r' = r\<lparr>chans := (chans r)(p \<mapsto> ch\<lparr>ch_events := 0, ch_index := kNew\<rparr>),
      channelsM := (channelsM r)(ch_fd ch := None), kst := k'\<rparr> \<and>
    reactor_wf K r' \<and> interest K k' = (interest K (kst r))(ch_fd ch := None)"
proof -
  let ?c = "ch\<lparr>ch_events := 0, ch_index := index_after 0 ch\<rparr>"
  from set_events_ok [OF doc wf ch free, of 0] obtain k1 where
    s: "set_events K 0 p r = Inr (r\<lparr>chans := (chans r)(p \<mapsto> ?c), channelsM := (channelsM r)(ch_fd ch \<mapsto> p),
      kst := k1\<rparr>)" (is "_ = Inr ?r1")
    and i: "interest K k1 = (interest K (kst r))(ch_fd ch := if index_after 0 ch = kDeleted then None else Some (0, p))"
    by blast
  from set_events_contract [OF doc wf free, of 0] s have wf1: "reactor_wf K ?r1" and free1: "fd_free ?r1 p" by auto
  have ch1: "chans ?r1 p = Some ?c" by simp
  from removeChannel_ok [OF doc wf1 ch1 free1] obtain k2 where
    r: "removeChannel K p ?r1 = Inr (?r1\<lparr>chans := (chans ?r1)(p \<mapsto> ?c\<lparr>ch_index := kNew\<rparr>),
      channelsM := (channelsM ?r1)(ch_fd ?c := None), kst := k2\<rparr>)" (is "_ = Inr ?r2")
    and i2: "interest K k2 = (interest K (kst ?r1))(ch_fd ?c := None)" by blast
  have "reactor_wf K ?r2" by (rule reactor_wf_remove [OF wf1 ch1 free1 i2])
  moreover have "interest K k2 = (interest K (kst r))(ch_fd ch := None)" using i i2 by simp
  moreover have "?r2 = r\<lparr>chans := (chans r)(p \<mapsto> ch\<lparr>ch_events := 0, ch_index := kNew\<rparr>),
      channelsM := (channelsM r)(ch_fd ch := None), kst := k2\<rparr>" by simp
  ultimately show ?thesis using s r by (intro exI [of _ k2] exI [of _ ?r2]) (simp add: disableAll_def kNoneEvent_def)
qed

interpretation ep: poller_contract "\<lambda>r. epoll_doc K \<and> reactor_wf K r" "\<lambda>p r. fd_free r p"
  "epoll_mask K" "set_events K" "removeChannel K" for K :: "'k kernel"
  by unfold_locales (blast dest: set_events_contract removeChannel_contract)+

text \<open>
  A kernel that answers the calls it accepts as another does, and the refused ones in any way. The
  poller cannot tell them apart: it makes no call that is refused.
\<close>

definition answers_alike :: "'k kernel \<Rightarrow> 'k kernel \<Rightarrow> bool" where
  "answers_alike K K' \<longleftrightarrow>
     (\<forall>k op fd e. ctl_accepted K k op fd \<longrightarrow> epoll_ctl K' k op fd e = epoll_ctl K k op fd e)"

lemma update_alike:
  assumes "answers_alike K K'" and "chans r p = Some ch" and "ctl_accepted K (kst r) op (ch_fd ch)"
  shows "update K' op p r = update K op p r"
  using assms by (simp add: update_def answers_alike_def)

lemma interest_of_new:
  assumes "reactor_wf K r" and "fd_free r p" and "chans r p = Some ch" and "channelsM r (ch_fd ch) \<noteq> Some p"
  shows "interest K (kst r) (ch_fd ch) = None"
  using assms reactor_wfD(3) [OF assms(1), of "ch_fd ch"]
  by (cases "interest K (kst r) (ch_fd ch)") (auto simp: fd_free_def)

lemma set_events_alike:
  assumes al: "answers_alike K K'" and wf: "reactor_wf K r" and free: "fd_free r p"
  shows "set_events K' ev p r = set_events K ev p r"
proof -
  from free obtain ch where ch: "chans r p = Some ch" by (auto simp: fd_free_def)
  note up = update_alike [OF al, where ch = "ch\<lparr>ch_events := ev, ch_index := kAdded\<rparr>"]
    update_alike [OF al, where ch = "ch\<lparr>ch_events := ev\<rparr>"]
  show ?thesis
    using reactor_wfD(1) [OF wf ch]
  proof (cases rule: chan_okE)
    case new
    with interest_of_new [OF wf free ch] show ?thesis using ch
      by (simp add: set_events_def updateChannel_def set_index_def up ctl_accepted_def)
  next
    case added
    with ch show ?thesis by (simp add: set_events_def updateChannel_def up ctl_accepted_def)
  next
    case deleted
    with ch show ?thesis by (simp add: set_events_def updateChannel_def set_index_def up ctl_accepted_def)
  qed
qed

lemma removeChannel_alike:
  assumes al: "answers_alike K K'" and wf: "reactor_wf K r" and free: "fd_free r p"
  shows "removeChannel K' p r = removeChannel K p r"
proof -
  from free obtain ch where ch: "chans r p = Some ch" by (auto simp: fd_free_def)
  show ?thesis
    using reactor_wfD(1) [OF wf ch]
    by (cases rule: chan_okE) (simp_all add: removeChannel_def ch update_alike [OF al] ctl_accepted_def)
qed

lemma run_chan_alike:
  assumes doc: "epoll_doc K" and al: "answers_alike K K'"
  shows "reactor_wf K r \<Longrightarrow> fd_free r p \<Longrightarrow>
    run_chan (set_events K') (removeChannel K') ops p r = run_chan (set_events K) (removeChannel K) ops p r"
proof (induction ops arbitrary: r)
  case (Cons x ops)
  show ?case
  proof (cases x)
    case (SetEvents ev)
    from set_events_contract [OF doc Cons.prems, of ev] obtain r' where
      "set_events K ev p r = Inr r'" "reactor_wf K r'" "fd_free r' p" by blast
    then show ?thesis using Cons.IH set_events_alike [OF al Cons.prems] SetEvents by simp
  next
    case Remove
    from removeChannel_contract [OF doc Cons.prems] obtain r' where
      "removeChannel K p r = Inr r'" "reactor_wf K r'" "fd_free r' p" by blast
    then show ?thesis using Cons.IH removeChannel_alike [OF al Cons.prems] Remove by simp
  qed
qed simp

section \<open>Polling\<close>

text \<open>Two channel stores that differ at most in what events happened.\<close>

definition same_but_revents :: "(chan_ptr \<Rightarrow> channel option) \<Rightarrow> (chan_ptr \<Rightarrow> channel option) \<Rightarrow> bool" where
  "same_but_revents c c' \<longleftrightarrow> (\<forall>p. map_option (\<lambda>ch. ch\<lparr>ch_revents := 0\<rparr>) (c p) =
     map_option (\<lambda>ch. ch\<lparr>ch_revents := 0\<rparr>) (c' p))"

lemma same_but_revents_refl: "same_but_revents c c"
  by (simp add: same_but_revents_def)

lemma same_but_revents_upd:
  assumes "same_but_revents (c(p \<mapsto> ch\<lparr>ch_revents := ev\<rparr>)) c'" and "c p = Some ch"
  shows "same_but_revents c c'"
  unfolding same_but_revents_def
proof
  fix q
  show "map_option (\<lambda>ch. ch\<lparr>ch_revents := 0\<rparr>) (c q) = map_option (\<lambda>ch. ch\<lparr>ch_revents := 0\<rparr>) (c' q)"
    using assms(1) [unfolded same_but_revents_def, rule_format, of q] assms(2)
    by (cases "q = p") simp_all
qed

lemma same_but_revents_None: "same_but_revents c c' \<Longrightarrow> c p = None \<longleftrightarrow> c' p = None"
  by (drule same_but_revents_def [THEN iffD1, THEN spec [of _ p]]) (cases "c p"; cases "c' p"; simp)

lemma same_but_revents_Some:
  assumes "same_but_revents c c'" and "c p = Some ch" and "c' p = Some ch'"
  shows "ch_fd ch' = ch_fd ch" and "ch_index ch' = ch_index ch" and "ch_events ch' = ch_events ch"
    and "ch_tie ch' = ch_tie ch" and "ch_tied ch' = ch_tied ch"
proof -
  have e: "ch\<lparr>ch_revents := 0\<rparr> = ch'\<lparr>ch_revents := 0\<rparr>"
    using assms(1) [unfolded same_but_revents_def, rule_format, of p] assms(2,3) by simp
  show "ch_fd ch' = ch_fd ch" using arg_cong [OF e, of ch_fd] by simp
  show "ch_index ch' = ch_index ch" using arg_cong [OF e, of ch_index] by simp
  show "ch_events ch' = ch_events ch" using arg_cong [OF e, of ch_events] by simp
  show "ch_tie ch' = ch_tie ch" using arg_cong [OF e, of ch_tie] by simp
  show "ch_tied ch' = ch_tied ch" using arg_cong [OF e, of ch_tied] by simp
qed

text \<open>
  Handing out the ready events: every event's channel gets its event mask, in order; no other field
  of any channel changes.
\<close>

lemma fillActiveChannels_ok:
  "\<forall>(ev, p) \<in> set evs. chans r p \<noteq> None \<Longrightarrow>
     \<exists>c'. fillActiveChannels evs r = Inr (r\<lparr>chans := c'\<rparr>, map snd evs) \<and>
       same_but_revents (chans r) c' \<and>
       (\<forall>p. p \<notin> snd ` set evs \<longrightarrow> c' p = chans r p) \<and>
       (distinct (map snd evs) \<longrightarrow> (\<forall>(ev, p) \<in> set evs. \<forall>ch. c' p = Some ch \<longrightarrow> ch_revents ch = ev))"
proof (induction evs arbitrary: r)
  case Nil
  then show ?case by (intro exI [of _ "chans r"]) (simp add: same_but_revents_refl)
next
  case (Cons x evs)
  obtain ev p where x: "x = (ev, p)" by force
  with Cons.prems obtain ch where ch: "chans r p = Some ch" by auto
  let ?r = "set_chan p (ch\<lparr>ch_revents := ev\<rparr>) r"
  have "\<forall>(ev, q) \<in> set evs. chans ?r q \<noteq> None" using Cons.prems by auto
  from Cons.IH [OF this] obtain c' where
    f: "fillActiveChannels evs ?r = Inr (?r\<lparr>chans := c'\<rparr>, map snd evs)"
    and s: "same_but_revents (chans ?r) c'"
    and o: "\<forall>q. q \<notin> snd ` set evs \<longrightarrow> c' q = chans ?r q"
    and d: "distinct (map snd evs) \<longrightarrow>
      (\<forall>(ev, p) \<in> set evs. \<forall>ch. c' p = Some ch \<longrightarrow> ch_revents ch = ev)" by blast
  have "same_but_revents (chans r) c'"
    using s ch by (simp add: same_but_revents_upd)
  moreover have "fillActiveChannels (x # evs) r = Inr (r\<lparr>chans := c'\<rparr>, map snd (x # evs))"
    using f ch by (simp add: x set_chan_def)
  ultimately show ?case using o d
    by (intro exI [of _ c']) (auto simp: x)
qed

lemma interest_registered:
  assumes "reactor_wf K r" and "interest K (kst r) fd = Some (e, p)"
  shows "\<exists>ch. chans r p = Some ch \<and> ch_index ch = kAdded"
proof -
  from reactor_wfD(3) [OF assms] obtain q where q: "channelsM r fd = Some q" by auto
  with reactor_wfD(2) [OF assms(1) q] obtain c where c: "chans r q = Some c" "ch_fd c = fd" by auto
  with reactor_wfD(1) [OF assms(1) c(1)] assms(2) q show ?thesis by (auto elim: chan_okE)
qed

lemma interest_alive:
  "reactor_wf K r \<Longrightarrow> interest K (kst r) fd = Some (e, p) \<Longrightarrow> chans r p \<noteq> None"
  by (drule interest_registered) auto

lemma reactor_wf_same:
  assumes wf: "reactor_wf K r" and s: "same_but_revents (chans r) (chans r')"
    and m: "channelsM r' = channelsM r" and i: "interest K (kst r') = interest K (kst r)"
  shows "reactor_wf K r'"
proof -
  have sub: "\<exists>c. chans r p = Some c \<and> ch_fd c = ch_fd ch \<and> ch_index c = ch_index ch \<and>
      ch_events c = ch_events ch" if "chans r' p = Some ch" for p ch
    using same_but_revents_None [OF s, of p] same_but_revents_Some [OF s _ that] that
    by (cases "chans r p") auto
  have sup: "\<exists>ch. chans r' p = Some ch \<and> ch_fd ch = ch_fd c" if "chans r p = Some c" for p c
    using same_but_revents_None [OF s, of p] same_but_revents_Some(1) [OF s that] that
    by (cases "chans r' p") auto
  show ?thesis
    unfolding reactor_wf_def
  proof (intro conjI allI impI)
    fix p ch assume "chans r' p = Some ch"
    from sub [OF this] obtain c where c: "chans r p = Some c" "ch_fd c = ch_fd ch"
      "ch_index c = ch_index ch" "ch_events c = ch_events ch" by blast
    from reactor_wfD(1) [OF wf c(1)] show "chan_ok K r' p ch"
      by (simp add: chan_ok_def m i c)
  next
    fix fd p assume "channelsM r' fd = Some p"
    with reactor_wfD(2) [OF wf, of fd p] sup m show "\<exists>ch. chans r' p = Some ch \<and> ch_fd ch = fd"
      by auto
  next
    fix fd assume "interest K (kst r') fd \<noteq> None"
    with reactor_wfD(3) [OF wf, of fd] m i show "channelsM r' fd \<noteq> None" by auto
  qed
qed

lemma wait_docD:
  assumes "wait_doc K" and "epoll_wait K k n t = (k', out)"
  shows "same_io K k k'" and "interest K k' = interest K k"
    and "out = WaitOk evs \<Longrightarrow> length evs \<le> n"
    and "out = WaitOk evs \<Longrightarrow> (ev, p) \<in> set evs \<Longrightarrow> \<exists>fd e. interest K k fd = Some (e, p)"
  using assms unfolding wait_doc_def by blast+

lemma poll_ok:
  assumes "wait_doc K" and "reactor_wf K r"
    and "epoll_wait K (kst r) (eventsSize r) t = (k', out)"
    and "evs = (case out of WaitErr e \<Rightarrow> [] | WaitOk evs \<Rightarrow> evs)"
  shows "\<exists>c'. poll K t r = Inr (r\<lparr>chans := c', kst := k', eventsSize :=
        (if evs \<noteq> [] \<and> length evs = eventsSize r then eventsSize r * 2 else eventsSize r)\<rparr>,
        map snd evs, clock_us K k') \<and>
      reactor_wf K (r\<lparr>chans := c', kst := k'\<rparr>) \<and> same_but_revents (chans r) c' \<and>
      (distinct (map snd evs) \<longrightarrow> (\<forall>(ev, p) \<in> set evs. \<exists>ch. c' p = Some ch \<and> ch_revents ch = ev))"
proof -
  note w = wait_docD [OF assms(1,3)]
  have alive: "chans r p \<noteq> None" if "(ev, p) \<in> set evs" for ev p
  proof -
    from that assms(4) have "\<exists>fd e. interest K (kst r) fd = Some (e, p)"
      by (cases out) (auto dest: w(4))
    then show ?thesis using interest_alive [OF assms(2)] by blast
  qed
  then have "\<forall>(ev, p) \<in> set evs. chans (r\<lparr>kst := k'\<rparr>) p \<noteq> None" by auto
  from fillActiveChannels_ok [OF this] obtain c' where
    f: "fillActiveChannels evs (r\<lparr>kst := k'\<rparr>) = Inr (r\<lparr>kst := k', chans := c'\<rparr>, map snd evs)"
    and s: "same_but_revents (chans r) c'"
    and d: "distinct (map snd evs) \<longrightarrow>
      (\<forall>(ev, p) \<in> set evs. \<forall>ch. c' p = Some ch \<longrightarrow> ch_revents ch = ev)"
    by (auto simp: set_chan_def)
  have o: "r\<lparr>kst := k', chans := c'\<rparr> = r\<lparr>chans := c', kst := k'\<rparr>"
    by (cases r) simp
  have p: "poll K t r = Inr (r\<lparr>chans := c', kst := k', eventsSize :=
        (if evs \<noteq> [] \<and> length evs = eventsSize r then eventsSize r * 2 else eventsSize r)\<rparr>,
        map snd evs, clock_us K k')"
    using assms(3,4) f [unfolded o] by (cases out) (auto simp: poll_def Let_def)
  have "reactor_wf K (r\<lparr>chans := c', kst := k'\<rparr>)"
    by (rule reactor_wf_same [OF assms(2)]) (use s w(2) in auto)
  moreover have "\<exists>ch. c' p = Some ch" if "(ev, p) \<in> set evs" for ev p
    using same_but_revents_None [OF s, of p] alive [OF that] by auto
  ultimately show ?thesis using p s d by (intro exI [of _ c']) fastforce
qed

section \<open>Properties\<close>

text \<open>
  C21: as long as a channel's descriptor is registered for no other channel, every sequence of
  enabling, disabling and removing operations on it runs through, the state stays well formed,
  and in the end the kernel watches exactly the events last asked for on this channel, while what it
  watches for every other channel is unchanged. The poller issues no \<^verbatim>\<open>epoll_ctl\<close> call that the kernel
  refuses, be it to add, to change or to delete: the outcome is the same on every kernel that answers
  the calls that are in order alike, whatever it does with the others.
\<close>

theorem channel_updates_never_fatal:
  assumes "epoll_doc K" and "reactor_wf K r" and "fd_free r p"
  shows "\<exists>r'. run_chan (set_events K) (removeChannel K) ops p r = Inr r' \<and> reactor_wf K r' \<and>
    epoll_mask K r' = (epoll_mask K r)(p := final_mask (epoll_mask K r p) ops) \<and>
    (\<forall>K'. answers_alike K K' \<longrightarrow> run_chan (set_events K') (removeChannel K') ops p r = Inr r')"
  using ep.run_chan_ok [of K r p ops] run_chan_alike [OF assms(1) _ assms(2,3)] assms by metis

definition sample_reactor :: "skernel reactor" where
  "sample_reactor = \<lparr>chans = [1 \<mapsto> mk_channel 7], channelsM = (\<lambda>_. None),
     eventsSize = kInitEventListSize, kst = sk_init\<rparr>"

lemma sample_reactor_wf: "reactor_wf skern sample_reactor"
  by (simp add: reactor_wf_def sample_reactor_def chan_ok_def mk_channel_def kNew_def sk_init_def)

lemma sample_reactor_free: "fd_free sample_reactor 1"
  by (simp add: fd_free_def sample_reactor_def)

theorem channel_updates_never_fatal_witness:
  "epoll_doc skern \<and> reactor_wf skern sample_reactor \<and> fd_free sample_reactor 1 \<and>
   (\<exists>r'. run_chan (set_events skern) (removeChannel skern)
      [SetEvents kReadEvent, SetEvents 7, SetEvents 0, Remove, SetEvents 4] 1 sample_reactor = Inr r' \<and>
      epoll_mask skern r' 1 = 4)"
  using channel_updates_never_fatal [OF skern_epoll sample_reactor_wf sample_reactor_free,
      of "[SetEvents kReadEvent, SetEvents 7, SetEvents 0, Remove, SetEvents 4]"]
    skern_epoll sample_reactor_wf sample_reactor_free by auto

text \<open>
  C22: \<^verbatim>\<open>poll\<close> on a well-formed poller never follows a dangling channel pointer and keeps the state
  well formed. It returns the channels of the ready events in the kernel's order, changes no channel
  but for the events that happened (each active channel gets its own), and doubles the event array
  exactly when the kernel filled it.
\<close>

theorem poll_returns_ready_channels:
  assumes "wait_doc K" and "reactor_wf K r"
    and "epoll_wait K (kst r) (eventsSize r) t = (k', out)"
    and "evs = (case out of WaitErr e \<Rightarrow> [] | WaitOk evs \<Rightarrow> evs)"
  shows "\<exists>c'. poll K t r = Inr (r\<lparr>chans := c', kst := k', eventsSize :=
        (if evs \<noteq> [] \<and> length evs = eventsSize r then eventsSize r * 2 else eventsSize r)\<rparr>,
        map snd evs, clock_us K k') \<and>
      reactor_wf K (r\<lparr>chans := c', kst := k'\<rparr>) \<and> same_but_revents (chans r) c' \<and>
      (distinct (map snd evs) \<longrightarrow> (\<forall>(ev, p) \<in> set evs. \<exists>ch. c' p = Some ch \<and> ch_revents ch = ev))"
  by (rule poll_ok [OF assms])

definition polling_reactor :: "skernel reactor" where
  "polling_reactor = \<lparr>
     chans = [7 \<mapsto> (mk_channel 7)\<lparr>ch_events := kReadEvent, ch_index := kAdded\<rparr>],
     channelsM = [7 \<mapsto> 7], eventsSize = 1,
     kst = sk_init\<lparr>sk_interest := [7 \<mapsto> (kReadEvent, 7)], sk_ready := [(EPOLLIN, 7)]\<rparr>\<rparr>"

lemma polling_reactor_wf: "reactor_wf skern polling_reactor"
  by (auto simp: reactor_wf_def polling_reactor_def chan_ok_def mk_channel_def split: if_splits)

theorem poll_returns_ready_channels_witness:
  "wait_doc skern \<and> reactor_wf skern polling_reactor \<and>
   (\<exists>r c. poll skern 10000 polling_reactor = Inr (r, [7], 0) \<and> eventsSize r = 2 \<and>
      chans r 7 = Some c \<and> ch_revents c = EPOLLIN)"
proof -
  have w: "epoll_wait skern (kst polling_reactor) (eventsSize polling_reactor) 10000 =
      (kst polling_reactor, WaitOk [(EPOLLIN, 7)])"
    by (simp add: sk_wait_def polling_reactor_def)
  have n: "eventsSize polling_reactor = 1" by (simp add: polling_reactor_def)
  from poll_returns_ready_channels [OF skern_wait polling_reactor_wf w refl]
  obtain c' ch where "poll skern 10000 polling_reactor = Inr (polling_reactor\<lparr>chans := c',
      kst := kst polling_reactor, eventsSize := 2\<rparr>, [7], 0)"
    and "c' 7 = Some ch" and "ch_revents ch = EPOLLIN"
    by (auto simp: n)
  then show ?thesis using skern_wait polling_reactor_wf by auto
qed

end
