(* ===== verification/EventLoop.thy ===== *)
theory EventLoop
  imports EPollPoller
begin

text \<open>
  \<^verbatim>\<open>include/EventLoop.h\<close>, \<^verbatim>\<open>src/EventLoop.cc\<close> and \<^verbatim>\<open>include/CurrentThread.h\<close>: one event loop as the
  code of a single thread. The loop's record extends the poller's. A pending functor is a value of
  type \<open>'f\<close>; calling it is the parameter \<open>run\<close>, and handling an active channel is the parameter
  \<open>handle\<close>, because both are code of the loop's clients. Threads are numbered by their thread id.
  The interleaving with other threads is in theory \<open>LoopThreads\<close>.
\<close>

section \<open>State\<close>

record ('k, 'f) eventloop = "'k reactor" +
  looping :: bool
  quitF :: bool
  threadId :: int
  pollReturnTime :: int
  wakeupFd :: int
  wakeupChannel :: chan_ptr
  activeChannels :: "chan_ptr list"
  callingPendingFunctors :: bool
  pendingFunctors :: "'f list"

section \<open>Operations\<close>

text \<open>\<^verbatim>\<open>CurrentThread::tid()\<close>: the result and the thread's cached id afterwards.\<close>

definition cacheTid :: "int \<Rightarrow> int \<Rightarrow> int" where
  "cacheTid gettid t_cachedTid = (if t_cachedTid = 0 then gettid else t_cachedTid)"

definition tid :: "int \<Rightarrow> int \<Rightarrow> int \<times> int" where
  "tid gettid t_cachedTid = (let c = (if t_cachedTid = 0 then cacheTid gettid t_cachedTid else t_cachedTid)
     in (c, c))"

definition isInLoopThread :: "int \<Rightarrow> ('k, 'f) eventloop \<Rightarrow> bool" where
  "isInLoopThread t L \<longleftrightarrow> threadId L = t"

definition kPollTimeMs :: int where
  "kPollTimeMs = 10000"

definition createEventfd :: "int \<Rightarrow> int result" where
  "createEventfd evtfd = (if evtfd < 0 then Inl ExitFatal else Inr evtfd)"

text \<open>
  The constructor, in a thread \<open>t\<close> that has a loop already or not; \<open>evtfd\<close> is what \<^verbatim>\<open>eventfd\<close>
  returned, \<open>epollfd\<close> what \<^verbatim>\<open>epoll_create1\<close> did, and \<open>w\<close> the address of the new wake-up channel. A null poller is a pointer to no object.
\<close>

definition mk_eventloop :: "'k kernel \<Rightarrow> bool \<Rightarrow> bool \<Rightarrow> int \<Rightarrow> int \<Rightarrow> int \<Rightarrow> chan_ptr \<Rightarrow> 'k \<Rightarrow>
    ('k, 'f) eventloop result" where
  "mk_eventloop K MUDUO_USE_POLL t_loopInThisThread t epollfd evtfd w k =
     bind_r (newDefaultPoller MUDUO_USE_POLL epollfd k) (\<lambda>poller. bind_r (createEventfd evtfd) (\<lambda>fd.
       if t_loopInThisThread then Inl ExitFatal
       else (case poller of
          None \<Rightarrow> Inl UseAfterFree
        | Some po \<Rightarrow> enableReading K w
            \<lparr>chans = (chans po)(w \<mapsto> setReadCallback (mk_channel fd)), channelsM = channelsM po,
             eventsSize = eventsSize po, kst = kst po,
             looping = False, quitF = False, threadId = t, pollReturnTime = 0, wakeupFd = fd,
             wakeupChannel = w, activeChannels = [], callingPendingFunctors = False,
             pendingFunctors = []\<rparr>)))"

text \<open>The destructor; with the descriptors it closes, and whether the thread has a loop afterwards.\<close>

definition destroy_eventloop :: "'k kernel \<Rightarrow> ('k, 'f) eventloop \<Rightarrow>
    (('k, 'f) eventloop \<times> int list \<times> bool) result" where
  "destroy_eventloop K L = bind_r (disableAll K (wakeupChannel L) L) (\<lambda>L1.
     bind_r (channel_remove K (wakeupChannel L1) L1) (\<lambda>L2.
       let closed = [wakeupFd L2]; t_loopInThisThread = False in
       Inr (L2\<lparr>chans := (chans L2)(wakeupChannel L2 := None)\<rparr>, closed, t_loopInThisThread)))"

definition wakeup :: "'k kernel \<Rightarrow> ('k, 'f) eventloop \<Rightarrow> ('k, 'f) eventloop" where
  "wakeup K L = L\<lparr>kst := fst (eventfd_write K (kst L) (wakeupFd L))\<rparr>"

definition handleReadLoop :: "'k kernel \<Rightarrow> ('k, 'f) eventloop \<Rightarrow> ('k, 'f) eventloop" where
  "handleReadLoop K L = L\<lparr>kst := fst (eventfd_read K (kst L) (wakeupFd L))\<rparr>"

definition quit :: "'k kernel \<Rightarrow> int \<Rightarrow> ('k, 'f) eventloop \<Rightarrow> ('k, 'f) eventloop" where
  "quit K t L = (let L1 = L\<lparr>quitF := True\<rparr> in
     if \<not> isInLoopThread t L1 then wakeup K L1 else L1)"

text \<open>The critical section of \<^verbatim>\<open>queueInLoop\<close>, and the whole function.\<close>

definition push_functor :: "'f \<Rightarrow> ('k, 'f) eventloop \<Rightarrow> ('k, 'f) eventloop" where
  "push_functor cb L = L\<lparr>pendingFunctors := pendingFunctors L @ [cb]\<rparr>"

definition queueInLoop :: "'k kernel \<Rightarrow> int \<Rightarrow> 'f \<Rightarrow> ('k, 'f) eventloop \<Rightarrow> ('k, 'f) eventloop" where
  "queueInLoop K t cb L = (let L1 = push_functor cb L in
     if \<not> isInLoopThread t L1 \<or> callingPendingFunctors L1 then wakeup K L1 else L1)"

definition runInLoop :: "'k kernel \<Rightarrow> int \<Rightarrow> ('f \<Rightarrow> ('k, 'f) eventloop \<Rightarrow> ('k, 'f) eventloop result) \<Rightarrow>
    'f \<Rightarrow> ('k, 'f) eventloop \<Rightarrow> ('k, 'f) eventloop result" where
  "runInLoop K t run cb L =
     (if isInLoopThread t L then run cb L else Inr (queueInLoop K t cb L))"

text \<open>Calling a sequence of client functions one after the other.\<close>

fun run_each :: "('a \<Rightarrow> 's \<Rightarrow> 's result) \<Rightarrow> 'a list \<Rightarrow> 's \<Rightarrow> 's result" where
  "run_each f [] s = Inr s"
| "run_each f (x # xs) s = bind_r (f x s) (run_each f xs)"

definition swap_functors :: "('k, 'f) eventloop \<Rightarrow> 'f list \<times> ('k, 'f) eventloop" where
  "swap_functors L = (pendingFunctors L, L\<lparr>callingPendingFunctors := True, pendingFunctors := []\<rparr>)"

definition doPendingFunctors :: "('f \<Rightarrow> ('k, 'f) eventloop \<Rightarrow> ('k, 'f) eventloop result) \<Rightarrow>
    ('k, 'f) eventloop \<Rightarrow> ('k, 'f) eventloop result" where
  "doPendingFunctors run L = (case swap_functors L of (functors, L1) \<Rightarrow>
     bind_r (run_each run functors L1) (\<lambda>L2. Inr (L2\<lparr>callingPendingFunctors := False\<rparr>)))"

text \<open>One turn of the \<^verbatim>\<open>while\<close> loop, the loop, and \<^verbatim>\<open>loop()\<close>. None: the loop never ends.\<close>

definition loop_turn :: "'k kernel \<Rightarrow> (chan_ptr \<Rightarrow> ('k, 'f) eventloop \<Rightarrow> ('k, 'f) eventloop result) \<Rightarrow>
    ('f \<Rightarrow> ('k, 'f) eventloop \<Rightarrow> ('k, 'f) eventloop result) \<Rightarrow>
    ('k, 'f) eventloop \<Rightarrow> ('k, 'f) eventloop result" where
  "loop_turn K handle run L =
     bind_r (poll K kPollTimeMs (L\<lparr>activeChannels := []\<rparr>)) (\<lambda>(L1, ps, now).
       bind_r (run_each handle ps (L1\<lparr>activeChannels := ps, pollReturnTime := now\<rparr>))
         (doPendingFunctors run))"

partial_function (option) loop_while :: "(('k, 'f) eventloop \<Rightarrow> ('k, 'f) eventloop result) \<Rightarrow>
    ('k, 'f) eventloop \<Rightarrow> ('k, 'f) eventloop result option" where
  "loop_while turn L = (if quitF L then Some (Inr L)
     else (case turn L of Inl e \<Rightarrow> Some (Inl e) | Inr L' \<Rightarrow> loop_while turn L'))"

definition loop :: "(('k, 'f) eventloop \<Rightarrow> ('k, 'f) eventloop result) \<Rightarrow>
    ('k, 'f) eventloop \<Rightarrow> ('k, 'f) eventloop result option" where
  "loop turn L = map_option (\<lambda>r. bind_r r (\<lambda>L'. Inr (L'\<lparr>looping := False\<rparr>)))
     (loop_while turn (L\<lparr>looping := True, quitF := False\<rparr>))"

section \<open>Lemmas\<close>

lemma wakeup_sel [simp]:
  "pendingFunctors (wakeup K L) = pendingFunctors L"
  "callingPendingFunctors (wakeup K L) = callingPendingFunctors L"
  "threadId (wakeup K L) = threadId L" "wakeupFd (wakeup K L) = wakeupFd L"
  "quitF (wakeup K L) = quitF L" "looping (wakeup K L) = looping L"
  "chans (wakeup K L) = chans L" "channelsM (wakeup K L) = channelsM L"
  by (simp_all add: wakeup_def)

lemma handleReadLoop_sel [simp]:
  "pendingFunctors (handleReadLoop K L) = pendingFunctors L"
  "callingPendingFunctors (handleReadLoop K L) = callingPendingFunctors L"
  "threadId (handleReadLoop K L) = threadId L" "wakeupFd (handleReadLoop K L) = wakeupFd L"
  "quitF (handleReadLoop K L) = quitF L"
  by (simp_all add: handleReadLoop_def)

lemma queueInLoop_sel [simp]:
  "pendingFunctors (queueInLoop K t cb L) = pendingFunctors L @ [cb]"
  "callingPendingFunctors (queueInLoop K t cb L) = callingPendingFunctors L"
  "threadId (queueInLoop K t cb L) = threadId L" "wakeupFd (queueInLoop K t cb L) = wakeupFd L"
  "quitF (queueInLoop K t cb L) = quitF L" "looping (queueInLoop K t cb L) = looping L"
  "chans (queueInLoop K t cb L) = chans L" "channelsM (queueInLoop K t cb L) = channelsM L"
  by (simp_all add: queueInLoop_def push_functor_def Let_def)

text \<open>The loop's wake-up descriptor is readable: a blocked \<^verbatim>\<open>epoll_wait\<close> returns.\<close>

definition woken :: "'k kernel \<Rightarrow> ('k, 'f) eventloop \<Rightarrow> bool" where
  "woken K L \<longleftrightarrow> readable K (kst L) (wakeupFd L)"

lemma eventfd_docD:
  assumes "eventfd_doc K"
  shows "readable K (fst (eventfd_write K k fd)) = (readable K k)(fd := True)"
    and "readable K (fst (eventfd_read K k fd)) = (readable K k)(fd := False)"
    and "interest K (fst (eventfd_write K k fd)) = interest K k"
    and "sent K (fst (eventfd_write K k fd)) = sent K k"
    and "wr_shut K (fst (eventfd_write K k fd)) = wr_shut K k"
    and "file_data K (fst (eventfd_write K k fd)) = file_data K k"
  using assms unfolding eventfd_doc_def by (metis prod.collapse)+

lemma woken_wakeup [simp]: "eventfd_doc K \<Longrightarrow> woken K (wakeup K L)"
  by (simp add: woken_def wakeup_def eventfd_docD)

lemma woken_push [simp]: "woken K (push_functor cb L) = woken K L"
  by (simp add: woken_def push_functor_def)

lemma woken_queueInLoop:
  "eventfd_doc K \<Longrightarrow> woken K L \<or> \<not> isInLoopThread t L \<or> callingPendingFunctors L \<Longrightarrow>
     woken K (queueInLoop K t cb L)"
  by (auto simp: queueInLoop_def Let_def isInLoopThread_def push_functor_def)
    (simp add: woken_def)

lemma fold_queueInLoop_sel:
  "pendingFunctors (fold (queueInLoop K t) cbs L) = pendingFunctors L @ cbs"
  "callingPendingFunctors (fold (queueInLoop K t) cbs L) = callingPendingFunctors L"
  "threadId (fold (queueInLoop K t) cbs L) = threadId L"
  "quitF (fold (queueInLoop K t) cbs L) = quitF L"
  by (induction cbs arbitrary: L) auto

lemma fold_queueInLoop_woken:
  "eventfd_doc K \<Longrightarrow> callingPendingFunctors L \<Longrightarrow> woken K L \<or> cbs \<noteq> [] \<Longrightarrow>
     woken K (fold (queueInLoop K t) cbs L)"
proof (induction cbs arbitrary: L)
  case Nil
  then show ?case by simp
next
  case (Cons cb cbs)
  then show ?case by (simp add: woken_queueInLoop)
qed

text \<open>Client functions that queue further functors, as those of the library do.\<close>

definition run_queueing :: "'k kernel \<Rightarrow> int \<Rightarrow> ('f \<Rightarrow> 'f list) \<Rightarrow> 'f \<Rightarrow>
    ('k, 'f) eventloop \<Rightarrow> ('k, 'f) eventloop result" where
  "run_queueing K t queues cb L = Inr (fold (queueInLoop K t) (queues cb) L)"

lemma run_each_queueing:
  "run_each (run_queueing K t queues) cbs L = Inr (fold (queueInLoop K t) (concat (map queues cbs)) L)"
  by (induction cbs arbitrary: L) (auto simp: run_queueing_def)

fun turns :: "nat \<Rightarrow> (('k, 'f) eventloop \<Rightarrow> ('k, 'f) eventloop result) \<Rightarrow>
    ('k, 'f) eventloop \<Rightarrow> ('k, 'f) eventloop result" where
  "turns 0 turn L = Inr L"
| "turns (Suc n) turn L = bind_r (turn L) (turns n turn)"

lemma turns_snoc: "turns n turn L = Inr M \<Longrightarrow> turns (Suc n) turn L = turn M"
proof (induction n arbitrary: L)
  case 0
  then show ?case by (cases "turn M") simp_all
next
  case (Suc n)
  then obtain L1 where "turn L = Inr L1" "turns n turn L1 = Inr M" by (auto elim!: bind_r_Inr_E)
  with Suc.IH [of L1] show ?case by simp
qed

lemma loop_while_turns:
  assumes "turns n turn L = Inr L'" and "quitF L'"
    and "\<forall>m < n. \<forall>M. turns m turn L = Inr M \<longrightarrow> \<not> quitF M"
  shows "loop_while turn L = Some (Inr L')"
  using assms
proof (induction n arbitrary: L)
  case 0
  then show ?case by (simp add: loop_while.simps)
next
  case (Suc n)
  from Suc.prems(1) obtain L1 where L1: "turn L = Inr L1" "turns n turn L1 = Inr L'" by auto
  have "\<not> quitF L" using Suc.prems(3) by fastforce
  moreover have "\<not> quitF M" if "m < n" "turns m turn L1 = Inr M" for m M
    using Suc.prems(3) [rule_format, of "Suc m" M] that L1(1) by simp
  ultimately show ?case using L1 Suc.IH [OF L1(2) Suc.prems(2)]
    by (simp add: loop_while.simps [of turn L])
qed

lemma enableReading_contract:
  assumes doc: "epoll_doc K" and wf: "reactor_wf K r" and free: "fd_free r p"
    and ch: "chans r p = Some ch"
  shows "\<exists>r'. enableReading K p r = Inr r' \<and> reactor_wf K r' \<and> fd_free r' p \<and>
    epoll_mask K r' = (epoll_mask K r)(p := enableReading_ev ch)"
  using set_events_contract [OF doc wf free, of "enableReading_ev ch"] ch
  by (simp add: enableReading_def)

section \<open>Properties\<close>

text \<open>
  C23: \<^verbatim>\<open>doPendingFunctors\<close> runs the functors that were pending, each once and in order; functors
  they queue meanwhile are not run in this round but are pending afterwards, in the order queued,
  and then the loop has been woken, so its next \<^verbatim>\<open>poll\<close> does not block on them.
\<close>

theorem doPendingFunctors_round:
  assumes "eventfd_doc K"
  shows "\<exists>L'. doPendingFunctors (run_queueing K (threadId L) queues) L = Inr L' \<and>
    L' = (fold (queueInLoop K (threadId L)) (concat (map queues (pendingFunctors L)))
      (L\<lparr>callingPendingFunctors := True, pendingFunctors := []\<rparr>))\<lparr>callingPendingFunctors := False\<rparr> \<and>
    pendingFunctors L' = concat (map queues (pendingFunctors L)) \<and>
    (pendingFunctors L' \<noteq> [] \<longrightarrow> woken K L')"
proof -
  let ?cbs = "concat (map queues (pendingFunctors L))"
  let ?L = "fold (queueInLoop K (threadId L)) ?cbs
    (L\<lparr>callingPendingFunctors := True, pendingFunctors := []\<rparr>)"
  have "?cbs \<noteq> [] \<Longrightarrow> woken K ?L"
    by (rule fold_queueInLoop_woken [OF assms]) auto
  then show ?thesis
    by (simp add: doPendingFunctors_def swap_functors_def run_each_queueing fold_queueInLoop_sel)
      (simp add: woken_def)
qed

definition sample_loop :: "(skernel, nat) eventloop" where
  "sample_loop = \<lparr>chans = [3 \<mapsto> (mk_channel 3)\<lparr>ch_events := kReadEvent, ch_index := kAdded\<rparr>],
     channelsM = [3 \<mapsto> 3], eventsSize = 16,
     kst = sk_init\<lparr>sk_interest := [3 \<mapsto> (kReadEvent, 3)]\<rparr>, looping = False, quitF = False,
     threadId = 100, pollReturnTime = 0, wakeupFd = 3, wakeupChannel = 3, activeChannels = [],
     callingPendingFunctors = False, pendingFunctors = [5, 2]\<rparr>"

theorem doPendingFunctors_round_witness:
  "eventfd_doc skern \<and>
   (\<exists>L'. doPendingFunctors (run_queueing skern 100 (\<lambda>n. [n + 1, n + 2])) sample_loop = Inr L' \<and>
      pendingFunctors L' = [6, 7, 3, 4] \<and> woken skern L')"
proof -
  have t: "threadId sample_loop = 100" and p: "pendingFunctors sample_loop = [5, 2]"
    by (simp_all add: sample_loop_def)
  have d: "eventfd_doc skern" by (rule kernel_docD(3) [OF skern_doc])
  show ?thesis
    using d doPendingFunctors_round [OF d, of sample_loop "\<lambda>n. [n + 1, n + 2]"] by (auto simp: t p)
qed

text \<open>The flag a call of \<^verbatim>\<open>quit\<close> sets stays set, as nothing else but \<^verbatim>\<open>loop()\<close> writes it.\<close>

definition keeps_quit :: "('a \<Rightarrow> ('k, 'f) eventloop \<Rightarrow> ('k, 'f) eventloop result) \<Rightarrow> bool" where
  "keeps_quit f \<longleftrightarrow> (\<forall>x L L'. f x L = Inr L' \<and> quitF L \<longrightarrow> quitF L')"

lemma quit_sel [simp]: "quitF (quit K t L)"
  by (simp add: quit_def Let_def)

lemma run_each_keeps: "keeps_quit f \<Longrightarrow> run_each f xs L = Inr L' \<Longrightarrow> quitF L \<Longrightarrow> quitF L'"
  by (induction xs arbitrary: L) (auto simp: keeps_quit_def elim!: bind_r_Inr_E)

lemma run_each_quits:
  assumes "keeps_quit f" and "x \<in> set xs" and "f x = (\<lambda>L. Inr (quit K t L))"
  shows "run_each f xs L = Inr L' \<Longrightarrow> quitF L'"
  using assms(2)
proof (induction xs arbitrary: L)
  case (Cons y ys)
  from Cons.prems(1) obtain L1 where L1: "f y L = Inr L1" "run_each f ys L1 = Inr L'" by (auto elim!: bind_r_Inr_E)
  show ?case
  proof (cases "y = x")
    case True
    then have "quitF L1" using L1(1) assms(3) by auto
    then show ?thesis by (rule run_each_keeps [OF assms(1) L1(2)])
  next
    case False
    then show ?thesis using Cons.IH [OF L1(2)] Cons.prems(2) by simp
  qed
qed simp

lemma doPendingFunctors_quits:
  assumes "keeps_quit run" and "doPendingFunctors run L = Inr L'"
    and "quitF L \<or> (\<exists>q \<in> set (pendingFunctors L). run q = (\<lambda>L. Inr (quit K t L)))"
  shows "quitF L'"
proof -
  let ?L = "L\<lparr>callingPendingFunctors := True, pendingFunctors := []\<rparr>"
  from assms(2) obtain L2 where L2: "run_each run (pendingFunctors L) ?L = Inr L2"
    "L' = L2\<lparr>callingPendingFunctors := False\<rparr>"
    by (auto simp: doPendingFunctors_def swap_functors_def elim!: bind_r_Inr_E)
  have "quitF L2"
    using assms(3) run_each_keeps [OF assms(1) L2(1)] run_each_quits [OF assms(1) _ _ L2(1)] by auto
  then show ?thesis using L2(2) by simp
qed

text \<open>
  C24: \<^verbatim>\<open>loop()\<close> ends when \<^verbatim>\<open>quit\<close> is called. Let \<open>n\<close> turns of the loop (poll, handling of the active
  channels, the pending functors) have gone by with the flag not set; if in the next turn the handler of
  an active channel or a pending functor calls \<^verbatim>\<open>quit\<close>, the rest of that turn is still done, and then
  \<^verbatim>\<open>loop()\<close> returns, with \<^verbatim>\<open>looping_\<close> cleared. A call from another thread also makes the wake-up descriptor
  readable, so that a loop blocked in \<^verbatim>\<open>poll\<close> comes to its test, and at the test the loop ends.
\<close>

theorem loop_returns_after_quit:
  assumes "keeps_quit handle" and "keeps_quit run"
    and "turns n (loop_turn K handle run) (L\<lparr>looping := True, quitF := False\<rparr>) = Inr M"
    and "\<forall>m \<le> n. \<forall>N. turns m (loop_turn K handle run) (L\<lparr>looping := True, quitF := False\<rparr>) = Inr N \<longrightarrow> \<not> quitF N"
    and "poll K kPollTimeMs (M\<lparr>activeChannels := []\<rparr>) = Inr (L1, ps, now)"
    and "run_each handle ps (L1\<lparr>activeChannels := ps, pollReturnTime := now\<rparr>) = Inr L2"
    and "doPendingFunctors run L2 = Inr M'"
    and "(\<exists>p \<in> set ps. handle p = (\<lambda>L. Inr (quit K t L))) \<or>
      (\<exists>q \<in> set (pendingFunctors L2). run q = (\<lambda>L. Inr (quit K t L)))"
    and "eventfd_doc K"
  shows "loop (loop_turn K handle run) L = Some (Inr (M'\<lparr>looping := False\<rparr>)) \<and>
    (\<not> isInLoopThread t' M \<longrightarrow> woken K (quit K t' M) \<and>
      loop_while (loop_turn K handle run) (quit K t' M) = Some (Inr (quit K t' M)))"
proof -
  let ?T = "loop_turn K handle run" and ?L = "L\<lparr>looping := True, quitF := False\<rparr>"
  have turn: "?T M = Inr M'" using assms(5-7) by (simp add: loop_turn_def)
  have "quitF L2" if "\<exists>p \<in> set ps. handle p = (\<lambda>L. Inr (quit K t L))"
    using that run_each_quits [OF assms(1) _ _ assms(6)] by blast
  then have q: "quitF M'" using assms(8) doPendingFunctors_quits [OF assms(2,7)] by blast
  have "turns (Suc n) ?T ?L = Inr M'" using turns_snoc [OF assms(3)] turn by simp
  then have "loop_while ?T ?L = Some (Inr M')"
    by (rule loop_while_turns) (use q assms(4) in \<open>simp_all add: less_Suc_eq_le\<close>)
  then have "loop ?T L = Some (Inr (M'\<lparr>looping := False\<rparr>))" by (simp add: loop_def)
  moreover have "woken K (quit K t' M)" if "\<not> isInLoopThread t' M"
    using that assms(9) by (simp add: quit_def Let_def isInLoopThread_def)
  ultimately show ?thesis by (simp add: loop_while.simps)
qed

theorem loop_returns_after_quit_witness:
  "\<exists>L'. loop (loop_turn skern (\<lambda>p L. Inr L) (\<lambda>n L. Inr (if n = 5 then quit skern 100 L else L))) sample_loop =
     Some (Inr L') \<and> quitF L' \<and> pendingFunctors L' = []"
proof -
  let ?run = "\<lambda>n L. Inr (if n = 5 then quit skern 100 L else L)"
  let ?M = "sample_loop\<lparr>looping := True, quitF := False\<rparr>"
  let ?M' = "?M\<lparr>quitF := True, pendingFunctors := []\<rparr>"
  have k: "keeps_quit (\<lambda>p L. Inr L)" "keeps_quit ?run" by (auto simp: keeps_quit_def)
  have p: "poll skern kPollTimeMs (?M\<lparr>activeChannels := []\<rparr>) = Inr (?M, [], 0)"
    by (simp add: poll_def sk_wait_def sample_loop_def sk_init_def)
  have r: "run_each (\<lambda>p L. Inr L) [] (?M\<lparr>activeChannels := [], pollReturnTime := 0\<rparr>) = Inr ?M"
    by (simp add: sample_loop_def)
  have d: "doPendingFunctors ?run ?M = Inr ?M'"
    by (simp add: doPendingFunctors_def swap_functors_def sample_loop_def quit_def isInLoopThread_def)
  have q: "\<exists>q \<in> set (pendingFunctors ?M). ?run q = (\<lambda>L. Inr (quit skern 100 L))" by (simp add: sample_loop_def)
  have "loop (loop_turn skern (\<lambda>p L. Inr L) ?run) sample_loop = Some (Inr (?M'\<lparr>looping := False\<rparr>))"
    using loop_returns_after_quit [OF k, of 0 skern sample_loop ?M, OF _ _ p r d disjI2 [OF q] kernel_docD(3) [OF skern_doc]]
    by simp
  then show ?thesis by simp
qed

text \<open>
  A \<^verbatim>\<open>quit()\<close> that comes before \<^verbatim>\<open>loop()\<close> has no effect on the loop: \<^verbatim>\<open>loop()\<close> clears the flag,
  so it behaves as if \<^verbatim>\<open>quit()\<close> had not been called (a call from another thread still leaves the
  wake-up descriptor readable).
\<close>

lemma quit_before_loop_is_lost:
  "loop turn (quit K t L) = loop turn (if isInLoopThread t L then L else wakeup K L)"
  by (simp add: loop_def quit_def isInLoopThread_def wakeup_def Let_def)

text \<open>The state the constructor builds, and the one the destructor leaves.\<close>

lemma mk_eventloop_ok:
  fixes K :: "'k kernel"
  assumes doc: "epoll_doc K" and fresh: "interest K k = (\<lambda>_. None)" and fd: "0 \<le> fd" and ep: "0 \<le> epfd"
  shows "\<exists>L :: ('k, 'f) eventloop. mk_eventloop K False False t epfd fd w k = Inr L \<and>
    reactor_wf K L \<and> fd_free L w \<and>
    wakeupChannel L = w \<and> wakeupFd L = fd \<and> threadId L = t \<and> pendingFunctors L = [] \<and> \<not> callingPendingFunctors L \<and>
    chans L = [w \<mapsto> (setReadCallback (mk_channel fd))\<lparr>ch_events := kReadEvent, ch_index := kAdded\<rparr>] \<and>
    epoll_mask K L = (\<lambda>_. 0)(w := kReadEvent) \<and> interest K (kst L) = [fd \<mapsto> (kReadEvent, w)]"
proof -
  let ?c = "setReadCallback (mk_channel fd)"
  define L0 :: "('k, 'f) eventloop" where
    "L0 = \<lparr>chans = [w \<mapsto> ?c], channelsM = (\<lambda>_. None), eventsSize = kInitEventListSize, kst = k,
      looping = False, quitF = False, threadId = t, pollReturnTime = 0, wakeupFd = fd,
      wakeupChannel = w, activeChannels = [], callingPendingFunctors = False, pendingFunctors = []\<rparr>"
  have c: "chans L0 w = Some ?c" "channelsM L0 = (\<lambda>_. None)" "kst L0 = k" "chans L0 = [w \<mapsto> ?c]"
    by (simp_all add: L0_def)
  have ix: "ch_index ?c = kNew" "ch_fd ?c = fd" "enableReading_ev ?c = kReadEvent"
    by (simp_all add: setReadCallback_def mk_channel_def kNew_def enableReading_ev_def)
  have wf: "reactor_wf K L0"
    using fresh c ix by (auto simp: reactor_wf_def chan_ok_def split: if_splits)
  have free: "fd_free L0 w" using c by (simp add: fd_free_def)
  have m0: "epoll_mask K L0 = (\<lambda>_. 0)" using c fresh by (auto simp: epoll_mask_def split: option.splits)
  have mk: "mk_eventloop K False False t epfd fd w k = enableReading K w L0"
    using fd ep by (simp add: mk_eventloop_def createEventfd_def newDefaultPoller_def mk_epollpoller_def L0_def)
  from set_events_ok [OF doc wf c(1) free, of kReadEvent] obtain k' where
    s: "set_events K kReadEvent w L0 = Inr (L0\<lparr>
      chans := (chans L0)(w \<mapsto> ?c\<lparr>ch_events := kReadEvent, ch_index := kAdded\<rparr>),
      channelsM := (channelsM L0)(fd \<mapsto> w), kst := k'\<rparr>)" (is "_ = Inr ?L")
    and i: "interest K k' = (interest K k)(fd \<mapsto> (kReadEvent, w))"
    by (auto simp: index_after_def ix c)
  from set_events_contract [OF doc wf free, of kReadEvent] s
  have "reactor_wf K ?L" "fd_free ?L w" "epoll_mask K ?L = (\<lambda>_. 0)(w := kReadEvent)"
    by (simp_all add: m0)
  moreover have "mk_eventloop K False False t epfd fd w k = Inr ?L"
    using mk s c ix by (simp add: enableReading_def)
  ultimately show ?thesis
    using i fresh by (intro exI [of _ ?L]) (simp add: c, simp add: L0_def)
qed

lemma destroy_eventloop_ok:
  assumes doc: "epoll_doc K" and wf: "reactor_wf K L" and free: "fd_free L (wakeupChannel L)"
    and ch: "chans L (wakeupChannel L) = Some ch"
  shows "\<exists>L'. destroy_eventloop K L = Inr (L', [wakeupFd L], False) \<and> reactor_wf K L' \<and>
    interest K (kst L') = (interest K (kst L))(ch_fd ch := None)"
proof -
  from disable_remove_ok [OF doc wf ch free] obtain k' L' where
    L': "bind_r (disableAll K (wakeupChannel L) L) (removeChannel K (wakeupChannel L)) = Inr L'"
      "L' = L\<lparr>chans := (chans L)(wakeupChannel L \<mapsto> ch\<lparr>ch_events := 0, ch_index := kNew\<rparr>),
        channelsM := (channelsM L)(ch_fd ch := None), kst := k'\<rparr>"
      "reactor_wf K L'" "interest K k' = (interest K (kst L))(ch_fd ch := None)" by blast
  from L'(1) obtain L1 where L1: "disableAll K (wakeupChannel L) L = Inr L1" "removeChannel K (wakeupChannel L) L1 = Inr L'"
    by blast
  have w: "wakeupChannel L1 = wakeupChannel L" "wakeupChannel L' = wakeupChannel L" "wakeupFd L' = wakeupFd L"
    using set_events_ok [OF doc wf ch free, of kNoneEvent] L1(1) L'(2) by (auto simp: disableAll_def)
  let ?L = "L'\<lparr>chans := (chans L')(wakeupChannel L := None)\<rparr>"
  have "destroy_eventloop K L = Inr (?L, [wakeupFd L], False)" using L1 w by (simp add: destroy_eventloop_def)
  moreover have "reactor_wf K ?L"
    by (rule reactor_wf_delete [OF L'(3), of _ "ch\<lparr>ch_events := 0, ch_index := kNew\<rparr>"]) (simp_all add: L'(2))
  ultimately show ?thesis using L'(2,4) by simp
qed

text \<open>
  C37: the life of an event loop on a fresh epoll instance. The constructor succeeds, watches the
  wake-up descriptor for reading and nothing else; the destructor takes it out again, leaves the
  kernel's interest list empty, closes the wake-up descriptor and leaves the thread without a loop. Without a descriptor for epoll or for the wake-up, and when the thread
  has a loop already, the process ends, and with \<^verbatim>\<open>MUDUO_USE_POLL\<close> set the constructor follows a null poller.
\<close>

theorem eventloop_construct_destroy:
  fixes K :: "'k kernel"
  assumes "epoll_doc K" and "interest K k = (\<lambda>_. None)" and "0 \<le> fd" and "0 \<le> epfd"
  shows "(\<exists>L. mk_eventloop K False False t epfd fd w k = Inr (L :: ('k, 'f) eventloop) \<and> reactor_wf K L \<and>
      epoll_mask K L = (\<lambda>_. 0)(w := kReadEvent) \<and> interest K (kst L) = [fd \<mapsto> (kReadEvent, w)] \<and>
      (\<exists>L'. destroy_eventloop K L = Inr (L', [fd], False) \<and> interest K (kst L') = (\<lambda>_. None) \<and> reactor_wf K L')) \<and>
    mk_eventloop K False True t epfd fd w k = (Inl ExitFatal :: ('k, 'f) eventloop result) \<and>
    mk_eventloop K True False t epfd fd w k = (Inl UseAfterFree :: ('k, 'f) eventloop result) \<and>
    mk_eventloop K False False t (-1) fd w k = (Inl ExitFatal :: ('k, 'f) eventloop result) \<and>
    mk_eventloop K False False t epfd (-1) w k = (Inl ExitFatal :: ('k, 'f) eventloop result)"
proof -
  from mk_eventloop_ok [where 'f = 'f and t = t and w = w, OF assms] obtain L :: "('k, 'f) eventloop" where
    L: "mk_eventloop K False False t epfd fd w k = Inr L" "reactor_wf K L" "fd_free L w"
      "wakeupChannel L = w" "wakeupFd L = fd" "epoll_mask K L = (\<lambda>_. 0)(w := kReadEvent)"
      "interest K (kst L) = [fd \<mapsto> (kReadEvent, w)]"
    and c: "chans L = [w \<mapsto> (setReadCallback (mk_channel fd))\<lparr>ch_events := kReadEvent,
      ch_index := kAdded\<rparr>]" by blast
  from destroy_eventloop_ok [OF assms(1) L(2)] L c
  have "\<exists>L'. destroy_eventloop K L = Inr (L', [fd], False) \<and> interest K (kst L') = (\<lambda>_. None) \<and> reactor_wf K L'"
    by (auto simp: setReadCallback_def mk_channel_def)
  then show ?thesis
    using L assms(3,4) by (auto simp: mk_eventloop_def createEventfd_def newDefaultPoller_def mk_epollpoller_def)
qed

theorem eventloop_construct_destroy_witness:
  "epoll_doc skern \<and> interest skern sk_init = (\<lambda>_. None) \<and>
   mk_eventloop skern True False 100 4 3 1 sk_init = (Inl UseAfterFree :: (skernel, nat) eventloop result) \<and>
   (\<exists>L :: (skernel, nat) eventloop. mk_eventloop skern False False 100 4 3 1 sk_init = Inr L \<and>
     interest skern (kst L) = [3 \<mapsto> (kReadEvent, 1)])"
proof -
  have i: "interest skern sk_init = (\<lambda>_. None)" by (simp add: sk_init_def)
  have z: "(0 :: int) \<le> 3" "(0 :: int) \<le> 4" by simp_all
  show ?thesis
    using eventloop_construct_destroy [OF skern_epoll i z, of 100 1] skern_epoll i by blast
qed

end
