(* ===== verification/InetAddress.thy ===== *)
theory InetAddress
  imports Prelude
begin

unbundle bit_operations_syntax

text \<open>
  \<^verbatim>\<open>src/InetAddress.cc\<close>: an IPv4 socket address. The port is kept in network byte order as the code
  keeps it (on a little-endian machine), the address as its four bytes in memory order. The C
  library's \<^verbatim>\<open>inet_pton\<close> and \<^verbatim>\<open>inet_ntop\<close> for \<^verbatim>\<open>AF_INET\<close> are modelled as dotted-decimal conversions;
  the buffer of 64 characters they and \<^verbatim>\<open>snprintf\<close> write to is written out.
\<close>

section \<open>Byte order\<close>

type_synonym port = "16 word"

definition htons :: "port \<Rightarrow> port" where
  "htons w = push_bit 8 w OR drop_bit 8 w"

definition ntohs :: "port \<Rightarrow> port" where
  "ntohs w = push_bit 8 w OR drop_bit 8 w"

lemma ntohs_htons [simp]: "ntohs (htons w) = w"
  by (rule bit_word_eqI) (auto simp: ntohs_def htons_def bit_simps)

section \<open>Dotted decimal\<close>

text \<open>
  \<^verbatim>\<open>inet_pton\<close>: \<open>acc\<close> holds the finished octets, \<open>cur\<close> the one being read, if a digit of it was seen.
\<close>

fun inet_pton_go :: "string \<Rightarrow> nat list \<Rightarrow> nat option \<Rightarrow> nat list option" where
  "inet_pton_go [] acc cur = (case cur of
      None \<Rightarrow> None
    | Some v \<Rightarrow> if length acc = 3 then Some (acc @ [v]) else None)"
| "inet_pton_go (c # cs) acc cur =
     (if is_digit c then
        (case cur of
           None \<Rightarrow> if 4 \<le> length acc then None else inet_pton_go cs acc (Some (digit_value c))
         | Some v \<Rightarrow> if v = 0 \<or> 255 < v * 10 + digit_value c then None
                     else inet_pton_go cs acc (Some (v * 10 + digit_value c)))
      else if c = CHR ''.'' then
        (case cur of
           None \<Rightarrow> None
         | Some v \<Rightarrow> if length acc = 3 then None else inet_pton_go cs (acc @ [v]) None)
      else None)"

definition inet_pton :: "string \<Rightarrow> nat list option" where
  "inet_pton s = inet_pton_go s [] None"

definition inet_ntop :: "nat list \<Rightarrow> string" where
  "inet_ntop a = concat (map (\<lambda>v. nat_to_string v @ ''.'') (butlast a)) @ nat_to_string (last a)"

section \<open>The class\<close>

record inet_address =
  sin_port :: port
  sin_addr :: "nat list"

text \<open>
  The constructor clears the address first and ignores the result of \<^verbatim>\<open>inet_pton\<close>, which leaves the
  destination alone when it fails. A C string ends at its first NUL.
\<close>

definition mk_inet :: "port \<Rightarrow> string \<Rightarrow> inet_address" where
  "mk_inet port ip = \<lparr>sin_port = htons port,
     sin_addr = (case inet_pton (takeWhile (\<lambda>c. c \<noteq> CHR 0x00) ip) of None \<Rightarrow> [0, 0, 0, 0] | Some a \<Rightarrow> a)\<rparr>"

definition default_ip :: string where
  "default_ip = ''127.0.0.1''"

text \<open>The string a buffer of the given size holds after \<^verbatim>\<open>snprintf\<close> of \<open>s\<close> at offset \<open>off\<close>.\<close>

definition snprintf_at :: "nat \<Rightarrow> string \<Rightarrow> nat \<Rightarrow> string \<Rightarrow> string" where
  "snprintf_at sz buf off s = take off buf @ take (sz - off - 1) s"

definition toIp :: "inet_address \<Rightarrow> string" where
  "toIp a = snprintf_at 64 [] 0 (inet_ntop (sin_addr a))"

definition toPort :: "inet_address \<Rightarrow> port" where
  "toPort a = ntohs (sin_port a)"

definition toIpPort :: "inet_address \<Rightarrow> string" where
  "toIpPort a = (let buf = snprintf_at 64 [] 0 (inet_ntop (sin_addr a)); end = length buf in
     snprintf_at 64 buf end ('':'' @ nat_to_string (unat (ntohs (sin_port a)))))"

definition setSockAddr :: "inet_address \<Rightarrow> inet_address \<Rightarrow> inet_address" where
  "setSockAddr addr a = addr"

definition inet_wf :: "inet_address \<Rightarrow> bool" where
  "inet_wf a \<longleftrightarrow> length (sin_addr a) = 4 \<and> list_all (\<lambda>v. v \<le> 255) (sin_addr a)"

section \<open>Lemmas\<close>

lemma digit_char_value [simp]: "is_digit c \<Longrightarrow> digit_char (digit_value c) = c"
  by (auto simp: is_digit_def digit_value_def digit_char_def)

lemma digit_value_less: "is_digit c \<Longrightarrow> digit_value c < 10"
  by (auto simp: is_digit_def digit_value_def)

lemma nat_to_string_step:
  "0 < v \<Longrightarrow> is_digit c \<Longrightarrow> nat_to_string (v * 10 + digit_value c) = nat_to_string v @ [c]"
  by (subst nat_to_string.simps) (use digit_value_less [of c] in auto)

lemma nat_to_string_digit: "is_digit c \<Longrightarrow> nat_to_string (digit_value c) = [c]"
  by (subst nat_to_string.simps) (use digit_value_less [of c] in auto)

text \<open>What has been read so far, given the two accumulators.\<close>

definition pton_read :: "nat list \<Rightarrow> nat option \<Rightarrow> string" where
  "pton_read acc cur = concat (map (\<lambda>v. nat_to_string v @ ''.'') acc) @
     (case cur of None \<Rightarrow> [] | Some v \<Rightarrow> nat_to_string v)"

lemma inet_pton_go_sound:
  assumes "inet_pton_go s acc cur = Some a" and "list_all (\<lambda>v. v \<le> 255) acc"
    and "case cur of None \<Rightarrow> True | Some v \<Rightarrow> v \<le> 255"
  shows "inet_ntop a = pton_read acc cur @ s \<and> length a = 4 \<and> list_all (\<lambda>v. v \<le> 255) a"
  using assms
proof (induction s acc cur rule: inet_pton_go.induct)
  case (1 acc cur)
  then show ?case by (auto simp: inet_ntop_def pton_read_def split: option.splits if_splits)
next
  case (2 c cs acc cur)
  show ?case
  proof (cases "is_digit c")
    case True
    have "digit_value c \<le> 255" using digit_value_less [OF True] by simp
    with True 2 show ?thesis
      by (auto simp: pton_read_def nat_to_string_step nat_to_string_digit
          split: if_splits option.splits)
  next
    case False
    with "2.prems" have "c = CHR ''.''" by (auto split: if_splits)
    with False 2 show ?thesis by (auto simp: pton_read_def split: if_splits option.splits)
  qed
qed

lemma inet_pton_go_octet:
  assumes "v \<le> 255" and "length acc \<le> 3"
  shows "inet_pton_go (nat_to_string v @ s) acc None = inet_pton_go s acc (Some v)"
  using assms(1)
proof (induction v arbitrary: s rule: nat_to_string.induct)
  case (1 v)
  show ?case
  proof (cases "v < 10")
    case True
    then show ?thesis using assms(2) by (subst nat_to_string.simps) simp
  next
    case False
    then have "inet_pton_go (nat_to_string (v div 10) @ digit_char (v mod 10) # s) acc None =
        inet_pton_go (digit_char (v mod 10) # s) acc (Some (v div 10))"
      using 1 by simp
    moreover have "v div 10 \<noteq> 0" using False by (simp add: div_eq_0_iff)
    moreover have "digit_value (digit_char (v mod 10)) = v mod 10" by (rule digit_value_char) simp
    ultimately show ?thesis using False "1.prems" by (subst nat_to_string.simps) simp
  qed
qed

lemma not_digit_dot [simp]: "\<not> is_digit (CHR ''.'')"
  by (simp add: is_digit_def)

lemma inet_pton_ntop:
  assumes "length a = 4" and "list_all (\<lambda>v. v \<le> 255) a"
  shows "inet_pton (inet_ntop a) = Some a"
proof -
  from assms(1) obtain v w x y where a: "a = [v, w, x, y]"
    by (auto simp: numeral_eq_Suc length_Suc_conv)
  with assms(2) have "v \<le> 255" "w \<le> 255" "x \<le> 255" "y \<le> 255" by simp_all
  then show ?thesis
    using inet_pton_go_octet [of y "[v, w, x]" "[]"]
    by (simp add: a inet_pton_def inet_ntop_def inet_pton_go_octet)
qed

lemma inet_pton_sound: "inet_pton s = Some a \<Longrightarrow> inet_ntop a = s \<and> length a = 4 \<and> list_all (\<lambda>v. v \<le> 255) a"
  using inet_pton_go_sound [of s "[]" None a] by (simp add: inet_pton_def pton_read_def)

lemma inet_ntop_length:
  assumes "length a = 4" and "list_all (\<lambda>v. v \<le> 255) a"
  shows "length (inet_ntop a) \<le> 15"
proof -
  from assms(1) obtain v w x y where a: "a = [v, w, x, y]"
    by (auto simp: numeral_eq_Suc length_Suc_conv)
  have "length (nat_to_string n) \<le> 3" if "n \<le> 255" for n
    by (rule nat_to_string_length) (use that in simp_all)
  from this [of v] this [of w] this [of x] this [of y] assms(2) show ?thesis
    by (simp add: a inet_ntop_def)
qed

lemma mk_inet_wf: "inet_wf (mk_inet port ip)"
  by (auto simp: inet_wf_def mk_inet_def dest: inet_pton_sound split: option.splits)

lemma toIpPort_eq:
  assumes "inet_wf a"
  shows "toIp a = inet_ntop (sin_addr a)"
    and "toIpPort a = inet_ntop (sin_addr a) @ '':'' @ nat_to_string (unat (toPort a))"
    and "length (toIpPort a) \<le> 21"
proof -
  have n: "length (inet_ntop (sin_addr a)) \<le> 15"
    using assms by (auto simp: inet_wf_def intro: inet_ntop_length)
  have "unat (toPort a) < 2 ^ LENGTH(16)" by (rule unsigned_less)
  then have p: "length (nat_to_string (unat (toPort a))) \<le> 5"
    by (intro nat_to_string_length) simp_all
  show "toIp a = inet_ntop (sin_addr a)" using n by (simp add: toIp_def snprintf_at_def)
  show e: "toIpPort a = inet_ntop (sin_addr a) @ '':'' @ nat_to_string (unat (toPort a))"
    using n p by (simp add: toIpPort_def toPort_def snprintf_at_def Let_def)
  show "length (toIpPort a) \<le> 21" using n p e by simp
qed

section \<open>Properties\<close>

text \<open>
  C31: an address built from a port and a text prints back as given, in both forms and without being
  cut off by the 64 character buffers, exactly when the text is a dotted-decimal address (four
  octets of at most 255 without leading zeros, up to an embedded NUL); the port always survives the
  two byte-order conversions. Any other text is not reported: the address is 0.0.0.0, the wildcard.
\<close>

theorem inet_address_roundtrip:
  "(\<forall>v. list_all (\<lambda>x. x \<le> 255) v \<and> length v = 4 \<longrightarrow>
      toIp (mk_inet port (inet_ntop v)) = inet_ntop v \<and>
      toIpPort (mk_inet port (inet_ntop v)) = inet_ntop v @ '':'' @ nat_to_string (unat port)) \<and>
   (CHR 0x00 \<notin> set ip \<longrightarrow> toIp (mk_inet port ip) = (if inet_pton ip = None then ''0.0.0.0'' else ip)) \<and>
   toPort (mk_inet port ip) = port \<and> length (toIpPort (mk_inet port ip)) \<le> 21"
proof -
  have port: "toPort (mk_inet port ip) = port" for ip by (simp add: toPort_def mk_inet_def)
  have nul: "takeWhile (\<lambda>c. c \<noteq> CHR 0x00) (inet_ntop v) = inet_ntop v" for v
  proof -
    have "CHR 0x00 \<notin> set (nat_to_string n)" for n
      using nat_to_string_digits [of n] by (auto simp: is_digit_def)
    then show ?thesis by (intro takeWhile_eq_all_conv [THEN iffD2]) (auto simp: inet_ntop_def)
  qed
  have printed: "sin_addr (mk_inet port (inet_ntop v)) = v" if "list_all (\<lambda>x. x \<le> 255) v" "length v = 4" for v
    using inet_pton_ntop [OF that(2,1)] by (simp add: mk_inet_def nul)
  have "toIp (mk_inet port ip) = (if inet_pton ip = None then ''0.0.0.0'' else ip)" if "CHR 0x00 \<notin> set ip"
  proof -
    have tw: "takeWhile (\<lambda>c. c \<noteq> CHR 0x00) ip = ip"
      using that by (auto simp: takeWhile_eq_all_conv)
    have "sin_addr (mk_inet port ip) = (case inet_pton ip of None \<Rightarrow> [0, 0, 0, 0] | Some a \<Rightarrow> a)"
      unfolding mk_inet_def tw by simp
    moreover have "inet_ntop [0, 0, 0, 0] = ''0.0.0.0''" by code_simp
    ultimately show ?thesis
      by (cases "inet_pton ip") (simp_all add: toIpPort_eq(1) mk_inet_wf inet_pton_sound)
  qed
  then show ?thesis using printed toIpPort_eq(3) [OF mk_inet_wf, of port ip]
    by (auto simp: toIpPort_eq(1,2) mk_inet_wf port)
qed

theorem inet_address_roundtrip_witness:
  "toIpPort (mk_inet 8080 ''127.0.0.1'') = ''127.0.0.1:8080'' \<and> toIp (mk_inet 8080 ''localhost'') = ''0.0.0.0''"
proof -
  have "inet_ntop [127, 0, 0, 1] = ''127.0.0.1''" "nat_to_string 8080 = ''8080''" by code_simp+
  moreover have "inet_pton ''localhost'' = None" by code_simp
  ultimately show ?thesis
    using inet_address_roundtrip [of 8080 "''localhost''"] by (auto dest!: spec [of _ "[127, 0, 0, 1]"])
qed

end
