(* ===== verification/Logging.thy ===== *)
theory Logging
  imports InetAddress "HOL-Library.Signed_Division"
begin

text \<open>
  \<^verbatim>\<open>src/Timestamp.cc\<close> and \<^verbatim>\<open>src/Logger.cc\<close>: printing a point in time, and the filter and line format of
  the logger with its 1024 character message buffer. \<^verbatim>\<open>localtime_r\<close> depends on the time zone data of
  the machine and is a parameter; standard output is the list of lines written.
\<close>

section \<open>Timestamp\<close>

text \<open>The \<^verbatim>\<open>printf\<close> conversions \<^verbatim>\<open>%<w>d\<close> and \<^verbatim>\<open>%0<w>d\<close>.\<close>

definition fmt_d :: "nat \<Rightarrow> int \<Rightarrow> string" where
  "fmt_d w i = replicate (w - length (to_string i)) (CHR '' '') @ to_string i"

definition fmt_0d :: "nat \<Rightarrow> int \<Rightarrow> string" where
  "fmt_0d w i = (if i < 0 then CHR ''-'' # replicate (w - 1 - length (nat_to_string (nat (- i)))) (CHR ''0'')
       @ nat_to_string (nat (- i))
     else replicate (w - length (nat_to_string (nat i))) (CHR ''0'') @ nat_to_string (nat i))"

record tm =
  tm_year :: int
  tm_mon :: int
  tm_mday :: int
  tm_hour :: int
  tm_min :: int
  tm_sec :: int

record timestamp =
  microSecondsSinceEpoch :: int

text \<open>Division and remainder of C++ truncate towards zero.\<close>

definition ts_toString :: "(int \<Rightarrow> tm) \<Rightarrow> timestamp \<Rightarrow> string" where
  "ts_toString localtime ts =
     (let seconds = microSecondsSinceEpoch ts sdiv 1000000;
          microseconds = microSecondsSinceEpoch ts smod 1000000;
          t = localtime seconds
      in snprintf_at 64 [] 0 (fmt_d 4 (tm_year t + 1900) @ ''/'' @ fmt_0d 2 (tm_mon t + 1) @ ''/''
           @ fmt_0d 2 (tm_mday t) @ '' '' @ fmt_0d 2 (tm_hour t) @ '':'' @ fmt_0d 2 (tm_min t) @ '':''
           @ fmt_0d 2 (tm_sec t) @ ''.'' @ fmt_0d 6 microseconds))"

text \<open>The ranges C documents for the fields of \<^verbatim>\<open>tm\<close>.\<close>

definition tm_doc :: "tm \<Rightarrow> bool" where
  "tm_doc t \<longleftrightarrow> 0 \<le> tm_mon t \<and> tm_mon t \<le> 11 \<and>
     1 \<le> tm_mday t \<and> tm_mday t \<le> 31 \<and> 0 \<le> tm_hour t \<and> tm_hour t \<le> 23 \<and>
     0 \<le> tm_min t \<and> tm_min t \<le> 59 \<and> 0 \<le> tm_sec t \<and> tm_sec t \<le> 60"

section \<open>Logger\<close>

datatype log_level = DEBUG | INFO | ERROR | FATAL

primrec level_no :: "log_level \<Rightarrow> nat" where
  "level_no DEBUG = 0"
| "level_no INFO = 1"
| "level_no ERROR = 2"
| "level_no FATAL = 3"

record logger =
  logLevel :: log_level
  log_out :: "string list"

definition mk_logger :: logger where
  "mk_logger = \<lparr>logLevel = INFO, log_out = []\<rparr>"

definition setLogLevel :: "log_level \<Rightarrow> logger \<Rightarrow> logger" where
  "setLogLevel l lg = lg\<lparr>logLevel := l\<rparr>"

primrec log_prefix :: "log_level \<Rightarrow> string" where
  "log_prefix INFO = ''[INFO] ''"
| "log_prefix ERROR = ''[ERROR] ''"
| "log_prefix FATAL = ''[FATAL] ''"
| "log_prefix DEBUG = ''[DEBUG] ''"

text \<open>\<^verbatim>\<open>Logger::log\<close>; \<open>now\<close> is the printed time.\<close>

definition log_msg :: "string \<Rightarrow> log_level \<Rightarrow> string \<Rightarrow> logger \<Rightarrow> logger" where
  "log_msg now level msg lg =
     (if level_no level < level_no (logLevel lg) then lg
      else lg\<lparr>log_out := log_out lg @ [log_prefix level @ now @ '' : '' @ msg @ [CHR 0x0A]]\<rparr>)"

text \<open>
  The four macros, on the message already formatted: it is cut to the buffer, \<^verbatim>\<open>LOG_FATAL\<close> ends the
  process after writing, \<^verbatim>\<open>LOG_DEBUG\<close> is empty unless compiled with \<^verbatim>\<open>MUDEBUG\<close>.
\<close>

definition LOG :: "bool \<Rightarrow> string \<Rightarrow> log_level \<Rightarrow> string \<Rightarrow> logger \<Rightarrow> logger \<times> unit result" where
  "LOG MUDEBUG now level msg lg =
     (if level = DEBUG \<and> \<not> MUDEBUG then (lg, Inr ())
      else (let lg' = log_msg now level (snprintf_at 1024 [] 0 msg) lg in
            (lg', if level = FATAL then Inl ExitFatal else Inr ())))"

fun log_all :: "bool \<Rightarrow> (string \<times> log_level \<times> string) list \<Rightarrow> logger \<Rightarrow> logger \<times> unit result" where
  "log_all MUDEBUG [] lg = (lg, Inr ())"
| "log_all MUDEBUG ((now, level, msg) # xs) lg = (case LOG MUDEBUG now level msg lg of
      (lg', Inl e) \<Rightarrow> (lg', Inl e)
    | (lg', Inr _) \<Rightarrow> log_all MUDEBUG xs lg')"

section \<open>Lemmas\<close>

lemma length_fmt_0d: "0 \<le> i \<Longrightarrow> i < 10 ^ w \<Longrightarrow> 0 < w \<Longrightarrow> length (fmt_0d w i) = w"
proof -
  assume a: "0 \<le> i" "i < 10 ^ w" "0 < w"
  have "int (nat i) < int (10 ^ w)" using a by simp
  then have "nat i < 10 ^ w" by (simp only: of_nat_less_iff)
  then have "length (nat_to_string (nat i)) \<le> w" using a(3) by (intro nat_to_string_length)
  then show ?thesis using a by (simp add: fmt_0d_def)
qed

lemma string_value_zeros: "string_value (replicate n (CHR ''0'') @ s) = string_value s"
proof (induction n)
  case (Suc n)
  then show ?case by (simp add: string_value_def digit_value_def)
qed simp

lemma string_value_fmt_0d: "0 \<le> i \<Longrightarrow> string_value (fmt_0d w i) = nat i"
  by (simp add: fmt_0d_def string_value_zeros)

lemma nat_to_string_long: "10 ^ k \<le> n \<Longrightarrow> Suc k \<le> length (nat_to_string n)"
proof (induction k arbitrary: n)
  case 0
  then show ?case by (metis One_nat_def Suc_leI length_greater_0_conv nat_to_string_not_Nil)
next
  case (Suc k)
  have "(10 :: nat) \<le> 10 ^ Suc k" by simp
  then have "10 \<le> n" using Suc.prems by linarith
  moreover have "10 ^ k \<le> n div 10" using Suc.prems by (simp add: less_eq_div_iff_mult_less_eq mult.commute)
  ultimately show ?case using Suc.IH [of "n div 10"] by (subst nat_to_string.simps) simp
qed

text \<open>A year of at least four digits is printed as it is.\<close>

lemma fmt_d_year:
  assumes "1000 \<le> y" and "y \<le> int_max"
  shows "fmt_d 4 y = to_string y" and "string_value (to_string y) = nat y"
    and "length (to_string y) \<le> 10" and "y \<le> 9999 \<Longrightarrow> length (to_string y) = 4"
proof -
  have y: "to_string y = nat_to_string (nat y)" "10 ^ 3 \<le> nat y" "nat y < 10 ^ 10"
    using assms by (simp_all add: to_string_def int_max_def)
  have four: "4 \<le> length (nat_to_string (nat y))" using nat_to_string_long [OF y(2)] by simp
  then show "fmt_d 4 y = to_string y" by (simp add: fmt_d_def y(1))
  show "string_value (to_string y) = nat y" by (simp add: y(1))
  show "length (to_string y) \<le> 10" using nat_to_string_length [OF y(3)] by (simp add: y(1))
  show "length (to_string y) = 4" if "y \<le> 9999"
    using nat_to_string_length [of "nat y" 4] that four by (simp add: y(1))
qed

section \<open>Properties\<close>

text \<open>
  C32: the printed form of a time that is not before the epoch, in a local year of at least four digits
  (up to what an \<^verbatim>\<open>int\<close> holds). It is never cut by the buffer of 64 characters, and has 26 of them up to the
  year 9999. Every field reads back, where it is expected: behind the digits of the year come the month
  (counted from 1), the day, the hour, the minute, the second and the microseconds, with two digits each
  and six for the last, separated by two slashes, a space, two colons and a point.
\<close>

theorem timestamp_toString_fields:
  assumes "0 \<le> microSecondsSinceEpoch ts" and "tm_doc t" and "1000 \<le> tm_year t + 1900" and "tm_year t + 1900 \<le> int_max"
    and "t = localtime (microSecondsSinceEpoch ts div 1000000)" and "printed = ts_toString localtime ts"
    and "n = length printed - 22" and "r = drop n printed"
  shows "length printed < 64 \<and> (tm_year t + 1900 \<le> 9999 \<longrightarrow> length printed = 26) \<and> length r = 22 \<and>
    int (string_value (take n printed)) = tm_year t + 1900 \<and> int (string_value (take 2 (drop 1 r))) = tm_mon t + 1 \<and>
    int (string_value (take 2 (drop 4 r))) = tm_mday t \<and> int (string_value (take 2 (drop 7 r))) = tm_hour t \<and>
    int (string_value (take 2 (drop 10 r))) = tm_min t \<and> int (string_value (take 2 (drop 13 r))) = tm_sec t \<and>
    int (string_value (drop 16 r)) = microSecondsSinceEpoch ts mod 1000000 \<and>
    map ((!) r) [0, 3, 6, 9, 12, 15] = ''// ::.''"
proof -
  let ?us = "microSecondsSinceEpoch ts" and ?y = "to_string (tm_year t + 1900)"
  have d: "?us sdiv 1000000 = ?us div 1000000" "?us smod 1000000 = ?us mod 1000000"
    using assms(1) by (auto simp: signed_divide_int_def signed_modulo_int_def sgn_if)
  note f = assms(2) [unfolded tm_doc_def] and y = fmt_d_year [OF assms(3,4)]
  have two: "length (fmt_0d 2 i) = 2" if "0 \<le> i" "i < 100" for i
    using length_fmt_0d [of i 2] that by simp
  have l: "length (fmt_0d 2 (tm_mon t + 1)) = 2" "length (fmt_0d 2 (tm_mday t)) = 2"
    "length (fmt_0d 2 (tm_hour t)) = 2" "length (fmt_0d 2 (tm_min t)) = 2" "length (fmt_0d 2 (tm_sec t)) = 2"
    using f by (auto intro!: two)
  have u: "length (fmt_0d 6 (?us mod 1000000)) = 6" by (rule length_fmt_0d) simp_all
  define w where "w = ''/'' @ fmt_0d 2 (tm_mon t + 1) @ ''/'' @ fmt_0d 2 (tm_mday t) @ '' '' @ fmt_0d 2 (tm_hour t)
    @ '':'' @ fmt_0d 2 (tm_min t) @ '':'' @ fmt_0d 2 (tm_sec t) @ ''.'' @ fmt_0d 6 (?us mod 1000000)"
  have lw: "length w = 22" using l u by (simp add: w_def)
  have printed: "printed = ?y @ w"
    using y(1,3) l u by (simp add: assms(6) ts_toString_def Let_def d snprintf_at_def assms(5) [symmetric] w_def)
  have r: "r = w" "n = length ?y" using lw by (simp_all add: assms(7,8) printed)
  show ?thesis
    unfolding r printed using lw y(2-4) l u f assms(3) by (auto simp: w_def string_value_fmt_0d nth_append)
qed

definition sample_tm :: tm where
  "sample_tm = \<lparr>tm_year = 126, tm_mon = 0, tm_mday = 2, tm_hour = 3, tm_min = 4, tm_sec = 5\<rparr>"

theorem timestamp_toString_fields_witness:
  "ts_toString (\<lambda>_. sample_tm) \<lparr>microSecondsSinceEpoch = 1000042\<rparr> = ''2026/01/02 03:04:05.000042'' \<and>
   length (ts_toString (\<lambda>_. sample_tm) \<lparr>microSecondsSinceEpoch = 1000042\<rparr>) = 26 \<and>
   ts_toString (\<lambda>_. sample_tm) \<lparr>microSecondsSinceEpoch = -1000042\<rparr> = ''2026/01/02 03:04:05.-00042''"
proof -
  have "tm_doc sample_tm" "1000 \<le> tm_year sample_tm + 1900" "tm_year sample_tm + 1900 \<le> int_max" "tm_year sample_tm + 1900 \<le> 9999"
    by (simp_all add: tm_doc_def sample_tm_def int_max_def)
  then have "length (ts_toString (\<lambda>_. sample_tm) \<lparr>microSecondsSinceEpoch = 1000042\<rparr>) = 26"
    using timestamp_toString_fields [of "\<lparr>microSecondsSinceEpoch = 1000042\<rparr>" sample_tm "\<lambda>_. sample_tm"] by simp
  moreover have "ts_toString (\<lambda>_. sample_tm) \<lparr>microSecondsSinceEpoch = 1000042\<rparr> = ''2026/01/02 03:04:05.000042''"
    by code_simp
  moreover have "ts_toString (\<lambda>_. sample_tm) \<lparr>microSecondsSinceEpoch = -1000042\<rparr> = ''2026/01/02 03:04:05.-00042''"
    by code_simp
  ultimately show ?thesis by blast
qed

text \<open>
  C33: what the logger writes for a sequence of log statements: one line for each statement at or
  above the threshold up to and including the first fatal one, in order, with the message cut to
  1023 characters; the process ends exactly if there was a fatal statement, and its line is written
  whatever the threshold.
\<close>

theorem log_lines:
  "log_all dbg xs lg =
     (let ys = takeWhile (\<lambda>(now, l, m). l \<noteq> FATAL) xs;
          zs = take (Suc (length ys)) xs;
          shown = filter (\<lambda>(now, l, m). level_no (logLevel lg) \<le> level_no l \<and> (l = DEBUG \<longrightarrow> dbg)) zs
      in (lg\<lparr>log_out := log_out lg @ map (\<lambda>(now, l, m). log_prefix l @ now @ '' : '' @ take 1023 m @ [CHR 0x0A]) shown\<rparr>,
          if \<exists>(now, l, m) \<in> set xs. l = FATAL then Inl ExitFatal else Inr ())) \<and>
   level_no (logLevel lg) \<le> level_no FATAL"
proof -
  have "level_no l \<le> 3" for l by (cases l) simp_all
  then have top: "level_no (logLevel lg) \<le> level_no FATAL" by simp
  moreover have "log_all dbg xs lg =
     (let ys = takeWhile (\<lambda>(now, l, m). l \<noteq> FATAL) xs;
          zs = take (Suc (length ys)) xs;
          shown = filter (\<lambda>(now, l, m). level_no (logLevel lg) \<le> level_no l \<and> (l = DEBUG \<longrightarrow> dbg)) zs
      in (lg\<lparr>log_out := log_out lg @ map (\<lambda>(now, l, m). log_prefix l @ now @ '' : '' @ take 1023 m @ [CHR 0x0A]) shown\<rparr>,
          if \<exists>(now, l, m) \<in> set xs. l = FATAL then Inl ExitFatal else Inr ()))"
    using top
  proof (induction xs arbitrary: lg)
    case Nil
    then show ?case by simp
  next
    case (Cons x xs)
    obtain now l m where x: "x = (now, l, m)" by (cases x)
    show ?case
    proof (cases "l = FATAL")
      case True
      then show ?thesis using Cons.prems by (simp add: x LOG_def log_msg_def snprintf_at_def)
    next
      case False
      define lg1 where "lg1 = fst (LOG dbg now l m lg)"
      have s: "snd (LOG dbg now l m lg) = Inr ()" using False by (simp add: LOG_def Let_def)
      have lv: "logLevel lg1 = logLevel lg" by (simp add: lg1_def LOG_def log_msg_def Let_def)
      have out: "lg1 = lg\<lparr>log_out := log_out lg @ (if level_no (logLevel lg) \<le> level_no l \<and> (l = DEBUG \<longrightarrow> dbg)
          then [log_prefix l @ now @ '' : '' @ take 1023 m @ [CHR 0x0A]] else [])\<rparr>"
        by (auto simp: lg1_def LOG_def log_msg_def Let_def snprintf_at_def)
      have "log_all dbg (x # xs) lg = log_all dbg xs lg1"
        using s by (cases "LOG dbg now l m lg") (simp add: x lg1_def)
      moreover have "level_no (logLevel lg1) \<le> level_no FATAL" using Cons.prems lv by simp
      ultimately show ?thesis using Cons.IH [of lg1] False
        by (simp add: x Let_def lv) (simp add: out)
    qed
  qed
  ultimately show ?thesis by blast
qed

theorem log_lines_witness:
  "log_all False [(''t'', INFO, ''a''), (''t'', DEBUG, ''b''), (''t'', FATAL, ''c''), (''t'', INFO, ''d'')]
     (setLogLevel ERROR mk_logger) =
   (\<lparr>logLevel = ERROR, log_out = [''[FATAL] t : c'' @ [CHR 0x0A]]\<rparr>, Inl ExitFatal)"
  using log_lines [of False "[(''t'', INFO, ''a''), (''t'', DEBUG, ''b''), (''t'', FATAL, ''c''), (''t'', INFO, ''d'')]"
    "setLogLevel ERROR mk_logger"]
  by (simp add: setLogLevel_def mk_logger_def)

end
