(* ===== verification/Socket.thy ===== *)
theory Socket
  imports Kernel InetAddress
begin

text \<open>
  \<^verbatim>\<open>src/Socket.cc\<close>: the wrapper of a socket descriptor. The options set on the socket are part of its
  state. What \<^verbatim>\<open>bind\<close> and \<^verbatim>\<open>accept4\<close> return are arguments of the operations that call them; \<^verbatim>\<open>listen\<close>
  and \<^verbatim>\<open>shutdown\<close> are calls of the kernel record.
\<close>

section \<open>State and operations\<close>

datatype sockopt = TCP_NODELAY | SO_REUSEADDR | SO_REUSEPORT | SO_KEEPALIVE

record socket =
  sockfd :: int
  sockopts :: "sockopt \<Rightarrow> int option"
  sock_closed :: bool

definition mk_socket :: "int \<Rightarrow> socket" where
  "mk_socket fd = \<lparr>sockfd = fd, sockopts = (\<lambda>_. None), sock_closed = False\<rparr>"

definition destroy_socket :: "socket \<Rightarrow> socket" where
  "destroy_socket s = s\<lparr>sock_closed := True\<rparr>"

definition setsockopt :: "sockopt \<Rightarrow> int \<Rightarrow> socket \<Rightarrow> socket" where
  "setsockopt opt optval s = s\<lparr>sockopts := (sockopts s)(opt \<mapsto> optval)\<rparr>"

definition setTcpNoDelay :: "bool \<Rightarrow> socket \<Rightarrow> socket" where
  "setTcpNoDelay on s = setsockopt TCP_NODELAY (if on then 1 else 0) s"

definition setReuseAddr :: "bool \<Rightarrow> socket \<Rightarrow> socket" where
  "setReuseAddr on s = setsockopt SO_REUSEADDR (if on then 1 else 0) s"

definition setReusePort :: "bool \<Rightarrow> socket \<Rightarrow> socket" where
  "setReusePort on s = setsockopt SO_REUSEPORT (if on then 1 else 0) s"

definition setKeepAlive :: "bool \<Rightarrow> socket \<Rightarrow> socket" where
  "setKeepAlive on s = setsockopt SO_KEEPALIVE (if on then 1 else 0) s"

definition bindAddress :: "int \<Rightarrow> socket \<Rightarrow> socket result" where
  "bindAddress bind_ret s = (if bind_ret \<noteq> 0 then Inl ExitFatal else Inr s)"

definition listen_socket :: "'k kernel \<Rightarrow> 'k \<Rightarrow> socket \<Rightarrow> 'k result" where
  "listen_socket K k s = (case sock_listen K k (sockfd s) of (k', ret) \<Rightarrow>
     if ret \<noteq> 0 then Inl ExitFatal else Inr k')"

text \<open>Outcome of \<^verbatim>\<open>accept4\<close>; the peer's address is stored only on success.\<close>

datatype accept_out = AcceptErr int | AcceptOk int inet_address

definition accept_socket :: "accept_out \<Rightarrow> inet_address \<Rightarrow> int \<times> inet_address" where
  "accept_socket out peeraddr = (case out of
      AcceptErr e \<Rightarrow> (-1, peeraddr)
    | AcceptOk connfd addr \<Rightarrow> if 0 \<le> connfd then (connfd, setSockAddr addr peeraddr) else (connfd, peeraddr))"

definition shutdownWrite :: "'k kernel \<Rightarrow> 'k \<Rightarrow> socket \<Rightarrow> 'k" where
  "shutdownWrite K k s = fst (sock_shutdown K k (sockfd s))"

lemma shutdownWrite_fst [simp]: "shutdownWrite K k s = fst (sock_shutdown K k (sockfd s))"
  by (simp add: shutdownWrite_def)

lemma socket_opt_sel [simp]:
  "sockfd (mk_socket fd) = fd"
  "sockfd (setsockopt opt v s) = sockfd s"
  "sockfd (setKeepAlive on s) = sockfd s"
  "sockfd (setReuseAddr on s) = sockfd s"
  "sockfd (setReusePort on s) = sockfd s"
  "sockfd (setTcpNoDelay on s) = sockfd s"
  by (simp_all add: mk_socket_def setsockopt_def setKeepAlive_def setReuseAddr_def setReusePort_def setTcpNoDelay_def)

end
