(* ===== verification/TcpConnection.thy ===== *)
theory TcpConnection
  imports EventLoop Logging Socket
begin

text \<open>
  \<^verbatim>\<open>include/TcpConnection.h\<close>, \<^verbatim>\<open>src/TcpConnection.cc\<close> and \<^verbatim>\<open>include/Callbacks.h\<close>: one connection together
  with the event loop that owns it. The lambdas the code queues in a loop are the constructors of a
  datatype of functors, each with the connection it captured. User callbacks are parameters: what
  the user's code does with the connection it is given is a list of calls of the connection's public
  interface, computed from the connection's state. The close callback, which belongs to the server,
  is a parameter too.
\<close>

section \<open>State\<close>

datatype state_e = kDisconnected | kConnecting | kConnected | kDisconnecting

datatype functor_t =
    SendInLoop nat string
  | SendBufInLoop nat buffer
  | ShutdownInLoop nat
  | SendFileInLoop nat int nat nat
  | WriteCompleteF nat
  | HighWaterMarkF nat nat
  | ConnectEstablishedF nat
  | ConnectDestroyedF nat
  | RemoveConnectionInLoopF nat
  | AcceptorListenF
  | UserFunctor nat

text \<open>
  \<open>objId\<close> is the identity of the object (what its shared pointers point to), \<open>loopId\<close> that of its
  loop. Of the two optional callbacks only their presence is part of the connection.
\<close>

record tcpconn =
  objId :: nat
  loopId :: nat
  connName :: string
  stateC :: state_e
  reading :: bool
  socketC :: socket
  channelP :: chan_ptr
  localAddr :: inet_address
  peerAddr :: inet_address
  hasWriteComplete :: bool
  hasHighWaterMark :: bool
  highWaterMark :: nat
  inputBuffer :: buffer
  outputBuffer :: buffer

abbreviation socketFd :: "tcpconn \<Rightarrow> int" where
  "socketFd c \<equiv> sockfd (socketC c)"

record 'k tcp =
  conn :: tcpconn
  ioLoop :: "('k, functor_t) eventloop"

text \<open>Calls a user callback makes on the connection it is given.\<close>

datatype user_op =
    USend string
  | USendInput
  | USendFile int nat nat
  | UShutdown
  | URetrieve nat
  | URetrieveAll
  | USetTcpNoDelay bool
  | USetHighWaterMark nat

record user_callbacks =
  onConnection :: "tcpconn \<Rightarrow> user_op list"
  onMessage :: "tcpconn \<Rightarrow> user_op list"
  onWriteComplete :: "tcpconn \<Rightarrow> user_op list"
  onHighWaterMark :: "tcpconn \<Rightarrow> nat \<Rightarrow> user_op list"

definition set_conn :: "tcpconn \<Rightarrow> ('k, 'z) tcp_scheme \<Rightarrow> ('k, 'z) tcp_scheme" where
  "set_conn c s = s\<lparr>conn := c\<rparr>"

definition setState :: "state_e \<Rightarrow> ('k, 'z) tcp_scheme \<Rightarrow> ('k, 'z) tcp_scheme" where
  "setState st s = s\<lparr>conn := (conn s)\<lparr>stateC := st\<rparr>\<rparr>"

text \<open>An operation of the loop on the loop of a connection.\<close>

definition on_loop :: "(('k, functor_t) eventloop \<Rightarrow> ('k, functor_t) eventloop result) \<Rightarrow>
    ('k, 'z) tcp_scheme \<Rightarrow> ('k, 'z) tcp_scheme result" where
  "on_loop f s = bind_r (f (ioLoop s)) (\<lambda>L. Inr (s\<lparr>ioLoop := L\<rparr>))"

definition queue_c :: "'k kernel \<Rightarrow> int \<Rightarrow> functor_t \<Rightarrow> ('k, 'z) tcp_scheme \<Rightarrow> ('k, 'z) tcp_scheme" where
  "queue_c K t f s = s\<lparr>ioLoop := queueInLoop K t f (ioLoop s)\<rparr>"

definition chan_of :: "('k, 'z) tcp_scheme \<Rightarrow> channel result" where
  "chan_of s = deref (channelP (conn s)) (ioLoop s)"

section \<open>Operations\<close>

definition CheckLoopNotNull :: "nat option \<Rightarrow> nat result" where
  "CheckLoopNotNull loopP = (case loopP of None \<Rightarrow> Inl ExitFatal | Some l \<Rightarrow> Inr l)"

definition mk_tcpconn :: "nat \<Rightarrow> nat option \<Rightarrow> string \<Rightarrow> int \<Rightarrow> chan_ptr \<Rightarrow> inet_address \<Rightarrow> inet_address \<Rightarrow>
    ('k, functor_t) eventloop \<Rightarrow> 'k tcp result" where
  "mk_tcpconn obj loopP nm fd p lo pe L = bind_r (CheckLoopNotNull loopP) (\<lambda>l.
     bind_r (mk_buffer kInitialSize) (\<lambda>ib. bind_r (mk_buffer kInitialSize) (\<lambda>ob.
       Inr \<lparr>conn = \<lparr>objId = obj, loopId = l, connName = nm, stateC = kConnecting, reading = True,
          socketC = setKeepAlive True (mk_socket fd), channelP = p, localAddr = lo, peerAddr = pe,
          hasWriteComplete = False, hasHighWaterMark = False, highWaterMark = 64 * 1024 * 1024,
          inputBuffer = ib, outputBuffer = ob\<rparr>,
        ioLoop = set_chan p (setErrorCallback (setCloseCallback (setWriteCallback
          (setReadCallback (mk_channel fd))))) L\<rparr>)))"

definition connected :: "tcpconn \<Rightarrow> bool" where
  "connected c \<longleftrightarrow> stateC c = kConnected"

definition conn_setTcpNoDelay :: "bool \<Rightarrow> tcpconn \<Rightarrow> tcpconn" where
  "conn_setTcpNoDelay on c = c\<lparr>socketC := setTcpNoDelay on (socketC c)\<rparr>"

definition setWriteCompleteCallback :: "bool \<Rightarrow> tcpconn \<Rightarrow> tcpconn" where
  "setWriteCompleteCallback cb c = c\<lparr>hasWriteComplete := cb\<rparr>"

definition setHighWaterMarkCallback :: "bool \<Rightarrow> nat \<Rightarrow> tcpconn \<Rightarrow> tcpconn" where
  "setHighWaterMarkCallback cb n c = c\<lparr>hasHighWaterMark := cb, highWaterMark := n\<rparr>"

text \<open>The second half of \<^verbatim>\<open>sendInLoop\<close>: what the first write did not take.\<close>

definition sendRest :: "'k kernel \<Rightarrow> int \<Rightarrow> string \<Rightarrow> bool \<Rightarrow> ('k, 'z) tcp_scheme \<Rightarrow>
    ('k, 'z) tcp_scheme result" where
  "sendRest K t rest faultError s =
     (if \<not> faultError \<and> 0 < length rest
      then (let c = conn s; oldLen = readableBytes (outputBuffer c);
                s1 = (if highWaterMark c \<le> sz_add oldLen (length rest) \<and> oldLen < highWaterMark c \<and>
                        hasHighWaterMark c
                      then queue_c K t (HighWaterMarkF (objId c) (sz_add oldLen (length rest))) s else s)
            in bind_r (append_b rest (outputBuffer c)) (\<lambda>b.
               let s2 = s1\<lparr>conn := c\<lparr>outputBuffer := b\<rparr>\<rparr> in
               bind_r (chan_of s2) (\<lambda>ch.
                 if \<not> isWriting ch then on_loop (enableWriting K (channelP c)) s2 else Inr s2)))
      else Inr s)"

definition sendInLoop :: "'k kernel \<Rightarrow> int \<Rightarrow> string \<Rightarrow> ('k, 'z) tcp_scheme \<Rightarrow>
    ('k, 'z) tcp_scheme result" where
  "sendInLoop K t d s =
     (if stateC (conn s) = kDisconnected then Inr s
      else bind_r (chan_of s) (\<lambda>ch.
        if \<not> isWriting ch \<and> readableBytes (outputBuffer (conn s)) = 0
        then (case sock_write K (kst (ioLoop s)) (ch_fd ch) d of (k', out) \<Rightarrow>
          let s1 = s\<lparr>ioLoop := (ioLoop s)\<lparr>kst := k'\<rparr>\<rparr> in
          (case out of
             WriteOk nwrote \<Rightarrow>
               let remaining = length d - nwrote in
               sendRest K t (drop nwrote d) False
                 (if remaining = 0 \<and> hasWriteComplete (conn s)
                  then queue_c K t (WriteCompleteF (objId (conn s))) s1 else s1)
           | WriteErr e \<Rightarrow>
               sendRest K t d (e \<noteq> EWOULDBLOCK \<and> (e = EPIPE \<or> e = ECONNRESET)) s1))
        else sendRest K t d False s))"

text \<open>
  \<^verbatim>\<open>EventLoop::runInLoop\<close> for a functor of a connection: called at once in the loop's thread, queued
  otherwise.
\<close>

definition runInLoop_c :: "'k kernel \<Rightarrow> int \<Rightarrow> (('k, 'z) tcp_scheme \<Rightarrow> ('k, 'z) tcp_scheme result) \<Rightarrow>
    functor_t \<Rightarrow> ('k, 'z) tcp_scheme \<Rightarrow> ('k, 'z) tcp_scheme result" where
  "runInLoop_c K t run cb s =
     (if isInLoopThread t (ioLoop s) then run s else Inr (queue_c K t cb s))"

definition send :: "'k kernel \<Rightarrow> int \<Rightarrow> string \<Rightarrow> ('k, 'z) tcp_scheme \<Rightarrow> ('k, 'z) tcp_scheme result" where
  "send K t msg s =
     (if stateC (conn s) = kConnected
      then (if isInLoopThread t (ioLoop s) then sendInLoop K t msg s
            else runInLoop_c K t (sendInLoop K t msg) (SendInLoop (objId (conn s)) msg) s)
      else Inr s)"

text \<open>\<^verbatim>\<open>send(const void*, size_t)\<close>: the first \<open>len\<close> bytes at the address.\<close>

abbreviation send_raw :: "'k kernel \<Rightarrow> int \<Rightarrow> string \<Rightarrow> nat \<Rightarrow> ('k, 'z) tcp_scheme \<Rightarrow> ('k, 'z) tcp_scheme result" where
  "send_raw K t data len s \<equiv> send K t (take len data) s"

text \<open>\<^verbatim>\<open>send(Buffer*)\<close>; the second component is the caller's buffer afterwards.\<close>

definition sendBuf :: "'k kernel \<Rightarrow> int \<Rightarrow> buffer \<Rightarrow> ('k, 'z) tcp_scheme \<Rightarrow>
    (('k, 'z) tcp_scheme \<times> buffer) result" where
  "sendBuf K t b s =
     (if stateC (conn s) = kConnected
      then (if isInLoopThread t (ioLoop s)
            then bind_r (peek (readableBytes b) b) (\<lambda>d. bind_r (sendInLoop K t d s) (\<lambda>s'.
              Inr (s', retrieveAll b)))
            else bind_r (mk_buffer kInitialSize) (\<lambda>tempBuf.
              (case swap_b tempBuf b of (tempBuf', b') \<Rightarrow>
                bind_r (runInLoop_c K t (\<lambda>s. bind_r (peek (readableBytes tempBuf') tempBuf')
                    (\<lambda>d. sendInLoop K t d s)) (SendBufInLoop (objId (conn s)) tempBuf') s)
                  (\<lambda>s'. Inr (s', b')))))
      else Inr (s, b))"

definition shutdownInLoop :: "'k kernel \<Rightarrow> ('k, 'z) tcp_scheme \<Rightarrow> ('k, 'z) tcp_scheme result" where
  "shutdownInLoop K s = bind_r (chan_of s) (\<lambda>ch.
     if \<not> isWriting ch
     then Inr (s\<lparr>ioLoop := (ioLoop s)\<lparr>kst := shutdownWrite K (kst (ioLoop s)) (socketC (conn s))\<rparr>\<rparr>)
     else Inr s)"

definition shutdown :: "'k kernel \<Rightarrow> int \<Rightarrow> ('k, 'z) tcp_scheme \<Rightarrow> ('k, 'z) tcp_scheme result" where
  "shutdown K t s =
     (if stateC (conn s) = kConnected
      then runInLoop_c K t (shutdownInLoop K) (ShutdownInLoop (objId (conn s))) (setState kDisconnecting s)
      else Inr s)"

definition sendFileInLoop :: "'k kernel \<Rightarrow> int \<Rightarrow> int \<Rightarrow> nat \<Rightarrow> nat \<Rightarrow> ('k, 'z) tcp_scheme \<Rightarrow>
    ('k, 'z) tcp_scheme result" where
  "sendFileInLoop K t f off count s =
     (if stateC (conn s) = kDisconnecting then Inr s
      else bind_r (chan_of s) (\<lambda>ch.
        let again = (\<lambda>off remaining s. queue_c K t (SendFileInLoop (objId (conn s)) f off remaining) s) in
        if \<not> isWriting ch \<and> readableBytes (outputBuffer (conn s)) = 0
        then (case sock_sendfile K (kst (ioLoop s)) (socketFd (conn s)) f off count of (k', out) \<Rightarrow>
          let s1 = s\<lparr>ioLoop := (ioLoop s)\<lparr>kst := k'\<rparr>\<rparr> in
          (case out of
             WriteOk n \<Rightarrow>
               let remaining = count - n;
                   s2 = (if remaining = 0 \<and> hasWriteComplete (conn s)
                         then queue_c K t (WriteCompleteF (objId (conn s))) s1 else s1)
               in Inr (if 0 < remaining then again (off + n) remaining s2 else s2)
           | WriteErr e \<Rightarrow>
               Inr (if \<not> (e = EPIPE \<or> e = ECONNRESET) \<and> 0 < count then again off count s1 else s1)))
        else Inr (if 0 < count then again off count s else s)))"

definition sendFile :: "'k kernel \<Rightarrow> int \<Rightarrow> int \<Rightarrow> nat \<Rightarrow> nat \<Rightarrow> ('k, 'z) tcp_scheme \<Rightarrow>
    ('k, 'z) tcp_scheme result" where
  "sendFile K t f off count s =
     (if connected (conn s)
      then (if isInLoopThread t (ioLoop s) then sendFileInLoop K t f off count s
            else runInLoop_c K t (sendFileInLoop K t f off count)
              (SendFileInLoop (objId (conn s)) f off count) s)
      else Inr s)"

text \<open>Running a user callback: its calls, one after the other.\<close>

definition do_user_op :: "'k kernel \<Rightarrow> int \<Rightarrow> user_op \<Rightarrow> ('k, 'z) tcp_scheme \<Rightarrow>
    ('k, 'z) tcp_scheme result" where
  "do_user_op K t oper s = (case oper of
      USend msg \<Rightarrow> send K t msg s
    | USendInput \<Rightarrow> bind_r (sendBuf K t (inputBuffer (conn s)) s)
        (\<lambda>(s', b). Inr (s'\<lparr>conn := (conn s')\<lparr>inputBuffer := b\<rparr>\<rparr>))
    | USendFile f off count \<Rightarrow> sendFile K t f off count s
    | UShutdown \<Rightarrow> shutdown K t s
    | URetrieve n \<Rightarrow> Inr (s\<lparr>conn := (conn s)\<lparr>inputBuffer := retrieve n (inputBuffer (conn s))\<rparr>\<rparr>)
    | URetrieveAll \<Rightarrow> Inr (s\<lparr>conn := (conn s)\<lparr>inputBuffer := retrieveAll (inputBuffer (conn s))\<rparr>\<rparr>)
    | USetTcpNoDelay on \<Rightarrow> Inr (s\<lparr>conn := conn_setTcpNoDelay on (conn s)\<rparr>)
    | USetHighWaterMark n \<Rightarrow> Inr (s\<lparr>conn := setHighWaterMarkCallback True n (conn s)\<rparr>))"

definition user :: "'k kernel \<Rightarrow> int \<Rightarrow> (tcpconn \<Rightarrow> user_op list) \<Rightarrow> ('k, 'z) tcp_scheme \<Rightarrow>
    ('k, 'z) tcp_scheme result" where
  "user K t cb s = run_each (do_user_op K t) (cb (conn s)) s"

definition connectEstablished :: "'k kernel \<Rightarrow> int \<Rightarrow> user_callbacks \<Rightarrow> ('k, 'z) tcp_scheme \<Rightarrow>
    ('k, 'z) tcp_scheme result" where
  "connectEstablished K t U s = (let s1 = setState kConnected s in
     bind_r (chan_of s1) (\<lambda>ch.
       bind_r (on_loop (\<lambda>L. enableReading K (channelP (conn s1))
                 (set_chan (channelP (conn s1)) (tie (objId (conn s1)) ch) L)) s1)
         (user K t (onConnection U))))"

definition connectDestroyed :: "'k kernel \<Rightarrow> int \<Rightarrow> user_callbacks \<Rightarrow> ('k, 'z) tcp_scheme \<Rightarrow>
    ('k, 'z) tcp_scheme result" where
  "connectDestroyed K t U s =
     bind_r (if stateC (conn s) = kConnected
             then bind_r (on_loop (disableAll K (channelP (conn s))) (setState kDisconnected s))
                    (user K t (onConnection U))
             else Inr s)
       (\<lambda>s'. on_loop (channel_remove K (channelP (conn s'))) s')"

definition handleClose :: "'k kernel \<Rightarrow> int \<Rightarrow> user_callbacks \<Rightarrow>
    (('k, 'z) tcp_scheme \<Rightarrow> ('k, 'z) tcp_scheme result) \<Rightarrow> ('k, 'z) tcp_scheme \<Rightarrow>
    ('k, 'z) tcp_scheme result" where
  "handleClose K t U closeCb s =
     bind_r (on_loop (disableAll K (channelP (conn s))) (setState kDisconnected s)) (\<lambda>s1.
       bind_r (user K t (onConnection U) s1) closeCb)"

text \<open>\<^verbatim>\<open>handleError\<close> reads the pending socket error and logs it.\<close>

definition handleError :: "'k kernel \<Rightarrow> ('k, 'z) tcp_scheme \<Rightarrow> int \<times> ('k, 'z) tcp_scheme" where
  "handleError K s = (sock_error K (kst (ioLoop s)) (socketFd (conn s)), s)"

definition handleRead :: "'k kernel \<Rightarrow> int \<Rightarrow> user_callbacks \<Rightarrow>
    (('k, 'z) tcp_scheme \<Rightarrow> ('k, 'z) tcp_scheme result) \<Rightarrow> ('k, 'z) tcp_scheme \<Rightarrow>
    ('k, 'z) tcp_scheme result" where
  "handleRead K t U closeCb s = bind_r (chan_of s) (\<lambda>ch.
     (case sock_readv K (kst (ioLoop s)) (ch_fd ch) (readFd_iov (inputBuffer (conn s))) of (k', out) \<Rightarrow>
        let s1 = s\<lparr>ioLoop := (ioLoop s)\<lparr>kst := k'\<rparr>\<rparr> in
        bind_r (readFd (\<lambda>_. out) (inputBuffer (conn s))) (\<lambda>(b, n, savedErrno).
          let s2 = s1\<lparr>conn := (conn s)\<lparr>inputBuffer := b\<rparr>\<rparr> in
          if 0 < n then user K t (onMessage U) s2
          else if n = 0 then handleClose K t U closeCb s2
          else Inr (snd (handleError K s2)))))"

definition handleWrite :: "'k kernel \<Rightarrow> int \<Rightarrow> ('k, 'z) tcp_scheme \<Rightarrow> ('k, 'z) tcp_scheme result" where
  "handleWrite K t s = bind_r (chan_of s) (\<lambda>ch.
     if isWriting ch then
       (let ob = outputBuffer (conn s) in
        bind_r (peek (readableBytes ob) ob) (\<lambda>d.
        case sock_write K (kst (ioLoop s)) (ch_fd ch) d of (k', out) \<Rightarrow>
          let s1 = s\<lparr>ioLoop := (ioLoop s)\<lparr>kst := k'\<rparr>\<rparr> in
          bind_r (writeFd (\<lambda>_. out) ob) (\<lambda>(n, savedErrno).
            if 0 < n then
              (let s2 = s1\<lparr>conn := (conn s)\<lparr>outputBuffer := retrieve (nat n) ob\<rparr>\<rparr> in
               if readableBytes (outputBuffer (conn s2)) = 0
               then bind_r (on_loop (disableWriting K (channelP (conn s2))) s2) (\<lambda>s3.
                 let s4 = (if hasWriteComplete (conn s3)
                           then queue_c K t (WriteCompleteF (objId (conn s3))) s3 else s3)
                 in if stateC (conn s4) = kDisconnecting then shutdownInLoop K s4 else Inr s4)
               else Inr s2)
            else Inr s1)))
     else Inr s)"

text \<open>The functors of a connection, when the loop calls them, and its channel's callbacks.\<close>

definition run_functor :: "'k kernel \<Rightarrow> int \<Rightarrow> user_callbacks \<Rightarrow> functor_t \<Rightarrow> ('k, 'z) tcp_scheme \<Rightarrow>
    ('k, 'z) tcp_scheme result" where
  "run_functor K t U f s = (case f of
      SendInLoop c msg \<Rightarrow> sendInLoop K t msg s
    | SendBufInLoop c b \<Rightarrow> bind_r (peek (readableBytes b) b) (\<lambda>d. sendInLoop K t d s)
    | ShutdownInLoop c \<Rightarrow> shutdownInLoop K s
    | SendFileInLoop c fl off count \<Rightarrow> sendFileInLoop K t fl off count s
    | WriteCompleteF c \<Rightarrow> user K t (onWriteComplete U) s
    | HighWaterMarkF c n \<Rightarrow> user K t (\<lambda>c. onHighWaterMark U c n) s
    | ConnectEstablishedF c \<Rightarrow> connectEstablished K t U s
    | ConnectDestroyedF c \<Rightarrow> connectDestroyed K t U s
    | _ \<Rightarrow> Inr s)"

definition run_callback :: "'k kernel \<Rightarrow> int \<Rightarrow> user_callbacks \<Rightarrow>
    (('k, 'z) tcp_scheme \<Rightarrow> ('k, 'z) tcp_scheme result) \<Rightarrow> channel_callback \<Rightarrow>
    ('k, 'z) tcp_scheme \<Rightarrow> ('k, 'z) tcp_scheme result" where
  "run_callback K t U closeCb cb s = (case cb of
      CloseCallback \<Rightarrow> handleClose K t U closeCb s
    | ErrorCallback \<Rightarrow> Inr (snd (handleError K s))
    | ReadCallback \<Rightarrow> handleRead K t U closeCb s
    | WriteCallback \<Rightarrow> handleWrite K t s)"

section \<open>Invariant and frame\<close>

text \<open>The channel of a connection, whether it waits to write, and the bytes that left or will leave.\<close>

definition c_chan :: "('k, 'z) tcp_scheme \<Rightarrow> channel option" where
  "c_chan s = chans (ioLoop s) (channelP (conn s))"

definition writing :: "('k, 'z) tcp_scheme \<Rightarrow> bool" where
  "writing s \<longleftrightarrow> (case c_chan s of None \<Rightarrow> False | Some ch \<Rightarrow> isWriting ch)"

definition c_sent :: "'k kernel \<Rightarrow> ('k, 'z) tcp_scheme \<Rightarrow> string" where
  "c_sent K s = sent K (kst (ioLoop s)) (socketFd (conn s))"

definition c_fin :: "'k kernel \<Rightarrow> ('k, 'z) tcp_scheme \<Rightarrow> bool" where
  "c_fin K s = wr_shut K (kst (ioLoop s)) (socketFd (conn s))"

definition out_stream :: "'k kernel \<Rightarrow> ('k, 'z) tcp_scheme \<Rightarrow> string" where
  "out_stream K s = c_sent K s @ content (outputBuffer (conn s))"

definition conn_base :: "'k kernel \<Rightarrow> ('k, 'z) tcp_scheme \<Rightarrow> bool" where
  "conn_base K s \<longleftrightarrow> buffer_wf (inputBuffer (conn s)) \<and> buffer_wf (outputBuffer (conn s)) \<and>
     reactor_wf K (ioLoop s) \<and> fd_free (ioLoop s) (channelP (conn s)) \<and>
     (\<exists>ch. c_chan s = Some ch \<and> ch_fd ch = socketFd (conn s))"

text \<open>
  The invariant of a connection: until it is closed, its channel waits for \<^verbatim>\<open>EPOLLOUT\<close> exactly while
  the output buffer holds something.
\<close>

definition conn_inv :: "'k kernel \<Rightarrow> ('k, 'z) tcp_scheme \<Rightarrow> bool" where
  "conn_inv K s \<longleftrightarrow> conn_base K s \<and>
     (if stateC (conn s) = kDisconnected then \<not> writing s
      else (writing s \<longleftrightarrow> content (outputBuffer (conn s)) \<noteq> []))"

primrec functor_conn :: "functor_t \<Rightarrow> nat option" where
  "functor_conn (SendInLoop c m) = Some c"
| "functor_conn (SendBufInLoop c b) = Some c"
| "functor_conn (ShutdownInLoop c) = Some c"
| "functor_conn (SendFileInLoop c f off n) = Some c"
| "functor_conn (WriteCompleteF c) = Some c"
| "functor_conn (HighWaterMarkF c n) = Some c"
| "functor_conn (ConnectEstablishedF c) = Some c"
| "functor_conn (ConnectDestroyedF c) = Some c"
| "functor_conn (RemoveConnectionInLoopF c) = Some c"
| "functor_conn AcceptorListenF = None"
| "functor_conn (UserFunctor n) = None"

text \<open>The functors a connection queues for itself.\<close>

primrec own_functor :: "nat \<Rightarrow> functor_t \<Rightarrow> bool" where
  "own_functor obj (SendInLoop c m) \<longleftrightarrow> c = obj \<and> length m \<le> vec_max_size"
| "own_functor obj (SendBufInLoop c b) \<longleftrightarrow> c = obj \<and> buffer_wf b"
| "own_functor obj (ShutdownInLoop c) \<longleftrightarrow> c = obj"
| "own_functor obj (SendFileInLoop c f off n) \<longleftrightarrow> c = obj"
| "own_functor obj (WriteCompleteF c) \<longleftrightarrow> c = obj"
| "own_functor obj (HighWaterMarkF c n) \<longleftrightarrow> c = obj"
| "own_functor obj (ConnectEstablishedF c) \<longleftrightarrow> False"
| "own_functor obj (ConnectDestroyedF c) \<longleftrightarrow> False"
| "own_functor obj (RemoveConnectionInLoopF c) \<longleftrightarrow> False"
| "own_functor obj AcceptorListenF \<longleftrightarrow> False"
| "own_functor obj (UserFunctor n) \<longleftrightarrow> False"

text \<open>
  What an operation of a connection leaves alone: the connection's identity, every other channel and
  descriptor, and the functors pending already; those it adds belong to the connection.
\<close>

definition fixed_part :: "tcpconn \<Rightarrow> tcpconn" where
  "fixed_part c = c\<lparr>stateC := kConnecting, inputBuffer := \<lparr>bufferV = [], readerIndex = 0, writerIndex = 0\<rparr>,
     outputBuffer := \<lparr>bufferV = [], readerIndex = 0, writerIndex = 0\<rparr>,
     socketC := mk_socket (socketFd c), hasHighWaterMark := False, highWaterMark := 0\<rparr>"

definition loop_frame :: "'k kernel \<Rightarrow> nat \<Rightarrow> chan_ptr \<Rightarrow> int \<Rightarrow> ('k, functor_t) eventloop \<Rightarrow>
    ('k, functor_t) eventloop \<Rightarrow> bool" where
  "loop_frame K obj p fd L L' \<longleftrightarrow>
     threadId L' = threadId L \<and> callingPendingFunctors L' = callingPendingFunctors L \<and>
     wakeupFd L' = wakeupFd L \<and> wakeupChannel L' = wakeupChannel L \<and> quitF L' = quitF L \<and>
     (\<forall>q. q \<noteq> p \<longrightarrow> chans L' q = chans L q) \<and>
     (\<forall>x. x \<noteq> fd \<longrightarrow> sent K (kst L') x = sent K (kst L) x \<and>
        wr_shut K (kst L') x = wr_shut K (kst L) x \<and> channelsM L' x = channelsM L x \<and>
        interest K (kst L') x = interest K (kst L) x) \<and>
     file_data K (kst L') = file_data K (kst L) \<and>
     (\<exists>fs. pendingFunctors L' = pendingFunctors L @ fs \<and> (\<forall>f \<in> set fs. own_functor obj f))"

definition conn_frame :: "'k kernel \<Rightarrow> ('k, 'z) tcp_scheme \<Rightarrow> ('k, 'z) tcp_scheme \<Rightarrow> bool" where
  "conn_frame K s s' \<longleftrightarrow> fixed_part (conn s') = fixed_part (conn s) \<and> tcp.more s' = tcp.more s \<and>
     loop_frame K (objId (conn s)) (channelP (conn s)) (socketFd (conn s)) (ioLoop s) (ioLoop s')"

lemma fixed_partD:
  assumes "fixed_part c' = fixed_part c"
  shows "objId c' = objId c" and "loopId c' = loopId c" and "connName c' = connName c"
    and "socketFd c' = socketFd c" and "channelP c' = channelP c"
    and "hasWriteComplete c' = hasWriteComplete c"
  using assms by (cases c; cases c'; simp add: fixed_part_def mk_socket_def)+

lemma fixed_part_upd [simp]:
  "fixed_part (c\<lparr>stateC := x\<rparr>) = fixed_part c"
  "fixed_part (c\<lparr>inputBuffer := b\<rparr>) = fixed_part c"
  "fixed_part (c\<lparr>outputBuffer := b\<rparr>) = fixed_part c"
  "fixed_part (conn_setTcpNoDelay on c) = fixed_part c"
  "fixed_part (setHighWaterMarkCallback cb n c) = fixed_part c"
  by (cases c; simp add: fixed_part_def conn_setTcpNoDelay_def setHighWaterMarkCallback_def)+

lemma loop_frame_refl [simp]: "loop_frame K obj p fd L L"
  by (simp add: loop_frame_def)

lemma loop_frame_trans:
  assumes "loop_frame K obj p fd L1 L2" and "loop_frame K obj p fd L2 L3"
  shows "loop_frame K obj p fd L1 L3"
proof -
  from assms obtain fs gs where "pendingFunctors L2 = pendingFunctors L1 @ fs"
    "\<forall>f \<in> set fs. own_functor obj f" "pendingFunctors L3 = pendingFunctors L2 @ gs"
    "\<forall>f \<in> set gs. own_functor obj f"
    unfolding loop_frame_def by blast
  then have "\<exists>hs. pendingFunctors L3 = pendingFunctors L1 @ hs \<and> (\<forall>f \<in> set hs. own_functor obj f)"
    by (intro exI [of _ "fs @ gs"]) auto
  with assms show ?thesis unfolding loop_frame_def by simp
qed

lemma conn_frame_refl [simp]: "conn_frame K s s"
  by (simp add: conn_frame_def)

lemma conn_frame_trans:
  assumes "conn_frame K s1 s2" and "conn_frame K s2 s3"
  shows "conn_frame K s1 s3"
proof -
  have e: "objId (conn s2) = objId (conn s1)" "channelP (conn s2) = channelP (conn s1)"
    "socketFd (conn s2) = socketFd (conn s1)"
    using assms(1) fixed_partD [of "conn s2" "conn s1"] by (simp_all add: conn_frame_def)
  show ?thesis using assms loop_frame_trans unfolding conn_frame_def e by fastforce
qed

lemma conn_frameD:
  assumes "conn_frame K s s'"
  shows "objId (conn s') = objId (conn s)" and "loopId (conn s') = loopId (conn s)"
    and "connName (conn s') = connName (conn s)" and "socketFd (conn s') = socketFd (conn s)"
    and "channelP (conn s') = channelP (conn s)"
    and "hasWriteComplete (conn s') = hasWriteComplete (conn s)"
    and "threadId (ioLoop s') = threadId (ioLoop s)"
    and "callingPendingFunctors (ioLoop s') = callingPendingFunctors (ioLoop s)"
  using assms fixed_partD [of "conn s'" "conn s"] by (simp_all add: conn_frame_def loop_frame_def)

text \<open>Changes of a connection that touch neither its loop nor its identity.\<close>

lemma frame_conn_upd:
  "fixed_part c = fixed_part (conn s) \<Longrightarrow> conn_frame K s (s\<lparr>conn := c\<rparr>)"
  by (simp add: conn_frame_def)

text \<open>Queueing, and the socket calls.\<close>

lemma queue_kst: "\<exists>n. kst (queueInLoop K t f L) = kst L \<or> kst (queueInLoop K t f L) = fst (eventfd_write K (kst L) n)"
  by (auto simp: queueInLoop_def push_functor_def wakeup_def Let_def)

lemma queue_view:
  assumes "eventfd_doc K"
  shows "interest K (kst (queueInLoop K t f L)) = interest K (kst L)"
    and "sent K (kst (queueInLoop K t f L)) = sent K (kst L)"
    and "wr_shut K (kst (queueInLoop K t f L)) = wr_shut K (kst L)"
    and "file_data K (kst (queueInLoop K t f L)) = file_data K (kst L)"
  using queue_kst [of K t f L] eventfd_docD [OF assms] by auto

lemma reactor_wf_view:
  assumes "reactor_wf K r" and "chans r' = chans r" and "channelsM r' = channelsM r"
    and "interest K (kst r') = interest K (kst r)"
  shows "reactor_wf K r'"
  using assms by (simp add: reactor_wf_def chan_ok_def)

lemma fd_free_view: "chans r' = chans r \<Longrightarrow> channelsM r' = channelsM r \<Longrightarrow> fd_free r' p = fd_free r p"
  by (simp add: fd_free_def)

lemma conn_base_view:
  assumes "conn_base K s" and "chans (ioLoop s') = chans (ioLoop s)"
    and "channelsM (ioLoop s') = channelsM (ioLoop s)"
    and "interest K (kst (ioLoop s')) = interest K (kst (ioLoop s))"
    and "channelP (conn s') = channelP (conn s)" and "socketFd (conn s') = socketFd (conn s)"
    and "buffer_wf (inputBuffer (conn s'))" and "buffer_wf (outputBuffer (conn s'))"
  shows "conn_base K s'"
  using assms reactor_wf_view [of K "ioLoop s" "ioLoop s'"] fd_free_view [of "ioLoop s'" "ioLoop s"]
  by (simp add: conn_base_def c_chan_def)

lemma queue_c_sel [simp]:
  "conn (queue_c K t f s) = conn s" "c_chan (queue_c K t f s) = c_chan s"
  "writing (queue_c K t f s) = writing s" "tcp.more (queue_c K t f s) = tcp.more s"
  "pendingFunctors (ioLoop (queue_c K t f s)) = pendingFunctors (ioLoop s) @ [f]"
  "threadId (ioLoop (queue_c K t f s)) = threadId (ioLoop s)"
  by (simp_all add: queue_c_def c_chan_def writing_def)

lemma queue_c_view:
  assumes "eventfd_doc K"
  shows "c_sent K (queue_c K t f s) = c_sent K s" and "c_fin K (queue_c K t f s) = c_fin K s"
    and "out_stream K (queue_c K t f s) = out_stream K s"
    and "conn_base K s \<Longrightarrow> conn_base K (queue_c K t f s)"
proof -
  show "c_sent K (queue_c K t f s) = c_sent K s" "c_fin K (queue_c K t f s) = c_fin K s"
    by (simp_all add: c_sent_def c_fin_def queue_c_def queue_view [OF assms])
  then show "out_stream K (queue_c K t f s) = out_stream K s" by (simp add: out_stream_def)
  assume "conn_base K s"
  then show "conn_base K (queue_c K t f s)"
    by (rule conn_base_view)
      (use \<open>conn_base K s\<close> in \<open>auto simp: queue_c_def conn_base_def queue_view [OF assms]\<close>)
qed

lemma queue_c_frame:
  assumes "eventfd_doc K" and "own_functor (objId (conn s)) f"
  shows "conn_frame K s (queue_c K t f s)"
proof -
  have "wakeupChannel (queueInLoop K t f L) = wakeupChannel L" for L :: "('a, functor_t) eventloop"
    by (simp add: queueInLoop_def push_functor_def wakeup_def Let_def)
  then show ?thesis using assms
    by (simp add: conn_frame_def loop_frame_def queue_c_def queue_view [OF assms(1)])
qed

lemma kst_upd_base:
  assumes "conn_base K s" and "interest K k' = interest K (kst (ioLoop s))"
  shows "conn_base K (s\<lparr>ioLoop := (ioLoop s)\<lparr>kst := k'\<rparr>\<rparr>)"
  by (rule conn_base_view [OF assms(1)]) (use assms in \<open>auto simp: conn_base_def\<close>)

lemma kst_upd_sel [simp]:
  "c_chan (s\<lparr>ioLoop := (ioLoop s)\<lparr>kst := k'\<rparr>\<rparr>) = c_chan s"
  "writing (s\<lparr>ioLoop := (ioLoop s)\<lparr>kst := k'\<rparr>\<rparr>) = writing s"
  by (simp_all add: c_chan_def writing_def)

lemma conn_upd_sel [simp]:
  "c_chan (s\<lparr>conn := (conn s)\<lparr>outputBuffer := b\<rparr>\<rparr>) = c_chan s"
  "c_chan (s\<lparr>conn := (conn s)\<lparr>inputBuffer := b\<rparr>\<rparr>) = c_chan s"
  "c_chan (setState st s) = c_chan s"
  "c_sent K (s\<lparr>conn := (conn s)\<lparr>outputBuffer := b\<rparr>\<rparr>) = c_sent K s"
  "c_sent K (s\<lparr>conn := (conn s)\<lparr>inputBuffer := b\<rparr>\<rparr>) = c_sent K s"
  "c_sent K (setState st s) = c_sent K s"
  "writing (s\<lparr>conn := (conn s)\<lparr>outputBuffer := b\<rparr>\<rparr>) = writing s"
  "writing (s\<lparr>conn := (conn s)\<lparr>inputBuffer := b\<rparr>\<rparr>) = writing s"
  "writing (setState st s) = writing s"
  "c_fin K (s\<lparr>conn := (conn s)\<lparr>outputBuffer := b\<rparr>\<rparr>) = c_fin K s"
  "c_fin K (s\<lparr>conn := (conn s)\<lparr>inputBuffer := b\<rparr>\<rparr>) = c_fin K s"
  "c_fin K (setState st s) = c_fin K s"
  by (simp_all add: c_chan_def c_sent_def c_fin_def setState_def writing_def)

lemma conn_upd_base:
  "conn_base K s \<Longrightarrow> buffer_wf b \<Longrightarrow> conn_base K (s\<lparr>conn := (conn s)\<lparr>outputBuffer := b\<rparr>\<rparr>)"
  "conn_base K s \<Longrightarrow> buffer_wf b \<Longrightarrow> conn_base K (s\<lparr>conn := (conn s)\<lparr>inputBuffer := b\<rparr>\<rparr>)"
  "conn_base K s \<Longrightarrow> conn_base K (setState st s)"
  by (simp_all add: conn_base_def c_chan_def setState_def)

text \<open>Changes of attributes that play no part in the invariant.\<close>

definition conn_core :: "tcpconn \<Rightarrow> tcpconn" where
  "conn_core c = c\<lparr>socketC := mk_socket (socketFd c), hasHighWaterMark := False, highWaterMark := 0\<rparr>"

lemma conn_attr_sel:
  "conn_core (conn_setTcpNoDelay on c) = conn_core c"
  "conn_core (setHighWaterMarkCallback cb n c) = conn_core c"
  by (cases c; simp add: conn_core_def conn_setTcpNoDelay_def setHighWaterMarkCallback_def)+

lemma conn_attr:
  assumes "conn_inv K s" and "conn_core c = conn_core (conn s)"
  shows "conn_inv K (s\<lparr>conn := c\<rparr>) \<and> conn_frame K s (s\<lparr>conn := c\<rparr>)" and "c_chan (s\<lparr>conn := c\<rparr>) = c_chan s"
    and "stateC c = stateC (conn s)" and "writing (s\<lparr>conn := c\<rparr>) = writing s"
proof -
  obtain d where d: "d = conn s" by simp
  have e: "stateC c = stateC d" "inputBuffer c = inputBuffer d" "outputBuffer c = outputBuffer d"
    "channelP c = channelP d" "socketFd c = socketFd d" "fixed_part c = fixed_part d"
    using assms(2) unfolding d [symmetric] by (cases c; cases d; simp add: conn_core_def fixed_part_def mk_socket_def)+
  then show "c_chan (s\<lparr>conn := c\<rparr>) = c_chan s" "stateC c = stateC (conn s)" "writing (s\<lparr>conn := c\<rparr>) = writing s"
    by (simp_all add: c_chan_def writing_def d)
  then show "conn_inv K (s\<lparr>conn := c\<rparr>) \<and> conn_frame K s (s\<lparr>conn := c\<rparr>)"
    using assms(1) e frame_conn_upd [of c s K] by (simp add: conn_inv_def conn_base_def d)
qed

lemma chan_of_base:
  assumes "conn_base K s"
  obtains ch where "chan_of s = Inr ch" "c_chan s = Some ch" "ch_fd ch = socketFd (conn s)"
    "chans (ioLoop s) (channelP (conn s)) = Some ch"
  using assms by (auto simp: conn_base_def chan_of_def c_chan_def)

lemma writing_chan: "c_chan s = Some ch \<Longrightarrow> writing s = isWriting ch"
  by (simp add: writing_def)

text \<open>Setting the events of the connection's channel.\<close>

lemma set_events_c:
  assumes doc: "epoll_doc K" and base: "conn_base K s" and ch: "c_chan s = Some ch"
  shows "\<exists>s' i. on_loop (set_events K ev (channelP (conn s))) s = Inr s' \<and> conn_base K s' \<and>
    conn_frame K s s' \<and> conn s' = conn s \<and>
    c_chan s' = Some (ch\<lparr>ch_events := ev, ch_index := i\<rparr>) \<and>
    c_sent K s' = c_sent K s \<and> c_fin K s' = c_fin K s \<and>
    pendingFunctors (ioLoop s') = pendingFunctors (ioLoop s)"
proof -
  let ?p = "channelP (conn s)" and ?L = "ioLoop s"
  from base have wf: "reactor_wf K ?L" and free: "fd_free ?L ?p" and fd: "ch_fd ch = socketFd (conn s)"
    using ch by (auto simp: conn_base_def)
  have ch': "chans ?L ?p = Some ch" using ch by (simp add: c_chan_def)
  from set_events_ok [OF doc wf ch' free, of ev] obtain k' where
    s: "set_events K ev ?p ?L = Inr (?L\<lparr>
      chans := (chans ?L)(?p \<mapsto> ch\<lparr>ch_events := ev, ch_index := index_after ev ch\<rparr>),
      channelsM := (channelsM ?L)(ch_fd ch \<mapsto> ?p), kst := k'\<rparr>)" (is "_ = Inr ?L'")
    and io: "same_io K (kst ?L) k'"
    and i: "interest K k' = (interest K (kst ?L))(ch_fd ch :=
      if index_after ev ch = kDeleted then None else Some (ev, ?p))" by blast
  from set_events_contract [OF doc wf free, of ev] s
  have wf': "reactor_wf K ?L'" and free': "fd_free ?L' ?p" by auto
  let ?s = "s\<lparr>ioLoop := ?L'\<rparr>"
  have "conn_base K ?s" using base wf' free' fd by (simp add: conn_base_def c_chan_def)
  moreover have "conn_frame K s ?s"
    using io i fd by (simp add: conn_frame_def loop_frame_def same_io_def)
  moreover have "c_sent K ?s = c_sent K s" "c_fin K ?s = c_fin K s"
    using io by (simp_all add: c_sent_def c_fin_def same_io_def)
  ultimately show ?thesis
    using s by (intro exI [of _ ?s] exI [of _ "index_after ev ch"]) (simp add: on_loop_def c_chan_def)
qed

lemma enableWriting_c:
  assumes "epoll_doc K" and "conn_base K s"
  shows "\<exists>s'. on_loop (enableWriting K (channelP (conn s))) s = Inr s' \<and> conn_base K s' \<and>
    conn_frame K s s' \<and> conn s' = conn s \<and> writing s' \<and> c_sent K s' = c_sent K s \<and>
    c_fin K s' = c_fin K s \<and> pendingFunctors (ioLoop s') = pendingFunctors (ioLoop s)"
proof -
  from assms(2) obtain ch where ch: "c_chan s = Some ch" "chans (ioLoop s) (channelP (conn s)) = Some ch"
    by (rule chan_of_base)
  from set_events_c [OF assms ch(1), of "enableWriting_ev ch"] show ?thesis
    using ch(2) by (auto simp: enableWriting_def on_loop_def writing_chan)
qed

lemma disableWriting_c:
  assumes "epoll_doc K" and "conn_base K s"
  shows "\<exists>s'. on_loop (disableWriting K (channelP (conn s))) s = Inr s' \<and> conn_base K s' \<and>
    conn_frame K s s' \<and> conn s' = conn s \<and> \<not> writing s' \<and> c_sent K s' = c_sent K s \<and>
    c_fin K s' = c_fin K s \<and> pendingFunctors (ioLoop s') = pendingFunctors (ioLoop s)"
proof -
  from assms(2) obtain ch where ch: "c_chan s = Some ch" "chans (ioLoop s) (channelP (conn s)) = Some ch"
    by (rule chan_of_base)
  from set_events_c [OF assms ch(1), of "disableWriting_ev ch"] show ?thesis
    using ch(2) by (auto simp: disableWriting_def on_loop_def writing_chan)
qed

lemma disableAll_c:
  assumes "epoll_doc K" and "conn_base K s"
  shows "\<exists>s'. on_loop (disableAll K (channelP (conn s))) s = Inr s' \<and> conn_base K s' \<and>
    conn_frame K s s' \<and> conn s' = conn s \<and> \<not> writing s' \<and> c_sent K s' = c_sent K s \<and>
    c_fin K s' = c_fin K s \<and> pendingFunctors (ioLoop s') = pendingFunctors (ioLoop s)"
proof -
  from assms(2) obtain ch where ch: "c_chan s = Some ch" "chans (ioLoop s) (channelP (conn s)) = Some ch"
    by (rule chan_of_base)
  from set_events_c [OF assms ch(1), of 0] show ?thesis
    using ch(2) by (auto simp: disableAll_def on_loop_def writing_chan kNoneEvent_def)
qed

end
