(* ===== verification/Acceptor.thy ===== *)
theory Acceptor
  imports TcpConnection
begin

text \<open>
  \<^verbatim>\<open>src/Acceptor.cc\<close>: the acceptor of new connections on the base loop. What \<^verbatim>\<open>socket\<close>, \<^verbatim>\<open>bind\<close> and \<^verbatim>\<open>accept4\<close> return are arguments of the operations that
  call them; the callback for a new connection belongs to the server and is a parameter.
\<close>

section \<open>Acceptor\<close>

record acceptor =
  acceptSocket :: socket
  acceptChannel :: chan_ptr
  listenning :: bool
  hasNewConnectionCallback :: bool

definition createNonblocking :: "int \<Rightarrow> int result" where
  "createNonblocking fd = (if fd < 0 then Inl ExitFatal else Inr fd)"

definition mk_acceptor :: "int \<Rightarrow> int \<Rightarrow> chan_ptr \<Rightarrow> bool \<Rightarrow> ('k, 'f) eventloop \<Rightarrow>
    (acceptor \<times> ('k, 'f) eventloop) result" where
  "mk_acceptor socket_ret bind_ret p reuseport L =
     bind_r (createNonblocking socket_ret) (\<lambda>fd.
     bind_r (bindAddress bind_ret (setReusePort reuseport (setReuseAddr True (mk_socket fd)))) (\<lambda>sk.
       Inr (\<lparr>acceptSocket = sk, acceptChannel = p, listenning = False, hasNewConnectionCallback = False\<rparr>,
            set_chan p (setReadCallback (mk_channel fd)) L)))"

definition setNewConnectionCallback :: "acceptor \<Rightarrow> acceptor" where
  "setNewConnectionCallback a = a\<lparr>hasNewConnectionCallback := True\<rparr>"

definition destroy_acceptor :: "'k kernel \<Rightarrow> acceptor \<Rightarrow> ('k, 'f) eventloop \<Rightarrow> ('k, 'f) eventloop result" where
  "destroy_acceptor K a L = bind_r (disableAll K (acceptChannel a) L) (channel_remove K (acceptChannel a))"

definition acceptor_listen :: "'k kernel \<Rightarrow> acceptor \<Rightarrow> ('k, 'f) eventloop \<Rightarrow>
    (acceptor \<times> ('k, 'f) eventloop) result" where
  "acceptor_listen K a L =
     bind_r (listen_socket K (kst L) (acceptSocket a)) (\<lambda>k.
     bind_r (enableReading K (acceptChannel a) (L\<lparr>kst := k\<rparr>)) (\<lambda>L'.
       Inr (a\<lparr>listenning := True\<rparr>, L')))"

text \<open>
  \<^verbatim>\<open>handleRead\<close>: hands the new descriptor to the callback, or closes it when there is none; an error
  is only logged. \<open>closed\<close> collects the descriptors closed here.
\<close>

definition acceptor_handleRead :: "accept_out \<Rightarrow> (int \<Rightarrow> inet_address \<Rightarrow> 's \<Rightarrow> 's result) \<Rightarrow> acceptor \<Rightarrow>
    's \<times> int list \<Rightarrow> ('s \<times> int list) result" where
  "acceptor_handleRead out newConnection a st =
     (case accept_socket out (mk_inet 0 default_ip) of (connfd, pa) \<Rightarrow>
        (case st of (s, closed) \<Rightarrow>
          if 0 \<le> connfd
          then (if hasNewConnectionCallback a
                then bind_r (newConnection connfd pa s) (\<lambda>s'. Inr (s', closed))
                else Inr (s, connfd # closed))
          else Inr (s, closed)))"

section \<open>Properties\<close>

lemma listen_docD:
  assumes "listen_doc K" and "sock_listen K k fd = (k', r)"
  shows "r = 0" and "interest K k' = interest K k" and "same_io K k k'"
  using assms unfolding listen_doc_def by blast+

lemma acceptor_listen_ok:
  assumes doc: "kernel_doc K" and wf: "reactor_wf K L" and free: "fd_free L (acceptChannel a)"
    and ch: "chans L (acceptChannel a) = Some ch"
  shows "\<exists>L'. acceptor_listen K a L = Inr (a\<lparr>listenning := True\<rparr>, L') \<and> reactor_wf K L' \<and>
    fd_free L' (acceptChannel a) \<and>
    epoll_mask K L' = (epoll_mask K L)(acceptChannel a := enableReading_ev ch)"
proof -
  obtain k' r where k': "sock_listen K (kst L) (sockfd (acceptSocket a)) = (k', r)" by force
  note d = listen_docD [OF kernel_docD(8) [OF doc] k']
  let ?L = "L\<lparr>kst := k'\<rparr>"
  have wf': "reactor_wf K ?L" by (rule reactor_wf_view [OF wf]) (use d in simp_all)
  have free': "fd_free ?L (acceptChannel a)" using free by (simp add: fd_free_def)
  have "epoll_mask K ?L = epoll_mask K L"
    using d(2) by (auto simp: epoll_mask_def fun_eq_iff split: option.splits)
  with enableReading_contract [OF kernel_docD(1) [OF doc] wf' free', of ch] ch k' d(1) show ?thesis
    by (auto simp: acceptor_listen_def listen_socket_def)
qed

lemma destroy_acceptor_ok:
  assumes "epoll_doc K" and "reactor_wf K L" and "fd_free L (acceptChannel a)"
  shows "\<exists>L'. destroy_acceptor K a L = Inr L' \<and> reactor_wf K L' \<and>
    epoll_mask K L' = (epoll_mask K L)(acceptChannel a := 0)"
proof -
  from set_events_contract [OF assms, of kNoneEvent] obtain L1 where
    L1: "set_events K kNoneEvent (acceptChannel a) L = Inr L1" "reactor_wf K L1" "fd_free L1 (acceptChannel a)"
      "epoll_mask K L1 = (epoll_mask K L)(acceptChannel a := kNoneEvent)" by blast
  from removeChannel_contract [OF assms(1) L1(2,3)] L1 show ?thesis
    by (auto simp: destroy_acceptor_def disableAll_def)
qed



end
