(* ===== verification/LoopThreads.thy ===== *)
theory LoopThreads
  imports EventLoop
begin

text \<open>
  An event loop shared by threads: the loop's own thread runs \<^verbatim>\<open>loop()\<close>, any number of other threads
  call \<^verbatim>\<open>queueInLoop\<close> (or \<^verbatim>\<open>runInLoop\<close>, which is the same from another thread) and \<^verbatim>\<open>quit\<close>. A step is
  what one thread does without another being able to observe a state in between: the critical section
  of the mutex, a write to the quit flag, one system call. \<open>submitted\<close>, \<open>executed\<close> and \<open>early\<close> are
  history: the functors in the order they entered the queue, the functors already called, and whether
  the loop's own thread queued one before it entered \<^verbatim>\<open>loop()\<close>.
\<close>

section \<open>The machine\<close>

datatype loop_pc = Before | Testing | Polling | Handling | Running | Returned

text \<open>Another thread is either outside, or past its write and about to call \<^verbatim>\<open>wakeup()\<close>.\<close>

datatype thread_pc = Outside | AboutToWake

record ('k, 'f) shared_loop =
  lp :: "('k, 'f) eventloop"
  lpc :: loop_pc
  functors :: "'f list"
  tpc :: "nat \<Rightarrow> thread_pc"
  submitted :: "'f list"
  executed :: "'f list"
  early :: bool

definition shared_init :: "('k, 'f) shared_loop \<Rightarrow> bool" where
  "shared_init s \<longleftrightarrow> lpc s = Before \<and> functors s = [] \<and> (\<forall>t. tpc s t = Outside) \<and> submitted s = [] \<and>
     executed s = [] \<and> \<not> early s \<and> pendingFunctors (lp s) = [] \<and> \<not> callingPendingFunctors (lp s)"

inductive shared_step :: "'k kernel \<Rightarrow> ('k, 'f) shared_loop \<Rightarrow> ('k, 'f) shared_loop \<Rightarrow> bool"
  for K :: "'k kernel" where
  other_push: "tpc s t = Outside \<Longrightarrow>
     shared_step K s (s\<lparr>lp := push_functor cb (lp s), tpc := (tpc s)(t := AboutToWake),
       submitted := submitted s @ [cb]\<rparr>)"
| other_quit: "tpc s t = Outside \<Longrightarrow>
     shared_step K s (s\<lparr>lp := (lp s)\<lparr>quitF := True\<rparr>, tpc := (tpc s)(t := AboutToWake)\<rparr>)"
| other_wake: "tpc s t = AboutToWake \<Longrightarrow>
     shared_step K s (s\<lparr>lp := wakeup K (lp s), tpc := (tpc s)(t := Outside)\<rparr>)"
| own_queue: "lpc s = Before \<or> lpc s = Handling \<or> lpc s = Running \<Longrightarrow>
     shared_step K s (s\<lparr>lp := queueInLoop K (threadId (lp s)) cb (lp s),
       submitted := submitted s @ [cb], early := (early s \<or> lpc s = Before)\<rparr>)"
| own_quit: "lpc s = Handling \<or> lpc s = Running \<Longrightarrow>
     shared_step K s (s\<lparr>lp := quit K (threadId (lp s)) (lp s)\<rparr>)"
| enter: "lpc s = Before \<Longrightarrow>
     shared_step K s (s\<lparr>lp := (lp s)\<lparr>looping := True, quitF := False\<rparr>, lpc := Testing\<rparr>)"
| test_go_on: "lpc s = Testing \<Longrightarrow> \<not> quitF (lp s) \<Longrightarrow> shared_step K s (s\<lparr>lpc := Polling\<rparr>)"
| test_leave: "lpc s = Testing \<Longrightarrow> quitF (lp s) \<Longrightarrow>
     shared_step K s (s\<lparr>lp := (lp s)\<lparr>looping := False\<rparr>, lpc := Returned\<rparr>)"
| poll_returns: "lpc s = Polling \<Longrightarrow> shared_step K s (s\<lparr>lpc := Handling\<rparr>)"
| wake_event: "lpc s = Handling \<Longrightarrow> shared_step K s (s\<lparr>lp := handleReadLoop K (lp s)\<rparr>)"
| swap: "lpc s = Handling \<Longrightarrow> swap_functors (lp s) = (fs, L) \<Longrightarrow>
     shared_step K s (s\<lparr>lp := L, functors := fs, lpc := Running\<rparr>)"
| call: "lpc s = Running \<Longrightarrow> functors s = cb # fs \<Longrightarrow>
     shared_step K s (s\<lparr>functors := fs, executed := executed s @ [cb]\<rparr>)"
| done_calling: "lpc s = Running \<Longrightarrow> functors s = [] \<Longrightarrow>
     shared_step K s (s\<lparr>lp := (lp s)\<lparr>callingPendingFunctors := False\<rparr>, lpc := Testing\<rparr>)"

text \<open>The loop thread sits in \<^verbatim>\<open>epoll_wait\<close> and its wake-up descriptor will not end the wait.\<close>

definition asleep :: "'k kernel \<Rightarrow> ('k, 'f) shared_loop \<Rightarrow> bool" where
  "asleep K s \<longleftrightarrow> lpc s = Polling \<and> \<not> woken K (lp s)"

definition wake_coming :: "('k, 'f) shared_loop \<Rightarrow> bool" where
  "wake_coming s \<longleftrightarrow> (\<exists>t. tpc s t = AboutToWake)"

section \<open>Invariant\<close>

definition shared_inv :: "'k kernel \<Rightarrow> ('k, 'f) shared_loop \<Rightarrow> bool" where
  "shared_inv K s \<longleftrightarrow> eventfd_doc K \<and>
     (callingPendingFunctors (lp s) \<longleftrightarrow> lpc s = Running) \<and>
     (lpc s \<noteq> Running \<longrightarrow> functors s = []) \<and>
     submitted s = executed s @ functors s @ pendingFunctors (lp s) \<and>
     (\<not> early s \<longrightarrow> lpc s \<noteq> Handling \<longrightarrow> pendingFunctors (lp s) \<noteq> [] \<longrightarrow> woken K (lp s) \<or> wake_coming s) \<and>
     (lpc s = Polling \<longrightarrow> quitF (lp s) \<longrightarrow> woken K (lp s) \<or> wake_coming s)"

lemma wake_coming_upd:
  "wake_coming (s\<lparr>tpc := (tpc s)(t := AboutToWake)\<rparr>)"
  by (auto simp: wake_coming_def)

lemma woken_frame [simp]:
  "woken K (L\<lparr>callingPendingFunctors := b\<rparr>) = woken K L"
  "woken K (L\<lparr>looping := b\<rparr>) = woken K L"
  "woken K (L\<lparr>quitF := b\<rparr>) = woken K L"
  "woken K (L\<lparr>pendingFunctors := fs\<rparr>) = woken K L"
  by (simp_all add: woken_def)

lemma push_functor_sel [simp]:
  "pendingFunctors (push_functor cb L) = pendingFunctors L @ [cb]"
  "callingPendingFunctors (push_functor cb L) = callingPendingFunctors L"
  "quitF (push_functor cb L) = quitF L"
  by (simp_all add: push_functor_def)

lemma woken_queueInLoop_own:
  "eventfd_doc K \<Longrightarrow> woken K (queueInLoop K (threadId L) cb L) \<longleftrightarrow> woken K L \<or> callingPendingFunctors L"
  by (auto simp: queueInLoop_def Let_def isInLoopThread_def push_functor_def)

lemma shared_inv_init: "eventfd_doc K \<Longrightarrow> shared_init s \<Longrightarrow> shared_inv K s"
  by (simp add: shared_init_def shared_inv_def)

lemma shared_inv_step:
  assumes "shared_inv K s" and "shared_step K s s'"
  shows "shared_inv K s'"
  using assms(2,1)
proof (induction rule: shared_step.cases)
  case (other_push s t cb)
  then show ?case by (auto simp: shared_inv_def wake_coming_def)
next
  case (other_quit s t)
  then show ?case by (auto simp: shared_inv_def wake_coming_def)
next
  case (other_wake s t)
  then show ?case by (auto simp: shared_inv_def)
next
  case (own_queue s cb)
  then show ?case by (auto simp: shared_inv_def woken_queueInLoop_own wake_coming_def)
next
  case (own_quit s)
  then show ?case
    by (auto simp: shared_inv_def quit_def isInLoopThread_def wake_coming_def)
next
  case (swap s fs L)
  then show ?case by (auto simp: shared_inv_def swap_functors_def)
qed (auto simp: shared_inv_def wake_coming_def)

interpretation sl: inductive_invariant
  "\<lambda>s. eventfd_doc K \<and> shared_init s" "shared_step K" "shared_inv K" for K :: "'k kernel"
  by unfold_locales (auto intro: shared_inv_init shared_inv_step)

section \<open>Properties\<close>

text \<open>
  C25: no lost wake-up. In every reachable state of a loop shared by any number of threads in which
  the loop's own thread queued nothing before entering \<^verbatim>\<open>loop()\<close>: when the loop thread waits in
  \<^verbatim>\<open>epoll_wait\<close> while functors are pending or while it has been told to quit, either its wake-up
  descriptor is readable already or some thread is about to make it readable.
\<close>

theorem no_lost_wakeup:
  assumes "eventfd_doc K" and "shared_init s" and "(shared_step K)\<^sup>*\<^sup>* s s'"
    and "asleep K s'" and "pendingFunctors (lp s') \<noteq> [] \<and> \<not> early s' \<or> quitF (lp s')"
  shows "wake_coming s'"
  using sl.invar_reachable [of K s s'] assms by (auto simp: shared_inv_def asleep_def)

text \<open>
  C26: first in, first out, exactly once. In every reachable state the functors called so far,
  followed by those of the round in progress, followed by the pending ones, are the functors queued
  so far in the order in which they were queued: no interleaving loses, repeats or reorders one.
\<close>

theorem functors_fifo_once:
  assumes "eventfd_doc K" and "shared_init s" and "(shared_step K)\<^sup>*\<^sup>* s s'"
  shows "submitted s' = executed s' @ functors s' @ pendingFunctors (lp s')"
  using sl.invar_reachable [of K s s'] assms by (auto simp: shared_inv_def)

definition sample_shared :: "(skernel, nat) shared_loop" where
  "sample_shared = \<lparr>lp = sample_loop\<lparr>pendingFunctors := []\<rparr>, lpc = Before, functors = [],
     tpc = (\<lambda>_. Outside), submitted = [], executed = [], early = False\<rparr>"

lemma sample_shared_init: "shared_init sample_shared"
  by (simp add: shared_init_def sample_shared_def sample_loop_def)

lemma skern_eventfd: "eventfd_doc skern"
  by (rule kernel_docD(3) [OF skern_doc])

text \<open>Another thread has queued a functor and not yet called \<^verbatim>\<open>wakeup()\<close> when the loop polls.\<close>

definition pushed_shared :: "(skernel, nat) shared_loop" where
  "pushed_shared = sample_shared\<lparr>lp := push_functor 7 (sample_loop\<lparr>pendingFunctors := [],
      looping := True, quitF := False\<rparr>), lpc := Polling, tpc := (\<lambda>_. Outside)(1 := AboutToWake),
      submitted := [7]\<rparr>"

lemma pushed_shared_reachable: "(shared_step skern)\<^sup>*\<^sup>* sample_shared pushed_shared"
proof -
  let ?s1 = "sample_shared\<lparr>lp := (lp sample_shared)\<lparr>looping := True, quitF := False\<rparr>, lpc := Testing\<rparr>"
  let ?s2 = "?s1\<lparr>lpc := Polling\<rparr>"
  have "shared_step skern sample_shared ?s1"
    by (rule shared_step.enter) (simp add: sample_shared_def)
  moreover have "shared_step skern ?s1 ?s2"
    by (rule shared_step.test_go_on) simp_all
  moreover have "shared_step skern ?s2 (?s2\<lparr>lp := push_functor 7 (lp ?s2),
      tpc := (tpc ?s2)(1 := AboutToWake), submitted := submitted ?s2 @ [7]\<rparr>)"
    by (rule shared_step.other_push) (simp add: sample_shared_def)
  ultimately have "(shared_step skern)\<^sup>*\<^sup>* sample_shared (?s2\<lparr>lp := push_functor 7 (lp ?s2),
      tpc := (tpc ?s2)(1 := AboutToWake), submitted := submitted ?s2 @ [7]\<rparr>)" by (rule steps3)
  then show ?thesis by (simp add: pushed_shared_def sample_shared_def)
qed

theorem no_lost_wakeup_witness:
  "(shared_step skern)\<^sup>*\<^sup>* sample_shared pushed_shared \<and> asleep skern pushed_shared \<and>
   pendingFunctors (lp pushed_shared) = [7] \<and> wake_coming pushed_shared"
proof -
  have a: "asleep skern pushed_shared"
    by (simp add: asleep_def pushed_shared_def sample_shared_def woken_def sample_loop_def
        push_functor_def sk_init_def)
  have p: "pendingFunctors (lp pushed_shared) = [7]" and e: "\<not> early pushed_shared"
    by (simp_all add: pushed_shared_def sample_shared_def)
  show ?thesis
    using a p e pushed_shared_reachable
      no_lost_wakeup [OF skern_eventfd sample_shared_init pushed_shared_reachable a] by simp
qed

theorem functors_fifo_once_witness:
  "(shared_step skern)\<^sup>*\<^sup>* sample_shared pushed_shared \<and> submitted pushed_shared = [7] \<and>
   submitted pushed_shared =
     executed pushed_shared @ functors pushed_shared @ pendingFunctors (lp pushed_shared)"
  using pushed_shared_reachable
    functors_fifo_once [OF skern_eventfd sample_shared_init pushed_shared_reachable]
  by (simp add: pushed_shared_def)

text \<open>
  The one gap. If the loop's own thread calls \<^verbatim>\<open>queueInLoop\<close> before it enters \<^verbatim>\<open>loop()\<close>, nobody
  wakes the loop: a state is reachable in which the loop thread waits in \<^verbatim>\<open>epoll_wait\<close> with that
  functor pending, the wake-up descriptor is not readable and no thread is about to write to it.
\<close>

lemma early_functor_not_woken:
  "\<exists>s. (shared_step skern)\<^sup>*\<^sup>* sample_shared s \<and> asleep skern s \<and> pendingFunctors (lp s) = [7] \<and>
     \<not> wake_coming s"
proof -
  let ?s1 = "sample_shared\<lparr>lp := queueInLoop skern (threadId (lp sample_shared)) 7 (lp sample_shared),
      submitted := submitted sample_shared @ [7],
      early := (early sample_shared \<or> lpc sample_shared = Before)\<rparr>"
  let ?s2 = "?s1\<lparr>lp := (lp ?s1)\<lparr>looping := True, quitF := False\<rparr>, lpc := Testing\<rparr>"
  let ?s3 = "?s2\<lparr>lpc := Polling\<rparr>"
  have "shared_step skern sample_shared ?s1"
    by (rule shared_step.own_queue) (simp add: sample_shared_def)
  moreover have "shared_step skern ?s1 ?s2"
    by (rule shared_step.enter) (simp add: sample_shared_def)
  moreover have "shared_step skern ?s2 ?s3"
    by (rule shared_step.test_go_on) simp_all
  ultimately have "(shared_step skern)\<^sup>*\<^sup>* sample_shared ?s3" by (rule steps3)
  moreover have "asleep skern ?s3 \<and> pendingFunctors (lp ?s3) = [7] \<and> \<not> wake_coming ?s3"
    using skern_eventfd by (simp add: asleep_def woken_queueInLoop_own wake_coming_def
        sample_shared_def)
      (simp add: woken_def sample_loop_def sk_init_def queueInLoop_def push_functor_def isInLoopThread_def)
  ultimately show ?thesis by blast
qed

end
