(* ===== verification/LoopThreadPool.thy ===== *)
theory LoopThreadPool
  imports LoopThreads
begin

text \<open>
  \<^verbatim>\<open>Thread\<close>, \<^verbatim>\<open>EventLoopThread\<close> and \<^verbatim>\<open>EventLoopThreadPool\<close>: the thread object, the handshake between a
  thread that starts a loop thread and the loop thread itself as an interleaving of their steps, and
  the pool that deals loops out in turn. Loops are numbered.
\<close>

section \<open>Thread\<close>

record thread =
  th_started :: bool
  th_joined :: bool
  th_tid :: int
  th_name :: string

text \<open>The constructor; the second component is \<^verbatim>\<open>numCreated_\<close> afterwards.\<close>

definition mk_thread :: "string \<Rightarrow> int \<Rightarrow> thread \<times> int" where
  "mk_thread name numCreated = (let num = numCreated + 1 in
     (\<lparr>th_started = False, th_joined = False, th_tid = 0,
       th_name = (if name = [] then ''Thread'' @ to_string num else name)\<rparr>, num))"

text \<open>\<^verbatim>\<open>start\<close> in the owner, up to the wait for the semaphore, and the beginning of the new thread.\<close>

definition thread_start :: "thread \<Rightarrow> thread" where
  "thread_start th = th\<lparr>th_started := True\<rparr>"

definition thread_begin :: "int \<Rightarrow> thread \<Rightarrow> thread" where
  "thread_begin t th = th\<lparr>th_tid := t\<rparr>"

definition thread_join :: "thread \<Rightarrow> thread" where
  "thread_join th = th\<lparr>th_joined := True\<rparr>"

text \<open>The destructor detaches the system thread exactly when this holds.\<close>

definition thread_detaches :: "thread \<Rightarrow> bool" where
  "thread_detaches th \<longleftrightarrow> th_started th \<and> \<not> th_joined th"

section \<open>EventLoopThread\<close>

text \<open>
  The owner: before \<^verbatim>\<open>startLoop\<close>, waiting for the semaphore in \<^verbatim>\<open>Thread::start\<close>, waiting for the
  condition variable, after \<^verbatim>\<open>startLoop\<close>, in the destructor with a non-null copy of \<^verbatim>\<open>loop_\<close>, in \<^verbatim>\<open>quit\<close> past
  the assignment to \<^verbatim>\<open>quit_\<close>, in \<^verbatim>\<open>join\<close>, destroyed; or it has called \<^verbatim>\<open>quit\<close> on a loop that no longer
  exists, or the loop was destroyed after the assignment, before \<^verbatim>\<open>quit\<close> reads it again to wake it.
\<close>

datatype owner_pc = OInit | OSemWait | OCondWait | OStarted | OHaveLoop | OQuitSet | OJoining | ODone
  | OUseAfterFree | OWakeAfterFree

text \<open>
  The loop thread: not created, created, past \<^verbatim>\<open>sem_post\<close>, loop constructed, \<^verbatim>\<open>loop_\<close> published,
  inside \<^verbatim>\<open>loop()\<close> past the assignment \<^verbatim>\<open>quit_ = false\<close>, past \<^verbatim>\<open>loop()\<close>, \<^verbatim>\<open>loop_\<close> set to null, ended.
\<close>

datatype child_pc = CNone | CCreated | CPosted | CConstructed | CPublished | CLooping | CLeft | CUnpublished | CEnded

record loop_thread =
  opc :: owner_pc
  cpc :: child_pc
  semaphore :: nat
  th :: thread
  loop_ptr :: bool
  loop_alive :: bool
  quit_flag :: bool
  foreign_quit :: bool

definition loop_thread_init :: loop_thread where
  "loop_thread_init = \<lparr>opc = OInit, cpc = CNone, semaphore = 0, th = fst (mk_thread '''' 0),
     loop_ptr = False, loop_alive = False, quit_flag = False, foreign_quit = False\<rparr>"

text \<open>The steps of the owner; \<^verbatim>\<open>quit\<close> assigns the flag in one step and wakes the loop in the next.\<close>

inductive owner_step :: "loop_thread \<Rightarrow> loop_thread \<Rightarrow> bool" where
  start: "opc s = OInit \<Longrightarrow>
     owner_step s (s\<lparr>opc := OSemWait, cpc := CCreated, th := thread_start (th s)\<rparr>)"
| sem_wait: "opc s = OSemWait \<Longrightarrow> semaphore s > 0 \<Longrightarrow>
     owner_step s (s\<lparr>opc := OCondWait, semaphore := semaphore s - 1\<rparr>)"
| cond_wait: "opc s = OCondWait \<Longrightarrow> loop_ptr s \<Longrightarrow> owner_step s (s\<lparr>opc := OStarted\<rparr>)"
| dtor_null: "opc s = OInit \<or> opc s = OStarted \<Longrightarrow> \<not> loop_ptr s \<Longrightarrow> owner_step s (s\<lparr>opc := ODone\<rparr>)"
| dtor_copy: "opc s = OStarted \<Longrightarrow> loop_ptr s \<Longrightarrow> owner_step s (s\<lparr>opc := OHaveLoop\<rparr>)"
| quit_set: "opc s = OHaveLoop \<Longrightarrow> loop_alive s \<Longrightarrow> owner_step s (s\<lparr>opc := OQuitSet, quit_flag := True\<rparr>)"
| quit_set_dead: "opc s = OHaveLoop \<Longrightarrow> \<not> loop_alive s \<Longrightarrow> owner_step s (s\<lparr>opc := OUseAfterFree\<rparr>)"
| quit_wake: "opc s = OQuitSet \<Longrightarrow> loop_alive s \<Longrightarrow>
     owner_step s (s\<lparr>opc := OJoining, th := thread_join (th s)\<rparr>)"
| quit_wake_dead: "opc s = OQuitSet \<Longrightarrow> \<not> loop_alive s \<Longrightarrow> owner_step s (s\<lparr>opc := OWakeAfterFree\<rparr>)"
| join: "opc s = OJoining \<Longrightarrow> cpc s = CEnded \<Longrightarrow> owner_step s (s\<lparr>opc := ODone\<rparr>)"

text \<open>
  The steps of the loop thread. It leaves \<^verbatim>\<open>loop()\<close> when its \<^verbatim>\<open>while\<close> test finds the flag set; the turn of
  the loop it may still be in ends at the latest when \<^verbatim>\<open>epoll_wait\<close> times out.
\<close>

inductive child_step :: "loop_thread \<Rightarrow> loop_thread \<Rightarrow> bool" where
  post: "cpc s = CCreated \<Longrightarrow> t > 0 \<Longrightarrow>
     child_step s (s\<lparr>cpc := CPosted, th := thread_begin t (th s), semaphore := semaphore s + 1\<rparr>)"
| construct: "cpc s = CPosted \<Longrightarrow> child_step s (s\<lparr>cpc := CConstructed, loop_alive := True\<rparr>)"
| publish: "cpc s = CConstructed \<Longrightarrow> child_step s (s\<lparr>cpc := CPublished, loop_ptr := True\<rparr>)"
| enter_loop: "cpc s = CPublished \<Longrightarrow> child_step s (s\<lparr>cpc := CLooping, quit_flag := False\<rparr>)"
| leave_loop: "cpc s = CLooping \<Longrightarrow> quit_flag s \<Longrightarrow> child_step s (s\<lparr>cpc := CLeft\<rparr>)"
| unpublish: "cpc s = CLeft \<Longrightarrow> child_step s (s\<lparr>cpc := CUnpublished, loop_ptr := False\<rparr>)"
| end_thread: "cpc s = CUnpublished \<Longrightarrow> child_step s (s\<lparr>cpc := CEnded, loop_alive := False\<rparr>)"

inductive_cases owner_stepE: "owner_step s s'"
inductive_cases child_stepE: "child_step s s'"

text \<open>All steps; a functor or a third thread may make the loop quit, too.\<close>

inductive lt_step :: "loop_thread \<Rightarrow> loop_thread \<Rightarrow> bool" where
  owner: "owner_step s s' \<Longrightarrow> lt_step s s'"
| child: "child_step s s' \<Longrightarrow> lt_step s s'"
| quit_elsewhere: "loop_alive s \<Longrightarrow> cpc s \<in> {CPublished, CLooping} \<Longrightarrow>
     lt_step s (s\<lparr>quit_flag := True, foreign_quit := True\<rparr>)"

lemmas lt_owner = owner_step.intros [THEN lt_step.owner]
lemmas lt_child = child_step.intros [THEN lt_step.child]

definition lt_inv :: "loop_thread \<Rightarrow> bool" where
  "lt_inv s \<longleftrightarrow>
     (loop_ptr s \<longleftrightarrow> cpc s \<in> {CPublished, CLooping, CLeft}) \<and>
     (loop_alive s \<longleftrightarrow> cpc s \<in> {CConstructed, CPublished, CLooping, CLeft, CUnpublished}) \<and>
     (opc s = OInit \<longrightarrow> cpc s = CNone) \<and> (cpc s = CNone \<longrightarrow> opc s = OInit \<or> opc s = ODone) \<and>
     (cpc s \<notin> {CNone, CCreated} \<longrightarrow> th_tid (th s) > 0) \<and>
     (semaphore s > 0 \<longrightarrow> cpc s \<notin> {CNone, CCreated}) \<and>
     (opc s \<in> {OCondWait, OStarted, OHaveLoop, OQuitSet, OJoining} \<longrightarrow> cpc s \<notin> {CNone, CCreated}) \<and>
     (\<not> foreign_quit s \<longrightarrow> opc s \<noteq> OUseAfterFree \<and>
        (opc s \<in> {OStarted, OHaveLoop} \<longrightarrow> cpc s \<in> {CPublished, CLooping}) \<and>
        (quit_flag s \<or> cpc s \<in> {CLeft, CUnpublished, CEnded} \<longrightarrow>
           opc s \<in> {OQuitSet, OJoining, ODone, OWakeAfterFree}) \<and>
        (opc s \<in> {OQuitSet, OJoining} \<longrightarrow> cpc s \<in> {CPublished, CLooping, CLeft, CUnpublished, CEnded}) \<and>
        (opc s = OWakeAfterFree \<longrightarrow> cpc s = CEnded) \<and>
        (opc s = ODone \<longrightarrow> cpc s = CEnded \<or> cpc s = CNone))"

lemma lt_inv_init: "lt_inv loop_thread_init"
  by (simp add: lt_inv_def loop_thread_init_def)

lemma lt_inv_owner: "lt_inv s \<Longrightarrow> owner_step s s' \<Longrightarrow> lt_inv s'"
  by (erule owner_step.cases) (auto simp: lt_inv_def thread_start_def thread_join_def)

lemma lt_inv_child: "lt_inv s \<Longrightarrow> child_step s s' \<Longrightarrow> lt_inv s'"
  by (erule child_step.cases) (auto simp: lt_inv_def thread_begin_def)

lemma lt_inv_step: "lt_inv s \<Longrightarrow> lt_step s s' \<Longrightarrow> lt_inv s'"
  by (erule lt_step.cases) (auto intro: lt_inv_owner lt_inv_child, auto simp: lt_inv_def)

interpretation ltm: inductive_invariant "\<lambda>s. s = loop_thread_init" lt_step lt_inv
  by unfold_locales (auto intro: lt_inv_init lt_inv_step)

lemma lt_inv_private:
  assumes inv: "lt_inv s" and priv: "\<not> foreign_quit s"
  shows "(opc s \<in> {OStarted, OHaveLoop} \<longrightarrow> loop_alive s \<and> loop_ptr s \<and> th_tid (th s) > 0) \<and>
    opc s \<noteq> OUseAfterFree \<and> (opc s = OWakeAfterFree \<longrightarrow> cpc s = CEnded) \<and>
    (opc s = ODone \<longrightarrow> cpc s = CEnded \<or> cpc s = CNone)"
  using assms unfolding lt_inv_def by (cases "cpc s"; cases "opc s"; simp)

text \<open>Runs that the examples below use.\<close>

lemma lt_run_started:
  "lt_step\<^sup>*\<^sup>* loop_thread_init (loop_thread_init\<lparr>opc := OStarted, cpc := CPublished, semaphore := 0,
     th := (th loop_thread_init)\<lparr>th_started := True, th_tid := 5\<rparr>, loop_ptr := True,
     loop_alive := True\<rparr>)"
proof -
  let ?th = "th loop_thread_init"
  let ?a = "loop_thread_init\<lparr>opc := OSemWait, cpc := CCreated, th := thread_start ?th\<rparr>"
  let ?b = "?a\<lparr>cpc := CPosted, th := thread_begin 5 (th ?a), semaphore := semaphore ?a + 1\<rparr>"
  let ?c = "?b\<lparr>opc := OCondWait, semaphore := semaphore ?b - 1\<rparr>"
  let ?d = "?c\<lparr>cpc := CConstructed, loop_alive := True\<rparr>"
  let ?e = "?d\<lparr>cpc := CPublished, loop_ptr := True\<rparr>"
  let ?f = "?e\<lparr>opc := OStarted\<rparr>"
  have "lt_step\<^sup>*\<^sup>* loop_thread_init ?a"
    by (rule r_into_rtranclp, rule lt_owner(1)) (simp add: loop_thread_init_def)
  then have "lt_step\<^sup>*\<^sup>* loop_thread_init ?b" by (rule step_after) (rule lt_child(1); simp)
  then have "lt_step\<^sup>*\<^sup>* loop_thread_init ?c" by (rule step_after) (rule lt_owner(2); simp)
  then have "lt_step\<^sup>*\<^sup>* loop_thread_init ?d" by (rule step_after) (rule lt_child(2); simp)
  then have "lt_step\<^sup>*\<^sup>* loop_thread_init ?e" by (rule step_after) (rule lt_child(3); simp)
  then have "lt_step\<^sup>*\<^sup>* loop_thread_init ?f" by (rule step_after) (rule lt_owner(3); simp)
  then show ?thesis by (simp add: loop_thread_init_def thread_start_def thread_begin_def)
qed

text \<open>A loop thread that finds the flag set runs to its end.\<close>

lemma lt_run_ended:
  assumes "lt_step\<^sup>*\<^sup>* loop_thread_init s" and "cpc s = CLooping" and "quit_flag s"
  shows "\<exists>s'. lt_step\<^sup>*\<^sup>* loop_thread_init s' \<and> opc s' = opc s \<and> \<not> loop_alive s' \<and> foreign_quit s' = foreign_quit s"
proof -
  let ?l = "s\<lparr>cpc := CLeft\<rparr>"
  let ?m = "?l\<lparr>cpc := CUnpublished, loop_ptr := False\<rparr>"
  let ?n = "?m\<lparr>cpc := CEnded, loop_alive := False\<rparr>"
  have "lt_step\<^sup>*\<^sup>* loop_thread_init ?l" by (rule step_after [OF assms(1)]) (rule lt_child(5); simp add: assms)
  then have "lt_step\<^sup>*\<^sup>* loop_thread_init ?m" by (rule step_after) (rule lt_child(6); simp)
  then have "lt_step\<^sup>*\<^sup>* loop_thread_init ?n" by (rule step_after) (rule lt_child(7); simp)
  then show ?thesis by (intro exI [of _ ?n]) simp
qed

section \<open>Properties of the handshake\<close>

text \<open>
  C27: what \<^verbatim>\<open>startLoop\<close> and the destructor rely on, for every interleaving of the steps of the two
  threads in which nobody else makes the loop quit. When \<^verbatim>\<open>startLoop\<close> has returned, and until the
  destructor has called \<^verbatim>\<open>quit\<close>, the loop it returned exists, is published, and the thread id is known;
  the destructor never calls \<^verbatim>\<open>quit\<close> on a loop that was destroyed; if the loop is gone before \<^verbatim>\<open>quit\<close> comes
  to wake it, its thread has ended; and once the destructor is done, the loop thread has ended (or was
  never started).
\<close>

theorem loop_thread_handshake:
  assumes "lt_step\<^sup>*\<^sup>* loop_thread_init s" and "\<not> foreign_quit s"
  shows "(opc s \<in> {OStarted, OHaveLoop} \<longrightarrow> loop_alive s \<and> loop_ptr s \<and> th_tid (th s) > 0) \<and>
    opc s \<noteq> OUseAfterFree \<and> (opc s = OWakeAfterFree \<longrightarrow> cpc s = CEnded) \<and>
    (opc s = ODone \<longrightarrow> cpc s = CEnded \<or> cpc s = CNone)"
  using lt_inv_private [OF ltm.invar_reachable [OF refl assms(1)] assms(2)] by blast

theorem loop_thread_handshake_witness:
  "\<exists>s. lt_step\<^sup>*\<^sup>* loop_thread_init s \<and> opc s = OStarted \<and> loop_alive s \<and> loop_ptr s"
  using loop_thread_handshake [OF lt_run_started] lt_run_started
  by (intro exI [of _ "loop_thread_init\<lparr>opc := OStarted, cpc := CPublished, semaphore := 0,
     th := (th loop_thread_init)\<lparr>th_started := True, th_tid := 5\<rparr>, loop_ptr := True,
     loop_alive := True\<rparr>"]) (simp add: loop_thread_init_def)

text \<open>The loop thread is on its way out: how many steps it has left, and that nothing holds it up.\<close>

definition leaving :: "loop_thread \<Rightarrow> bool" where
  "leaving s \<longleftrightarrow> cpc s = CLooping \<and> quit_flag s \<or> cpc s \<in> {CLeft, CUnpublished, CEnded}"

definition steps_left :: "loop_thread \<Rightarrow> nat" where
  "steps_left s = (case cpc s of CLooping \<Rightarrow> 3 | CLeft \<Rightarrow> 2 | CUnpublished \<Rightarrow> 1 | _ \<Rightarrow> 0)"

lemma leaving_child:
  assumes "leaving s" and "child_step s s'"
  shows "leaving s' \<and> opc s' = opc s \<and> steps_left s = Suc (steps_left s')"
  using assms(2,1) by cases (auto simp: leaving_def steps_left_def)

lemma leaving_enabled:
  assumes "leaving s" and "cpc s \<noteq> CEnded"
  shows "\<exists>s'. child_step s s'"
  using assms by (auto simp: leaving_def intro: child_step.intros)

lemma leaving_step:
  assumes "leaving s" and "opc s \<in> {OJoining, ODone}" and "lt_step s s'"
  shows "leaving s' \<and> opc s' \<in> {OJoining, ODone}"
  using assms(3,1,2)
proof cases
  case owner
  then show ?thesis using assms(1,2) by cases (auto simp: leaving_def)
next
  case child
  then show ?thesis using leaving_child [OF assms(1)] assms(2) by auto
qed (auto simp: leaving_def)

lemma leaving_run:
  "lt_step\<^sup>*\<^sup>* s s' \<Longrightarrow> leaving s \<Longrightarrow> opc s \<in> {OJoining, ODone} \<Longrightarrow> leaving s' \<and> opc s' \<in> {OJoining, ODone}"
  by (induction rule: rtranclp_induct) (use leaving_step in blast)+

lemma leaving_alone:
  "leaving s \<Longrightarrow> \<exists>s'. (child_step ^^ steps_left s) s s' \<and> cpc s' = CEnded \<and> opc s' = opc s"
proof (induction "steps_left s" arbitrary: s)
  case 0
  then show ?case by (auto simp: leaving_def steps_left_def split: child_pc.splits)
next
  case (Suc n)
  then have "cpc s \<noteq> CEnded" by (auto simp: steps_left_def)
  then obtain s1 where s1: "child_step s s1" using leaving_enabled [OF Suc.prems] by blast
  note l = leaving_child [OF Suc.prems s1]
  with Suc.hyps(2) have n: "n = steps_left s1" by simp
  from Suc.hyps(1) [OF n] l obtain s' where
    "(child_step ^^ steps_left s1) s1 s'" "cpc s' = CEnded" "opc s' = opc s" by auto
  then show ?case using s1 Suc.hyps(2) n by (metis relpowp_Suc_I2)
qed

text \<open>
  C28: the destructor ends. Take a state in which it waits in \<^verbatim>\<open>join\<close> and its \<^verbatim>\<open>quit\<close> was not overwritten:
  the flag is set and the thread is in \<^verbatim>\<open>loop()\<close>, or the thread has left \<^verbatim>\<open>loop()\<close>. The loop thread's own
  steps, at most three, bring it to its end, and then \<^verbatim>\<open>join\<close> returns. Nothing can prevent it: whatever
  steps the two threads and others take from there, the destructor is done, or the thread has ended and
  \<^verbatim>\<open>join\<close> can return, or the thread has a next step, and each one brings it closer to its end.
\<close>

theorem loop_thread_join_ends:
  assumes "opc s = OJoining" and "cpc s = CLooping \<and> quit_flag s \<or> cpc s \<in> {CLeft, CUnpublished, CEnded}"
  shows "(\<exists>n s'. n \<le> 3 \<and> (child_step ^^ n) s s' \<and> cpc s' = CEnded \<and> owner_step s' (s'\<lparr>opc := ODone\<rparr>)) \<and>
    (\<forall>s'. lt_step\<^sup>*\<^sup>* s s' \<longrightarrow> opc s' = ODone \<or> opc s' = OJoining \<and>
       (cpc s' = CEnded \<and> owner_step s' (s'\<lparr>opc := ODone\<rparr>) \<or>
        (\<exists>s''. child_step s' s'') \<and> (\<forall>s''. child_step s' s'' \<longrightarrow> steps_left s'' < steps_left s')))"
proof (intro conjI allI impI)
  have l: "leaving s" using assms(2) by (simp add: leaving_def)
  have "steps_left s \<le> 3" by (simp add: steps_left_def split: child_pc.splits)
  then show "\<exists>n s'. n \<le> 3 \<and> (child_step ^^ n) s s' \<and> cpc s' = CEnded \<and> owner_step s' (s'\<lparr>opc := ODone\<rparr>)"
    using leaving_alone [OF l] owner_step.join assms(1) by metis
  fix s' assume "lt_step\<^sup>*\<^sup>* s s'"
  from leaving_run [OF this l] assms(1) have s': "leaving s'" "opc s' \<in> {OJoining, ODone}" by auto
  have "steps_left s'' < steps_left s'" if "child_step s' s''" for s'' using leaving_child [OF s'(1) that] by simp
  then show "opc s' = ODone \<or> opc s' = OJoining \<and>
       (cpc s' = CEnded \<and> owner_step s' (s'\<lparr>opc := ODone\<rparr>) \<or>
        (\<exists>s''. child_step s' s'') \<and> (\<forall>s''. child_step s' s'' \<longrightarrow> steps_left s'' < steps_left s'))"
    using s' leaving_enabled [OF s'(1)] owner_step.join [of s'] by blast
qed

lemma lt_run_quit_set:
  "lt_step\<^sup>*\<^sup>* loop_thread_init (loop_thread_init\<lparr>opc := OQuitSet, cpc := CLooping, semaphore := 0,
     th := (th loop_thread_init)\<lparr>th_started := True, th_tid := 5\<rparr>,
     loop_ptr := True, loop_alive := True, quit_flag := True\<rparr>)"
proof -
  let ?f = "loop_thread_init\<lparr>opc := OStarted, cpc := CPublished, semaphore := 0,
     th := (th loop_thread_init)\<lparr>th_started := True, th_tid := 5\<rparr>, loop_ptr := True,
     loop_alive := True\<rparr>"
  let ?g = "?f\<lparr>cpc := CLooping, quit_flag := False\<rparr>"
  let ?h = "?g\<lparr>opc := OHaveLoop\<rparr>"
  let ?i = "?h\<lparr>opc := OQuitSet, quit_flag := True\<rparr>"
  have "lt_step\<^sup>*\<^sup>* loop_thread_init ?g" by (rule step_after [OF lt_run_started]) (rule lt_child; simp)
  then have "lt_step\<^sup>*\<^sup>* loop_thread_init ?h" by (rule step_after) (rule lt_owner(5); simp)
  then have "lt_step\<^sup>*\<^sup>* loop_thread_init ?i" by (rule step_after) (rule lt_owner(6); simp)
  then show ?thesis by (simp add: loop_thread_init_def)
qed

theorem loop_thread_join_ends_witness:
  "\<exists>s s'. lt_step\<^sup>*\<^sup>* loop_thread_init s \<and> opc s = OJoining \<and> child_step\<^sup>*\<^sup>* s s' \<and> cpc s' = CEnded \<and>
     owner_step s' (s'\<lparr>opc := ODone\<rparr>)"
proof -
  let ?i = "loop_thread_init\<lparr>opc := OQuitSet, cpc := CLooping, semaphore := 0,
     th := (th loop_thread_init)\<lparr>th_started := True, th_tid := 5\<rparr>,
     loop_ptr := True, loop_alive := True, quit_flag := True\<rparr>"
  let ?j = "?i\<lparr>opc := OJoining, th := thread_join (th ?i)\<rparr>"
  have r: "lt_step\<^sup>*\<^sup>* loop_thread_init ?j" by (rule step_after [OF lt_run_quit_set]) (rule lt_owner(8); simp)
  from loop_thread_join_ends [of ?j] obtain n s' where
    "(child_step ^^ n) ?j s'" "cpc s' = CEnded" "owner_step s' (s'\<lparr>opc := ODone\<rparr>)" by auto
  then show ?thesis using r by (intro exI [of _ ?j] exI [of _ s']) (auto dest: relpowp_imp_rtranclp)
qed

text \<open>
  C29: three races of the destructor. Without any outside interference a run can end in a state in which
  the destructor waits in \<^verbatim>\<open>join\<close> forever: its \<^verbatim>\<open>quit\<close> came before the loop thread's \<^verbatim>\<open>quit_ = false\<close>
  and was overwritten, the loop runs on, and no step but a \<^verbatim>\<open>quit\<close> from elsewhere is left. If the
  loop quits for another reason, a run exists in which the destructor calls \<^verbatim>\<open>quit\<close> on a loop that has
  been destroyed. And without any outside interference a run exists in which the loop thread sees the
  flag and destroys the loop before \<^verbatim>\<open>quit\<close> reads the loop again to wake it.
\<close>

theorem loop_thread_destructor_races:
  "(\<exists>s. lt_step\<^sup>*\<^sup>* loop_thread_init s \<and> \<not> foreign_quit s \<and> opc s = OJoining \<and> cpc s = CLooping \<and>
      \<not> quit_flag s \<and> (\<forall>s'. lt_step s s' \<longrightarrow> foreign_quit s')) \<and>
   (\<exists>s. lt_step\<^sup>*\<^sup>* loop_thread_init s \<and> opc s = OUseAfterFree) \<and>
   (\<exists>s. lt_step\<^sup>*\<^sup>* loop_thread_init s \<and> \<not> foreign_quit s \<and> opc s = OWakeAfterFree)"
proof (intro conjI)
  let ?f = "loop_thread_init\<lparr>opc := OStarted, cpc := CPublished, semaphore := 0,
     th := (th loop_thread_init)\<lparr>th_started := True, th_tid := 5\<rparr>, loop_ptr := True,
     loop_alive := True\<rparr>"
  let ?g = "?f\<lparr>opc := OHaveLoop\<rparr>"
  let ?q = "?g\<lparr>opc := OQuitSet, quit_flag := True\<rparr>"
  let ?h = "?q\<lparr>opc := OJoining, th := thread_join (th ?q)\<rparr>"
  let ?i = "?h\<lparr>cpc := CLooping, quit_flag := False\<rparr>"
  have g: "lt_step\<^sup>*\<^sup>* loop_thread_init ?g" by (rule step_after [OF lt_run_started]) (rule lt_owner(5); simp)
  then have "lt_step\<^sup>*\<^sup>* loop_thread_init ?q" by (rule step_after) (rule lt_owner(6); simp)
  then have "lt_step\<^sup>*\<^sup>* loop_thread_init ?h" by (rule step_after) (rule lt_owner(8); simp)
  then have "lt_step\<^sup>*\<^sup>* loop_thread_init ?i" by (rule step_after) (rule lt_child(4); simp)
  moreover have "foreign_quit s'" if "lt_step ?i s'" for s'
    using that by cases (auto elim: owner_stepE child_stepE)
  ultimately show "\<exists>s. lt_step\<^sup>*\<^sup>* loop_thread_init s \<and> \<not> foreign_quit s \<and> opc s = OJoining \<and>
      cpc s = CLooping \<and> \<not> quit_flag s \<and> (\<forall>s'. lt_step s s' \<longrightarrow> foreign_quit s')"
    by (intro exI [of _ ?i]) (simp add: loop_thread_init_def)
  let ?j = "?g\<lparr>cpc := CLooping, quit_flag := False\<rparr>"
  let ?k = "?j\<lparr>quit_flag := True, foreign_quit := True\<rparr>"
  from g have "lt_step\<^sup>*\<^sup>* loop_thread_init ?j" by (rule step_after) (rule lt_child(4); simp)
  then have "lt_step\<^sup>*\<^sup>* loop_thread_init ?k" by (rule step_after) (rule lt_step.quit_elsewhere; simp)
  from lt_run_ended [OF this] obtain s where
    s: "lt_step\<^sup>*\<^sup>* loop_thread_init s" "opc s = OHaveLoop" "\<not> loop_alive s" by auto
  from step_after [OF s(1) lt_owner(7) [OF s(2,3)]]
  show "\<exists>s. lt_step\<^sup>*\<^sup>* loop_thread_init s \<and> opc s = OUseAfterFree" by force
  from lt_run_ended [OF lt_run_quit_set] obtain s where
    s: "lt_step\<^sup>*\<^sup>* loop_thread_init s" "opc s = OQuitSet" "\<not> loop_alive s" "\<not> foreign_quit s"
    by (auto simp: loop_thread_init_def)
  from step_after [OF s(1) lt_owner(9) [OF s(2,3)]] s(4)
  show "\<exists>s. lt_step\<^sup>*\<^sup>* loop_thread_init s \<and> \<not> foreign_quit s \<and> opc s = OWakeAfterFree" by force
qed

theorem loop_thread_destructor_races_witness:
  "\<exists>s. lt_step\<^sup>*\<^sup>* loop_thread_init s \<and> opc s = OJoining \<and> cpc s = CLooping \<and> \<not> quit_flag s"
  using loop_thread_destructor_races by blast

section \<open>EventLoopThreadPool\<close>

record pool =
  baseLoop :: nat
  pool_name :: string
  pool_started :: bool
  numThreads :: int
  next_idx :: nat
  threads :: "string list"
  loops :: "nat list"

definition mk_pool :: "nat \<Rightarrow> string \<Rightarrow> pool" where
  "mk_pool base nm = \<lparr>baseLoop = base, pool_name = nm, pool_started = False, numThreads = 0,
     next_idx = 0, threads = [], loops = []\<rparr>"

definition setThreadNum_pool :: "int \<Rightarrow> pool \<Rightarrow> pool" where
  "setThreadNum_pool n p = p\<lparr>numThreads := n\<rparr>"

text \<open>
  One turn of the loop of \<^verbatim>\<open>start\<close>: the thread is named after the pool and its index, and \<^verbatim>\<open>startLoop\<close>
  returns the loop the new thread has built, here the next number of \<^term>\<open>fresh\<close>.
\<close>

definition start_one :: "nat \<Rightarrow> pool \<Rightarrow> nat \<Rightarrow> pool" where
  "start_one fresh p i = p\<lparr>loops := loops p @ [fresh + i],
     threads := threads p @ [pool_name p @ to_string (int i)]\<rparr>"

text \<open>
  \<^verbatim>\<open>start(cb)\<close>; the second component lists the loops the initialisation callback ran on: every new
  thread runs it on its own loop, and the caller runs it on the base loop if there is no thread.
\<close>

definition pool_start :: "nat \<Rightarrow> bool \<Rightarrow> pool \<Rightarrow> pool \<times> nat list" where
  "pool_start fresh cb p =
     (let p' = foldl (start_one fresh) (p\<lparr>pool_started := True\<rparr>) [0..<nat (numThreads p)] in
      (p', if cb then if numThreads p = 0 then [baseLoop p] else map ((+) fresh) [0..<nat (numThreads p)]
           else []))"

definition getNextLoop :: "pool \<Rightarrow> nat \<times> pool" where
  "getNextLoop p =
     (if loops p \<noteq> [] then (loops p ! next_idx p, p\<lparr>next_idx := (next_idx p + 1) mod length (loops p)\<rparr>)
      else (baseLoop p, p))"

definition getAllLoops :: "pool \<Rightarrow> nat list" where
  "getAllLoops p = (if loops p = [] then [baseLoop p] else loops p)"

text \<open>The loops of \<^term>\<open>n\<close> successive calls of \<^verbatim>\<open>getNextLoop\<close>.\<close>

fun next_loops :: "nat \<Rightarrow> pool \<Rightarrow> nat list \<times> pool" where
  "next_loops 0 p = ([], p)"
| "next_loops (Suc n) p = (let (l, p') = getNextLoop p; (ls, p'') = next_loops n p' in (l # ls, p''))"

definition pool_wf :: "pool \<Rightarrow> bool" where
  "pool_wf p \<longleftrightarrow> distinct (loops p) \<and> baseLoop p \<notin> set (loops p) \<and>
     (if loops p = [] then next_idx p = 0 else next_idx p < length (loops p)) \<and>
     length (threads p) = length (loops p)"

lemma getNextLoop_wf: "pool_wf p \<Longrightarrow> pool_wf (snd (getNextLoop p))"
  by (auto simp: pool_wf_def getNextLoop_def)

lemma getNextLoop_in_all: "pool_wf p \<Longrightarrow> fst (getNextLoop p) \<in> set (getAllLoops p)"
  by (simp add: pool_wf_def getNextLoop_def getAllLoops_def)

lemma foldl_start_one:
  "foldl (start_one fresh) p [0..<n] = p\<lparr>loops := loops p @ map ((+) fresh) [0..<n],
     threads := threads p @ map (\<lambda>i. pool_name p @ to_string (int i)) [0..<n]\<rparr>"
  by (induction n) (simp_all add: start_one_def)

lemma pool_start_wf:
  assumes "baseLoop p < fresh" and "loops p = []" and "threads p = []" and "next_idx p = 0"
  shows "pool_wf (fst (pool_start fresh cb p))"
  using assms by (auto simp: pool_wf_def pool_start_def Let_def foldl_start_one distinct_map inj_on_def)

lemma next_loops_cycle:
  assumes "loops p \<noteq> []" and "next_idx p < length (loops p)"
  shows "next_loops n p =
    (map (\<lambda>i. loops p ! ((next_idx p + i) mod length (loops p))) [0..<n],
     p\<lparr>next_idx := (next_idx p + n) mod length (loops p)\<rparr>)"
  using assms
proof (induction n arbitrary: p)
  case 0
  then show ?case by simp
next
  case (Suc n)
  let ?q = "p\<lparr>next_idx := (next_idx p + 1) mod length (loops p)\<rparr>"
  have "next_loops n ?q = (map (\<lambda>i. loops ?q ! ((next_idx ?q + i) mod length (loops ?q))) [0..<n],
      ?q\<lparr>next_idx := (next_idx ?q + n) mod length (loops ?q)\<rparr>)"
    by (rule Suc.IH) (use Suc.prems in simp_all)
  then show ?case using Suc.prems
    by (simp add: getNextLoop_def mod_add_left_eq mod_add_right_eq upt_conv_Cons del: upt_Suc)
       (simp add: map_Suc_upt [symmetric] mod_add_left_eq comp_def ac_simps del: upt_Suc)
qed

lemma count_list_distinct: "distinct xs \<Longrightarrow> x \<in> set xs \<Longrightarrow> count_list xs x = 1"
  by (induction xs) auto

lemma count_list_distinct_le: "distinct xs \<Longrightarrow> count_list xs x \<le> 1"
  by (cases "x \<in> set xs") (simp_all add: count_list_distinct)

text \<open>Cyclic picks: a full round is a rotation of the list, a partial one a prefix of a rotation.\<close>

lemma cyclic_prefix:
  assumes "n \<le> length xs"
  shows "map (\<lambda>i. xs ! ((a + i) mod length xs)) [0..<n] = take n (rotate a xs)"
  using assms by (intro nth_equalityI) (auto simp: nth_rotate)

lemma cyclic_count:
  assumes "distinct xs" and "x \<in> set xs"
  shows "count_list (map (\<lambda>i. xs ! ((a + i) mod length xs)) [0..<n]) x
    \<in> {n div length xs, n div length xs + 1}"
proof (induction n rule: less_induct)
  case (less n)
  let ?k = "length xs" and ?f = "\<lambda>i. xs ! ((a + i) mod length xs)"
  have k: "?k > 0" using assms(2) by auto
  show ?case
  proof (cases "n < ?k")
    case True
    have "count_list (take n (rotate a xs)) x \<le> 1"
      by (metis assms(1) count_list_distinct_le distinct_rotate distinct_take)
    then show ?thesis using True by (auto simp: cyclic_prefix)
  next
    case False
    then obtain m where m: "n = ?k + m" using le_Suc_ex not_less by blast
    have "[0..<n] = [0..<?k] @ map (\<lambda>i. i + ?k) [0..<m]"
      using upt_add_eq_append [of 0 ?k m] map_add_upt [of ?k m] by (simp add: m add.commute)
    then have "map ?f [0..<n] = map ?f [0..<?k] @ map ?f [0..<m]"
      by (simp add: add.assoc [symmetric])
    moreover have "count_list (map ?f [0..<?k]) x = 1"
      using assms by (simp add: cyclic_prefix count_list_distinct)
    moreover have "n div ?k = Suc (m div ?k)" using k m by (simp add: div_add_self1)
    ultimately show ?thesis using less [of m] k m by auto
  qed
qed

text \<open>
  C30: \<^verbatim>\<open>getNextLoop\<close> deals connections out evenly. After \<^verbatim>\<open>start\<close> with \<^term>\<open>k\<close> threads the pool has
  \<^term>\<open>k\<close> distinct loops, and \<^term>\<open>n\<close> successive calls walk through them cyclically from the first:
  call \<^term>\<open>i\<close> gets loop number \<^term>\<open>i mod k\<close>, so every loop is chosen \<^term>\<open>n div k\<close> or
  \<^term>\<open>n div k + 1\<close> times, and the base loop never. With no thread every call gets the base loop.
\<close>

theorem getNextLoop_round_robin:
  fixes base fresh n :: nat and k :: int and cb :: bool and nm :: string
  assumes "base < fresh" and "0 \<le> k"
  defines "p \<equiv> fst (pool_start fresh cb (setThreadNum_pool k (mk_pool base nm)))"
  shows "pool_wf p \<and> length (loops p) = nat k \<and>
    (k > 0 \<longrightarrow> fst (next_loops n p) = map (\<lambda>i. loops p ! (i mod nat k)) [0..<n] \<and>
       (\<forall>l \<in> set (getAllLoops p). count_list (fst (next_loops n p)) l \<in> {n div nat k, n div nat k + 1}) \<and>
       base \<notin> set (fst (next_loops n p))) \<and>
    (k = 0 \<longrightarrow> fst (next_loops n p) = replicate n base)"
proof -
  have wf: "pool_wf p" unfolding p_def
    by (rule pool_start_wf) (use assms(1) in \<open>simp_all add: setThreadNum_pool_def mk_pool_def\<close>)
  have p: "loops p = map ((+) fresh) [0..<nat k]" "next_idx p = 0" "baseLoop p = base"
    by (simp_all add: p_def pool_start_def Let_def foldl_start_one setThreadNum_pool_def mk_pool_def)
  have none: "fst (next_loops n q) = replicate n (baseLoop q)" if "loops q = []" for q
    using that by (induction n) (auto simp: getNextLoop_def split: prod.splits)
  have dist: "distinct (loops p)" "base \<notin> set (loops p)" using wf p(3) by (auto simp: pool_wf_def)
  have some: "fst (next_loops n p) = map (\<lambda>i. loops p ! (i mod nat k)) [0..<n]" if "k > 0"
    using that next_loops_cycle [of p n] p(1,2) by simp
  have "set (map (\<lambda>i. loops p ! (i mod nat k)) [0..<n]) \<subseteq> set (loops p)" if "k > 0"
    using that p(1) by auto
  then have notbase: "base \<notin> set (fst (next_loops n p))" if "k > 0" using that dist(2) some by auto
  have even: "count_list (fst (next_loops n p)) l \<in> {n div nat k, n div nat k + 1}"
    if "k > 0" "l \<in> set (getAllLoops p)" for l
    using that cyclic_count [OF dist(1), of l 0 n] some p(1) by (auto simp: getAllLoops_def split: if_splits)
  show ?thesis using wf p some even notbase none [of p] by simp
qed

theorem getNextLoop_round_robin_witness:
  "let p = fst (pool_start 1 True (setThreadNum_pool 3 (mk_pool 0 ''p''))) in
   pool_wf p \<and> fst (next_loops 5 p) = [1, 2, 3, 1, 2] \<and> count_list (fst (next_loops 5 p)) 3 \<in> {1, 2}"
proof -
  let ?p = "fst (pool_start 1 True (setThreadNum_pool 3 (mk_pool 0 ''p'')))"
  have l: "loops ?p = [1, 2, 3]" by code_simp
  then have "3 \<in> set (getAllLoops ?p)" by (simp add: getAllLoops_def)
  moreover have "map (\<lambda>i. [1, 2, 3 :: nat] ! (i mod 3)) [0..<5] = [1, 2, 3, 1, 2]" by code_simp
  ultimately show ?thesis
    using getNextLoop_round_robin [of 0 1 3 True "''p''" 5] l by simp
qed

end
