(* ===== verification/TcpServer.thy ===== *)
theory TcpServer
  imports Acceptor LoopThreadPool
begin

text \<open>
  \<^verbatim>\<open>include/TcpServer.h\<close> and \<^verbatim>\<open>src/TcpServer.cc\<close>: the server with its acceptor, its pool of loops and its
  map of connections. The state is the whole system the server runs in: all event loops, all
  connection objects that exist, and the server. A connection object and its channel are numbered by
  the same number. \<^verbatim>\<open>on_conn\<close> runs an operation of a connection in the system.
\<close>

section \<open>State\<close>

record server =
  srv_base :: nat
  srv_ipPort :: string
  srv_name :: string
  srv_acceptor :: acceptor
  srv_pool :: pool
  srv_writeComplete :: bool
  srv_threadInit :: bool
  srv_numThreads :: int
  srv_started :: bool
  nextConnId :: int
  connections :: "string \<Rightarrow> nat option"
  nextObj :: nat

text \<open>
  \<open>activeW\<close> and \<open>runningW\<close> are what a loop still has to do of the active channels of its last poll and
  of the functors it has swapped out.
\<close>

record 'k world =
  loopsW :: "nat \<Rightarrow> ('k, functor_t) eventloop"
  connsW :: "nat \<Rightarrow> tcpconn option"
  activeW :: "nat \<Rightarrow> chan_ptr list"
  runningW :: "nat \<Rightarrow> functor_t list"
  serverW :: server

record 'k wview = "'k tcp" +
  rest :: "'k world"

definition view :: "nat \<Rightarrow> 'k world \<Rightarrow> 'k wview result" where
  "view c w = (case connsW w c of
      None \<Rightarrow> Inl UseAfterFree
    | Some cn \<Rightarrow> Inr \<lparr>conn = cn, ioLoop = loopsW w (loopId cn), rest = w\<rparr>)"

definition unview :: "'k wview \<Rightarrow> 'k world" where
  "unview s = (rest s)\<lparr>connsW := (connsW (rest s))(objId (conn s) \<mapsto> conn s),
     loopsW := (loopsW (rest s))(loopId (conn s) := ioLoop s)\<rparr>"

definition on_conn :: "nat \<Rightarrow> ('k wview \<Rightarrow> 'k wview result) \<Rightarrow> 'k world \<Rightarrow> 'k world result" where
  "on_conn c f w = bind_r (view c w) (\<lambda>s. bind_r (f s) (\<lambda>s'. Inr (unview s')))"

definition queue_w :: "'k kernel \<Rightarrow> int \<Rightarrow> nat \<Rightarrow> functor_t \<Rightarrow> 'k world \<Rightarrow> 'k world" where
  "queue_w K t l f w = w\<lparr>loopsW := (loopsW w)(l := queueInLoop K t f (loopsW w l))\<rparr>"

definition runInLoop_w :: "'k kernel \<Rightarrow> int \<Rightarrow> nat \<Rightarrow> functor_t \<Rightarrow> ('k world \<Rightarrow> 'k world result) \<Rightarrow>
    'k world \<Rightarrow> 'k world result" where
  "runInLoop_w K t l f run w =
     (if isInLoopThread t (loopsW w l) then run w else Inr (queue_w K t l f w))"

section \<open>Operations\<close>

datatype server_option = kNoReusePort | kReusePort

definition mk_server :: "nat option \<Rightarrow> inet_address \<Rightarrow> string \<Rightarrow> server_option \<Rightarrow> int \<Rightarrow> int \<Rightarrow> chan_ptr \<Rightarrow>
    ('k, functor_t) eventloop \<Rightarrow> (server \<times> ('k, functor_t) eventloop) result" where
  "mk_server loopP listenAddr nm opt socket_ret bind_ret p L = bind_r (CheckLoopNotNull loopP) (\<lambda>base.
     bind_r (mk_acceptor socket_ret bind_ret p (opt = kReusePort) L) (\<lambda>(a, L').
        Inr (\<lparr>srv_base = base, srv_ipPort = toIpPort listenAddr, srv_name = nm,
              srv_acceptor = setNewConnectionCallback a, srv_pool = mk_pool base nm,
              srv_writeComplete = False, srv_threadInit = False, srv_numThreads = 0, srv_started = False,
              nextConnId = 1, connections = (\<lambda>_. None), nextObj = p + 1\<rparr>, L')))"

text \<open>
  The setters of the callbacks; that one is set is what the code asks, what the callbacks do is the
  parameter \<open>user_callbacks\<close> of the operations that call them.
\<close>

definition setThreadInitCallback :: "bool \<Rightarrow> server \<Rightarrow> server" where
  "setThreadInitCallback cb sv = sv\<lparr>srv_threadInit := cb\<rparr>"

definition server_setWriteCompleteCallback :: "bool \<Rightarrow> server \<Rightarrow> server" where
  "server_setWriteCompleteCallback cb sv = sv\<lparr>srv_writeComplete := cb\<rparr>"

definition setThreadNum :: "int \<Rightarrow> server \<Rightarrow> server" where
  "setThreadNum n sv = sv\<lparr>srv_numThreads := n, srv_pool := setThreadNum_pool n (srv_pool sv)\<rparr>"

definition conn_name :: "server \<Rightarrow> int \<Rightarrow> string" where
  "conn_name sv i = srv_name sv @ ''-'' @ srv_ipPort sv @ ''#'' @ to_string i"

text \<open>
  \<^verbatim>\<open>newConnection\<close>; \<open>lo\<close> is the outcome of \<^verbatim>\<open>getsockname\<close>, whose failure leaves the zeroed address. The
  number in the name is an \<^verbatim>\<open>int\<close> that is counted up for every connection.
\<close>

definition newConnection :: "'k kernel \<Rightarrow> int \<Rightarrow> user_callbacks \<Rightarrow> inet_address option \<Rightarrow> int \<Rightarrow>
    inet_address \<Rightarrow> 'k world \<Rightarrow> 'k world result" where
  "newConnection K t U lo connfd peer w =
     (let sv = serverW w; (l, pool') = getNextLoop (srv_pool sv);
          nm = conn_name sv (nextConnId sv); obj = nextObj sv;
          localA = (case lo of None \<Rightarrow> \<lparr>sin_port = 0, sin_addr = [0, 0, 0, 0]\<rparr> | Some a \<Rightarrow> a)
      in if int_max \<le> nextConnId sv then Inl SignedOverflow
         else bind_r (mk_tcpconn obj (Some l) nm connfd obj localA peer (loopsW w l)) (\<lambda>s.
        let c = setWriteCompleteCallback (srv_writeComplete sv) (conn s);
            w1 = w\<lparr>loopsW := (loopsW w)(l := ioLoop s), connsW := (connsW w)(obj \<mapsto> c),
                   serverW := sv\<lparr>srv_pool := pool', nextConnId := nextConnId sv + 1, nextObj := obj + 1,
                     connections := (connections sv)(nm \<mapsto> obj)\<rparr>\<rparr>
        in runInLoop_w K t l (ConnectEstablishedF obj) (on_conn obj (connectEstablished K t U)) w1))"

definition removeConnectionInLoop :: "'k kernel \<Rightarrow> int \<Rightarrow> nat \<Rightarrow> 'k world \<Rightarrow> 'k world result" where
  "removeConnectionInLoop K t c w = (case connsW w c of
      None \<Rightarrow> Inl UseAfterFree
    | Some cn \<Rightarrow> let sv = serverW w in
        Inr (queue_w K t (loopId cn) (ConnectDestroyedF c)
          (w\<lparr>serverW := sv\<lparr>connections := (connections sv)(connName cn := None)\<rparr>\<rparr>)))"

definition removeConnection :: "'k kernel \<Rightarrow> int \<Rightarrow> nat \<Rightarrow> 'k world \<Rightarrow> 'k world result" where
  "removeConnection K t c w =
     runInLoop_w K t (srv_base (serverW w)) (RemoveConnectionInLoopF c) (removeConnectionInLoop K t c) w"

text \<open>The close callback the server gives its connections.\<close>

definition close_cb :: "'k kernel \<Rightarrow> int \<Rightarrow> 'k wview \<Rightarrow> 'k wview result" where
  "close_cb K t s = bind_r (removeConnection K t (objId (conn s)) (unview s)) (view (objId (conn s)))"

definition server_listen :: "'k kernel \<Rightarrow> 'k world \<Rightarrow> 'k world result" where
  "server_listen K w = (let sv = serverW w; b = srv_base sv in
     bind_r (acceptor_listen K (srv_acceptor sv) (loopsW w b)) (\<lambda>(a, L).
       Inr (w\<lparr>loopsW := (loopsW w)(b := L), serverW := sv\<lparr>srv_acceptor := a\<rparr>\<rparr>)))"

text \<open>
  \<^verbatim>\<open>start\<close>; \<open>built\<close> gives the loops that the threads of the pool have built, from number \<open>fresh\<close> on.
\<close>

definition server_start :: "'k kernel \<Rightarrow> int \<Rightarrow> nat \<Rightarrow> (nat \<Rightarrow> ('k, functor_t) eventloop) \<Rightarrow>
    'k world \<Rightarrow> 'k world result" where
  "server_start K t fresh built w = (let sv = serverW w in
     if \<not> srv_started sv
     then (let p = fst (pool_start fresh (srv_threadInit sv) (srv_pool sv));
               n = length (loops p) - length (loops (srv_pool sv));
               w1 = w\<lparr>loopsW := (\<lambda>i. if fresh \<le> i \<and> i < fresh + n then built i else loopsW w i),
                      serverW := sv\<lparr>srv_started := True, srv_pool := p\<rparr>\<rparr>
           in runInLoop_w K t (srv_base sv) AcceptorListenF (server_listen K) w1)
     else Inr w)"

section \<open>The loops' work in the system\<close>

text \<open>Calling a pending functor in thread \<open>t\<close>.\<close>

definition run_functor_w :: "'k kernel \<Rightarrow> int \<Rightarrow> user_callbacks \<Rightarrow> functor_t \<Rightarrow> 'k world \<Rightarrow> 'k world result" where
  "run_functor_w K t U f w = (case f of
      RemoveConnectionInLoopF c \<Rightarrow> removeConnectionInLoop K t c w
    | AcceptorListenF \<Rightarrow> server_listen K w
    | UserFunctor n \<Rightarrow> Inr w
    | _ \<Rightarrow> (case functor_conn f of None \<Rightarrow> Inr w | Some c \<Rightarrow> on_conn c (run_functor K t U f) w))"

text \<open>
  Handling an active channel of loop \<open>l\<close>: the wake-up channel, the acceptor's channel (\<open>acc\<close> is what
  \<^verbatim>\<open>accept4\<close> and \<^verbatim>\<open>getsockname\<close> return), or the channel of a connection.
\<close>

definition handle_channel_w :: "'k kernel \<Rightarrow> int \<Rightarrow> user_callbacks \<Rightarrow> accept_out \<times> inet_address option \<Rightarrow>
    nat \<Rightarrow> chan_ptr \<Rightarrow> 'k world \<Rightarrow> 'k world result" where
  "handle_channel_w K t U acc l p w = bind_r (deref p (loopsW w l)) (\<lambda>ch.
     let cbs = handleEvent (\<lambda>obj. connsW w obj \<noteq> None) ch in
     if p = wakeupChannel (loopsW w l)
     then Inr (if ReadCallback \<in> set cbs
               then w\<lparr>loopsW := (loopsW w)(l := handleReadLoop K (loopsW w l))\<rparr> else w)
     else if l = srv_base (serverW w) \<and> p = acceptChannel (srv_acceptor (serverW w))
     then (if ReadCallback \<in> set cbs
           then bind_r (acceptor_handleRead (fst acc) (newConnection K t U (snd acc))
                  (srv_acceptor (serverW w)) (w, [])) (\<lambda>(w', closed). Inr w')
           else Inr w)
     else run_each (\<lambda>cb. on_conn p (run_callback K t U (close_cb K t) cb)) cbs w)"

end
