(* ===== verification/ConnectionOps.thy ===== *)
theory ConnectionOps
  imports TcpConnection
begin

text \<open>
  What the operations of a connection that write do, on every branch: \<^verbatim>\<open>sendInLoop\<close>, \<^verbatim>\<open>shutdownInLoop\<close> and
  \<^verbatim>\<open>handleWrite\<close>.
\<close>

section \<open>Steps of an operation\<close>

text \<open>
  The effect of a step on what an observer sees: bytes handed to the kernel, the write side being
  shut down, and functors queued. Steps compose.
\<close>

definition moved :: "'k kernel \<Rightarrow> ('k, 'z) tcp_scheme \<Rightarrow> ('k, 'z) tcp_scheme \<Rightarrow> string \<Rightarrow> bool \<Rightarrow> functor_t list \<Rightarrow> bool" where
  "moved K s s' bs fin fs \<longleftrightarrow> conn_base K s' \<and> conn_frame K s s' \<and> c_sent K s' = c_sent K s @ bs \<and>
     c_fin K s' = (c_fin K s \<or> fin) \<and> pendingFunctors (ioLoop s') = pendingFunctors (ioLoop s) @ fs"

lemma movedD:
  assumes "moved K s s' bs fin fs"
  shows "conn_base K s'" and "conn_frame K s s'" and "c_sent K s' = c_sent K s @ bs"
    and "c_fin K s' = (c_fin K s \<or> fin)" and "pendingFunctors (ioLoop s') = pendingFunctors (ioLoop s) @ fs"
  using assms by (simp_all add: moved_def)

lemma moved_refl: "conn_base K s \<Longrightarrow> moved K s s [] False []"
  by (simp add: moved_def)

lemma moved_trans:
  "moved K s s1 a x fs \<Longrightarrow> moved K s1 s2 b y gs \<Longrightarrow> moved K s s2 (a @ b) (x \<or> y) (fs @ gs)"
  unfolding moved_def by (auto intro: conn_frame_trans)

lemma moved_buffer:
  assumes "conn_base K s" and "buffer_wf b"
  shows "moved K s (s\<lparr>conn := (conn s)\<lparr>outputBuffer := b\<rparr>\<rparr>) [] False []"
  using conn_upd_base(1) [OF assms] by (simp add: moved_def frame_conn_upd)

lemma moved_queue:
  assumes "eventfd_doc K" and "conn_base K s" and "c \<Longrightarrow> own_functor (objId (conn s)) f"
  shows "moved K s (if c then queue_c K t f s else s) [] False (if c then [f] else [])"
  using assms by (simp add: moved_def queue_c_view [OF assms(1)] queue_c_frame [OF assms(1)])

lemma sock_write_docD:
  assumes "sock_write_doc K" and "sock_write K k fd d = (k', out)"
  shows "interest K k' = interest K k" and "wr_shut K k' = wr_shut K k"
    and "file_data K k' = file_data K k" and "readable K k' = readable K k"
    and "out = WriteErr e \<Longrightarrow> sent K k' = sent K k"
    and "out = WriteOk n \<Longrightarrow> n \<le> length d \<and> sent K k' = (sent K k)(fd := sent K k fd @ take n d)"
  using assms unfolding sock_write_doc_def sock_frame_def by (fastforce split: write_out.splits)+

text \<open>A write to the socket, by its outcome.\<close>

lemma moved_write:
  assumes "sock_write_doc K" and "conn_base K s" and c: "sock_write K (kst (ioLoop s)) (socketFd (conn s)) d = (k', out)"
  shows "moved K s (s\<lparr>ioLoop := (ioLoop s)\<lparr>kst := k'\<rparr>\<rparr>)
    (case out of WriteOk n \<Rightarrow> take n d | WriteErr e \<Rightarrow> []) False []"
proof -
  note dd = sock_write_docD [OF assms(1) c]
  have "sent K k' x = sent K (kst (ioLoop s)) x" if "x \<noteq> socketFd (conn s)" for x using dd(5,6) that by (cases out) auto
  then have "conn_frame K s (s\<lparr>ioLoop := (ioLoop s)\<lparr>kst := k'\<rparr>\<rparr>)"
    using dd(1-3) by (simp add: conn_frame_def loop_frame_def)
  then show ?thesis using kst_upd_base [OF assms(2) dd(1)] dd(2,5,6)
    by (cases out) (simp_all add: moved_def c_sent_def c_fin_def)
qed

text \<open>Watching for \<^verbatim>\<open>EPOLLOUT\<close>, unless the channel does so already.\<close>

lemma moved_watch:
  assumes "epoll_doc K" and "conn_base K s"
  shows "\<exists>s'. bind_r (chan_of s) (\<lambda>ch. if \<not> isWriting ch then on_loop (enableWriting K (channelP (conn s))) s else Inr s) = Inr s' \<and>
    moved K s s' [] False [] \<and> conn s' = conn s \<and> writing s'"
proof -
  from assms(2) obtain ch where ch: "chan_of s = Inr ch" "c_chan s = Some ch" by (rule chan_of_base)
  show ?thesis
  proof (cases "isWriting ch")
    case True
    then show ?thesis using ch moved_refl [OF assms(2)] writing_chan [OF ch(2)] by simp
  next
    case False
    with enableWriting_c [OF assms] ch(1) show ?thesis by (auto simp: moved_def)
  qed
qed

section \<open>Sending\<close>

definition hwm_crossed :: "tcpconn \<Rightarrow> nat \<Rightarrow> bool" where
  "hwm_crossed c n \<longleftrightarrow> 0 < n \<and> hasHighWaterMark c \<and> length (content (outputBuffer c)) < highWaterMark c \<and>
     highWaterMark c \<le> length (content (outputBuffer c)) + n"

definition hwm_queued :: "tcpconn \<Rightarrow> tcpconn \<Rightarrow> functor_t list" where
  "hwm_queued c c' = (if hasHighWaterMark c \<and> length (content (outputBuffer c)) < highWaterMark c \<and>
       highWaterMark c \<le> length (content (outputBuffer c'))
     then [HighWaterMarkF (objId c) (length (content (outputBuffer c')))] else [])"

definition wc_queued :: "tcpconn \<Rightarrow> string \<Rightarrow> write_out \<Rightarrow> functor_t list" where
  "wc_queued c d out = (if content (outputBuffer c) = [] \<and> out = WriteOk (length d) \<and> hasWriteComplete c
     then [WriteCompleteF (objId c)] else [])"

lemma hwm_queued_crossed:
  "content b = content (outputBuffer c) @ rest \<Longrightarrow>
   (if hwm_crossed c (length rest) then [HighWaterMarkF (objId c) (length (content (outputBuffer c)) + length rest)]
    else []) = hwm_queued c (c\<lparr>outputBuffer := b\<rparr>)"
  by (auto simp: hwm_queued_def hwm_crossed_def)

lemma hwm_queued_same: "hwm_queued c c = []"
  by (simp add: hwm_queued_def)

lemma content_small: "buffer_wf b \<Longrightarrow> length (content b) \<le> vec_max_size"
  using buffer_wf_bounds(3,4) [of b] by (simp add: length_content)

lemma sendRest_waits:
  assumes wf: "buffer_wf (outputBuffer (conn s))" and len: "length rest \<le> vec_max_size" and ne: "rest \<noteq> []"
  shows "sendRest K t rest False s = bind_r (append_b rest (outputBuffer (conn s))) (\<lambda>b.
    let s1 = (if hwm_crossed (conn s) (length rest)
          then queue_c K t (HighWaterMarkF (objId (conn s)) (length (content (outputBuffer (conn s))) + length rest)) s else s);
        s2 = s1\<lparr>conn := (conn s1)\<lparr>outputBuffer := b\<rparr>\<rparr> in
      bind_r (chan_of s2) (\<lambda>ch. if \<not> isWriting ch then on_loop (enableWriting K (channelP (conn s2))) s2 else Inr s2))"
proof -
  let ?c = "conn s" and ?n = "length (content (outputBuffer (conn s)))"
  have sz: "sz_add ?n (length rest) = ?n + length rest" using content_small [OF wf] len by simp
  have rd: "readableBytes (outputBuffer ?c) = ?n" using wf by simp
  have cond: "highWaterMark ?c \<le> ?n + length rest \<and> ?n < highWaterMark ?c \<and> hasHighWaterMark ?c \<longleftrightarrow> hwm_crossed ?c (length rest)"
    using ne by (auto simp: hwm_crossed_def)
  have "conn (if hwm_crossed ?c (length rest) then queue_c K t f s else s) = ?c" for f by simp
  then show ?thesis using ne unfolding sendRest_def Let_def rd sz cond by (simp cong: if_cong)
qed

lemma sendRest_ok:
  assumes ep: "epoll_doc K" and ev: "eventfd_doc K" and base: "conn_base K s"
    and wr: "writing s \<longleftrightarrow> content (outputBuffer (conn s)) \<noteq> []"
    and st: "stateC (conn s) \<noteq> kDisconnected" and len: "length rest \<le> vec_max_size"
  shows "case sendRest K t rest False s of
      Inl e \<Rightarrow> e = LengthError \<and> vec_max_size < writerIndex (outputBuffer (conn s)) + length rest
    | Inr s' \<Rightarrow> conn_inv K s' \<and> conn_frame K s s' \<and> c_sent K s' = c_sent K s \<and> c_fin K s' = c_fin K s \<and>
        (\<exists>b. conn s' = (conn s)\<lparr>outputBuffer := b\<rparr> \<and> content b = content (outputBuffer (conn s)) @ rest \<and>
           length (bufferV b) \<le> length (bufferV (outputBuffer (conn s))) + length rest) \<and>
        pendingFunctors (ioLoop s') = pendingFunctors (ioLoop s) @ hwm_queued (conn s) (conn s')"
proof (cases "rest = []")
  case True
  have "conn_inv K s" using base wr st by (simp add: conn_inv_def)
  moreover have "\<exists>b. conn s = (conn s)\<lparr>outputBuffer := b\<rparr> \<and> content b = content (outputBuffer (conn s)) \<and>
      length (bufferV b) \<le> length (bufferV (outputBuffer (conn s)))"
    by (intro exI [of _ "outputBuffer (conn s)"]) simp
  ultimately show ?thesis using True by (simp add: sendRest_def hwm_queued_same)
next
  case False
  let ?c = "conn s" and ?ob = "outputBuffer (conn s)"
  let ?f = "HighWaterMarkF (objId ?c) (length (content ?ob) + length rest)"
  have wf: "buffer_wf ?ob" using base by (simp add: conn_base_def)
  define s1 where "s1 = (if hwm_crossed ?c (length rest) then queue_c K t ?f s else s)"
  have m1: "moved K s s1 [] False (if hwm_crossed ?c (length rest) then [?f] else [])"
    unfolding s1_def by (rule moved_queue [OF ev base]) simp
  have c1: "conn s1 = ?c" by (simp add: s1_def)
  have unfold: "sendRest K t rest False s = bind_r (append_b rest ?ob) (\<lambda>b.
      let s2 = s1\<lparr>conn := (conn s1)\<lparr>outputBuffer := b\<rparr>\<rparr> in
      bind_r (chan_of s2) (\<lambda>ch. if \<not> isWriting ch then on_loop (enableWriting K (channelP (conn s2))) s2 else Inr s2))"
    using sendRest_waits [OF wf len False, of K t] by (simp add: s1_def)
  from append_b_cases [OF wf len] consider
      (err) "append_b rest ?ob = Inl LengthError" "vec_max_size < writerIndex ?ob + length rest"
    | (ok) b where "append_b rest ?ob = Inr b" "buffer_wf b" "content b = content ?ob @ rest"
        "length (bufferV b) \<le> length (bufferV ?ob) + length rest"
    using buffer_wf_bounds(3) [OF wf] by fastforce
  then show ?thesis
  proof cases
    case err
    then show ?thesis by (simp add: unfold)
  next
    case b: (ok b)
    define s2 where "s2 = s1\<lparr>conn := (conn s1)\<lparr>outputBuffer := b\<rparr>\<rparr>"
    have m2: "moved K s1 s2 [] False []" unfolding s2_def by (rule moved_buffer [OF movedD(1) [OF m1] b(2)])
    have c2: "conn s2 = ?c\<lparr>outputBuffer := b\<rparr>" by (simp add: s2_def c1)
    from moved_watch [OF ep movedD(1) [OF m2]] obtain s3 where
      s3: "sendRest K t rest False s = Inr s3" "conn s3 = ?c\<lparr>outputBuffer := b\<rparr>" "writing s3"
      and m3: "moved K s2 s3 [] False []"
      unfolding unfold b(1) Let_def bind_r_simps s2_def [symmetric] c2 by blast
    note m = movedD [OF moved_trans [OF m1 moved_trans [OF m2 m3]]]
    have "conn_inv K s3" using m(1) s3(2,3) b(3) False st by (simp add: conn_inv_def)
    moreover have "pendingFunctors (ioLoop s3) = pendingFunctors (ioLoop s) @ hwm_queued ?c (conn s3)"
      using m(5) hwm_queued_crossed [OF b(3)] s3(2) by simp
    ultimately show ?thesis using s3(1,2) b(3,4) m(2-4) by auto
  qed
qed

text \<open>The write fails for good: the peer has gone.\<close>

definition write_fault :: "'k kernel \<Rightarrow> 'k \<Rightarrow> int \<Rightarrow> string \<Rightarrow> bool" where
  "write_fault K k fd d \<longleftrightarrow> (\<exists>k' e. sock_write K k fd d = (k', WriteErr e) \<and> (e = EPIPE \<or> e = ECONNRESET))"

text \<open>How \<^verbatim>\<open>sendInLoop\<close> comes to its second half.\<close>

lemma sendInLoop_first:
  assumes inv: "conn_inv K s" and st: "stateC (conn s) \<noteq> kDisconnected"
  shows "content (outputBuffer (conn s)) \<noteq> [] \<Longrightarrow> sendInLoop K t d s = sendRest K t d False s"
    and "content (outputBuffer (conn s)) = [] \<Longrightarrow>
      sock_write K (kst (ioLoop s)) (socketFd (conn s)) d = (k', out) \<Longrightarrow>
      s1 = s\<lparr>ioLoop := (ioLoop s)\<lparr>kst := k'\<rparr>\<rparr> \<Longrightarrow>
      sendInLoop K t d s = (case out of
        WriteOk n \<Rightarrow> sendRest K t (drop n d) False
          (if length d - n = 0 \<and> hasWriteComplete (conn s) then queue_c K t (WriteCompleteF (objId (conn s))) s1 else s1)
      | WriteErr e \<Rightarrow> if e = EPIPE \<or> e = ECONNRESET then Inr s1 else sendRest K t d False s1)"
proof -
  from inv st have base: "conn_base K s" and wr: "writing s \<longleftrightarrow> content (outputBuffer (conn s)) \<noteq> []"
    by (auto simp: conn_inv_def)
  from base obtain ch where ch: "chan_of s = Inr ch" "c_chan s = Some ch" "ch_fd ch = socketFd (conn s)"
    by (rule chan_of_base)
  have rd: "readableBytes (outputBuffer (conn s)) = length (content (outputBuffer (conn s)))"
    using base by (simp add: conn_base_def)
  have w: "isWriting ch \<longleftrightarrow> content (outputBuffer (conn s)) \<noteq> []" using wr writing_chan [OF ch(2)] by simp
  show "sendInLoop K t d s = sendRest K t d False s" if "content (outputBuffer (conn s)) \<noteq> []"
    using that st ch rd w by (simp add: sendInLoop_def)
  have errno: "EPIPE \<noteq> EWOULDBLOCK" "ECONNRESET \<noteq> EWOULDBLOCK"
    by (simp_all add: EPIPE_def EWOULDBLOCK_def ECONNRESET_def)
  show "sendInLoop K t d s = (case out of
        WriteOk n \<Rightarrow> sendRest K t (drop n d) False
          (if length d - n = 0 \<and> hasWriteComplete (conn s) then queue_c K t (WriteCompleteF (objId (conn s))) s1 else s1)
      | WriteErr e \<Rightarrow> if e = EPIPE \<or> e = ECONNRESET then Inr s1 else sendRest K t d False s1)"
    if "content (outputBuffer (conn s)) = []" "sock_write K (kst (ioLoop s)) (socketFd (conn s)) d = (k', out)"
      "s1 = s\<lparr>ioLoop := (ioLoop s)\<lparr>kst := k'\<rparr>\<rparr>"
    using that st ch rd w errno by (cases out) (auto simp: sendInLoop_def Let_def sendRest_def)
qed

text \<open>The second half, after a first half that has sent \<open>bs\<close> and queued \<open>fs\<close>.\<close>

definition sends :: "'k kernel \<Rightarrow> ('k, 'z) tcp_scheme \<Rightarrow> string \<Rightarrow> string \<Rightarrow> functor_t list \<Rightarrow>
    ('k, 'z) tcp_scheme result \<Rightarrow> bool" where
  "sends K s d bs fs r \<longleftrightarrow> (case r of
      Inl e \<Rightarrow> e = LengthError \<and> vec_max_size < writerIndex (outputBuffer (conn s)) + length d
    | Inr s' \<Rightarrow> conn_inv K s' \<and> conn_frame K s s' \<and> c_fin K s' = c_fin K s \<and>
        (\<exists>b. conn s' = (conn s)\<lparr>outputBuffer := b\<rparr> \<and>
           length (bufferV b) \<le> length (bufferV (outputBuffer (conn s))) + length d) \<and>
        out_stream K s' = out_stream K s @ bs \<and>
        pendingFunctors (ioLoop s') = pendingFunctors (ioLoop s) @ fs @ hwm_queued (conn s) (conn s'))"

lemma sendRest_after:
  assumes ep: "epoll_doc K" and ev: "eventfd_doc K" and m: "moved K s s1 bs False fs" and c1: "conn s1 = conn s"
    and w: "writing s1 \<longleftrightarrow> content (outputBuffer (conn s)) \<noteq> []" and d: "bs @ rest = d"
    and e: "bs \<noteq> [] \<Longrightarrow> content (outputBuffer (conn s)) = []"
    and st: "stateC (conn s) \<noteq> kDisconnected" and len: "length d \<le> vec_max_size"
  shows "sends K s d d fs (sendRest K t rest False s1)"
proof -
  note M = movedD [OF m]
  have wr1: "writing s1 \<longleftrightarrow> content (outputBuffer (conn s1)) \<noteq> []" using w c1 by simp
  have st1: "stateC (conn s1) \<noteq> kDisconnected" using st c1 by simp
  have l: "length rest \<le> vec_max_size" "length rest \<le> length d" using len d by auto
  have out: "c_sent K s @ bs @ content (outputBuffer (conn s)) @ rest = c_sent K s @ content (outputBuffer (conn s)) @ d"
    using e d by (cases "bs = []") auto
  note R = sendRest_ok [OF ep ev M(1) wr1 st1 l(1), of t]
  show ?thesis
  proof (cases "sendRest K t rest False s1")
    case (Inl e)
    with R c1 l(2) show ?thesis by (simp add: sends_def)
  next
    case (Inr s')
    with R c1 obtain b where b: "conn s' = (conn s)\<lparr>outputBuffer := b\<rparr>"
        "content b = content (outputBuffer (conn s)) @ rest"
        "length (bufferV b) \<le> length (bufferV (outputBuffer (conn s))) + length rest" by auto
    have "\<exists>b. conn s' = (conn s)\<lparr>outputBuffer := b\<rparr> \<and>
        length (bufferV b) \<le> length (bufferV (outputBuffer (conn s))) + length d"
      using b(1,3) l(2) by (intro exI [of _ b]) simp
    moreover have "out_stream K s' = out_stream K s @ d"
      using R Inr M(3) b(1,2) out by (simp add: out_stream_def)
    moreover have "conn_frame K s s'" using R Inr conn_frame_trans [OF M(2), of s'] by simp
    ultimately show ?thesis using R Inr M(4,5) c1 by (simp add: sends_def)
  qed
qed

lemma sendInLoop_fault:
  assumes "moved K s s1 [] False []" and "conn s1 = conn s"
    and "writing s1 \<longleftrightarrow> content (outputBuffer (conn s)) \<noteq> []" and "stateC (conn s) \<noteq> kDisconnected"
  shows "sends K s d [] [] (Inr s1)"
proof -
  have "\<exists>b. conn s = (conn s)\<lparr>outputBuffer := b\<rparr> \<and>
      length (bufferV b) \<le> length (bufferV (outputBuffer (conn s))) + length d"
    by (intro exI [of _ "outputBuffer (conn s)"]) simp
  then show ?thesis using movedD [OF assms(1)] assms(2-4)
    by (simp add: sends_def conn_inv_def out_stream_def hwm_queued_same)
qed

lemma sendInLoop_sends:
  assumes doc: "kernel_doc K" and inv: "conn_inv K s" and st: "stateC (conn s) \<noteq> kDisconnected"
    and len: "length d \<le> vec_max_size"
  shows "sends K s d
      (if content (outputBuffer (conn s)) = [] \<and> write_fault K (kst (ioLoop s)) (socketFd (conn s)) d then [] else d)
      (wc_queued (conn s) d (snd (sock_write K (kst (ioLoop s)) (socketFd (conn s)) d)))
      (sendInLoop K t d s)"
proof (cases "content (outputBuffer (conn s)) = []")
  case False
  from inv st have b: "conn_base K s" and w: "writing s \<longleftrightarrow> content (outputBuffer (conn s)) \<noteq> []"
    by (auto simp: conn_inv_def)
  from sendRest_after [OF kernel_docD(1,3) [OF doc] moved_refl [OF b] refl w _ _ st len, of d t] False
  show ?thesis by (simp add: sendInLoop_first(1) [OF inv st False] wc_queued_def)
next
  case True
  let ?k = "kst (ioLoop s)" and ?fd = "socketFd (conn s)" and ?ob = "outputBuffer (conn s)"
  obtain k' out where c: "sock_write K ?k ?fd d = (k', out)" by force
  define s1 where "s1 = s\<lparr>ioLoop := (ioLoop s)\<lparr>kst := k'\<rparr>\<rparr>"
  from inv st have b: "conn_base K s" and w: "writing s1 \<longleftrightarrow> content ?ob \<noteq> []"
    by (auto simp: conn_inv_def s1_def)
  have c1: "conn s1 = conn s" by (simp add: s1_def)
  note first = sendInLoop_first(2) [OF inv st True c s1_def, of t]
    and m1 = moved_write [OF kernel_docD(4) [OF doc] b c, folded s1_def]
    and after = sendRest_after [OF kernel_docD(1,3) [OF doc]]
  show ?thesis
  proof (cases out)
    case (WriteErr e)
    then have m: "moved K s s1 [] False []" and wc: "wc_queued (conn s) d out = []" using m1 by (simp_all add: wc_queued_def)
    have "write_fault K ?k ?fd d \<longleftrightarrow> e = EPIPE \<or> e = ECONNRESET" using c WriteErr by (auto simp: write_fault_def)
    then show ?thesis
      using first WriteErr c wc True sendInLoop_fault [OF m c1 w st, of d] after [OF m c1 w _ _ st len, of d t]
      by (cases "e = EPIPE \<or> e = ECONNRESET") simp_all
  next
    case (WriteOk n)
    let ?c = "length d - n = 0 \<and> hasWriteComplete (conn s)" and ?f = "WriteCompleteF (objId (conn s))"
    let ?s2 = "if ?c then queue_c K t ?f s1 else s1"
    have n: "n \<le> length d" using sock_write_docD(6) [OF kernel_docD(4) [OF doc] c WriteOk] by simp
    have "moved K s1 ?s2 [] False (if ?c then [?f] else [])"
      by (rule moved_queue [OF kernel_docD(3) [OF doc] movedD(1) [OF m1]]) (simp add: c1)
    from moved_trans [OF m1 this] have m2: "moved K s ?s2 (take n d) False (if ?c then [?f] else [])"
      by (simp add: WriteOk)
    have wc: "(if ?c then [?f] else []) = wc_queued (conn s) d out" using True n by (auto simp: wc_queued_def WriteOk)
    have c2: "conn ?s2 = conn s" and w2: "writing ?s2 \<longleftrightarrow> content ?ob \<noteq> []" using c1 w by simp_all
    have "\<not> write_fault K ?k ?fd d" using c WriteOk by (auto simp: write_fault_def)
    with after [OF m2 c2 w2 append_take_drop_id True st len, of t] show ?thesis
      unfolding wc using first c WriteOk by simp
  qed
qed

lemmas sendInLoop_ok = sendInLoop_sends [unfolded sends_def]

section \<open>Shutting down and writing\<close>

lemma shutdown_docD:
  assumes "shutdown_doc K"
  shows "interest K (fst (sock_shutdown K k fd)) = interest K k"
    and "sent K (fst (sock_shutdown K k fd)) = sent K k"
    and "file_data K (fst (sock_shutdown K k fd)) = file_data K k"
    and "wr_shut K (fst (sock_shutdown K k fd)) = (wr_shut K k)(fd := True)"
  using assms unfolding shutdown_doc_def by (metis prod.collapse)+

lemma shutdownInLoop_ok:
  assumes doc: "shutdown_doc K" and base: "conn_base K s"
  shows "\<exists>s'. shutdownInLoop K s = Inr s' \<and> conn_base K s' \<and> conn_frame K s s' \<and> conn s' = conn s \<and>
    writing s' = writing s \<and> c_sent K s' = c_sent K s \<and> c_fin K s' = (c_fin K s \<or> \<not> writing s) \<and>
    pendingFunctors (ioLoop s') = pendingFunctors (ioLoop s)"
proof -
  from base obtain ch where ch: "chan_of s = Inr ch" "c_chan s = Some ch" by (rule chan_of_base)
  note w = writing_chan [OF ch(2)]
  show ?thesis
  proof (cases "isWriting ch")
    case True
    then show ?thesis using ch base w by (simp add: shutdownInLoop_def)
  next
    case False
    let ?s = "s\<lparr>ioLoop := (ioLoop s)\<lparr>kst := fst (sock_shutdown K (kst (ioLoop s)) (socketFd (conn s)))\<rparr>\<rparr>"
    have "conn_frame K s ?s" by (simp add: conn_frame_def loop_frame_def shutdown_docD [OF doc])
    moreover have "conn_base K ?s" by (rule kst_upd_base [OF base]) (rule shutdown_docD(1) [OF doc])
    ultimately show ?thesis using False ch w
      by (simp add: shutdownInLoop_def c_sent_def c_fin_def shutdown_docD [OF doc])
  qed
qed

text \<open>
  \<^verbatim>\<open>handleWrite\<close> hands a prefix of the output buffer to the kernel; when nothing is left it stops
  waiting for \<^verbatim>\<open>EPOLLOUT\<close>, queues the write-complete callback and finishes a pending shutdown.
\<close>

lemma handleWrite_drained:
  assumes doc: "kernel_doc K" and base: "conn_base K s" and e: "content (outputBuffer (conn s)) = []"
    and st: "stateC (conn s) \<noteq> kDisconnected"
  shows "\<exists>s'. bind_r (on_loop (disableWriting K (channelP (conn s))) s) (\<lambda>s3.
        let s4 = (if hasWriteComplete (conn s3) then queue_c K t (WriteCompleteF (objId (conn s3))) s3 else s3)
        in if stateC (conn s4) = kDisconnecting then shutdownInLoop K s4 else Inr s4) = Inr s' \<and>
      conn_inv K s' \<and> conn s' = conn s \<and> moved K s s' [] (stateC (conn s) = kDisconnecting)
        (if hasWriteComplete (conn s) then [WriteCompleteF (objId (conn s))] else [])"
proof -
  note ep = kernel_docD(1) [OF doc] and ev = kernel_docD(3) [OF doc] and sd = kernel_docD(7) [OF doc]
  from disableWriting_c [OF ep base] obtain s3 where
    s3: "on_loop (disableWriting K (channelP (conn s))) s = Inr s3" "conn s3 = conn s" "\<not> writing s3"
    and m3: "moved K s s3 [] False []" by (auto simp: moved_def)
  define s4 where "s4 = (if hasWriteComplete (conn s3) then queue_c K t (WriteCompleteF (objId (conn s3))) s3 else s3)"
  have "moved K s3 s4 [] False (if hasWriteComplete (conn s3) then [WriteCompleteF (objId (conn s3))] else [])"
    unfolding s4_def by (rule moved_queue [OF ev movedD(1) [OF m3]]) simp
  from moved_trans [OF m3 this] have m4: "moved K s s4 [] False
      (if hasWriteComplete (conn s) then [WriteCompleteF (objId (conn s))] else [])" by (simp only: s3(2) append_Nil simp_thms)
  have s4: "conn s4 = conn s" "\<not> writing s4" using s3 by (simp_all add: s4_def)
  show ?thesis
  proof (cases "stateC (conn s) = kDisconnecting")
    case False
    then show ?thesis using s3(1) s4 m4 movedD(1) [OF m4] e st
      by (auto simp: Let_def s4_def [symmetric] conn_inv_def)
  next
    case True
    from shutdownInLoop_ok [OF sd movedD(1) [OF m4]] s4 obtain s5 where
      s5: "shutdownInLoop K s4 = Inr s5" "conn s5 = conn s" "\<not> writing s5" and m5: "moved K s4 s5 [] True []"
      by (auto simp: moved_def)
    from moved_trans [OF m4 m5] have m: "moved K s s5 [] True
        (if hasWriteComplete (conn s) then [WriteCompleteF (objId (conn s))] else [])" by simp
    then show ?thesis using s3(1) s4(1) s5 True movedD(1) [OF m] e
      by (auto simp: Let_def s4_def [symmetric] conn_inv_def)
  qed
qed

text \<open>\<^verbatim>\<open>handleWrite\<close> while the channel waits for \<^verbatim>\<open>EPOLLOUT\<close>, by the outcome of the write.\<close>

lemma handleWrite_first:
  assumes base: "conn_base K s" and w: "writing s"
    and c: "sock_write K (kst (ioLoop s)) (socketFd (conn s)) (content (outputBuffer (conn s))) = (k', out)"
    and s1: "s1 = s\<lparr>ioLoop := (ioLoop s)\<lparr>kst := k'\<rparr>\<rparr>"
  shows "\<not> (\<exists>m > 0. out = WriteOk m) \<Longrightarrow> handleWrite K t s = Inr s1"
    and "out = WriteOk n \<Longrightarrow> 0 < n \<Longrightarrow> b = retrieve n (outputBuffer (conn s)) \<Longrightarrow>
      s2 = s1\<lparr>conn := (conn s1)\<lparr>outputBuffer := b\<rparr>\<rparr> \<Longrightarrow>
      handleWrite K t s = (if content b = []
        then bind_r (on_loop (disableWriting K (channelP (conn s2))) s2) (\<lambda>s3.
               let s4 = (if hasWriteComplete (conn s3) then queue_c K t (WriteCompleteF (objId (conn s3))) s3 else s3)
               in if stateC (conn s4) = kDisconnecting then shutdownInLoop K s4 else Inr s4)
        else Inr s2)"
proof -
  let ?ob = "outputBuffer (conn s)"
  have wf: "buffer_wf ?ob" using base by (simp add: conn_base_def)
  from base obtain ch where ch: "chan_of s = Inr ch" "c_chan s = Some ch" "ch_fd ch = socketFd (conn s)"
    by (rule chan_of_base)
  have iw: "isWriting ch" using w writing_chan [OF ch(2)] by simp
  have pk: "peek (length (content ?ob)) ?ob = Inr (content ?ob)" using peek_content [OF wf] by simp
  show "handleWrite K t s = Inr s1" if "\<not> (\<exists>m > 0. out = WriteOk m)"
    using that ch iw c pk wf by (cases out) (auto simp: handleWrite_def s1 writeFd_def Let_def)
  show "handleWrite K t s = (if content b = []
        then bind_r (on_loop (disableWriting K (channelP (conn s2))) s2) (\<lambda>s3.
               let s4 = (if hasWriteComplete (conn s3) then queue_c K t (WriteCompleteF (objId (conn s3))) s3 else s3)
               in if stateC (conn s4) = kDisconnecting then shutdownInLoop K s4 else Inr s4)
        else Inr s2)"
    if "out = WriteOk n" "0 < n" "b = retrieve n ?ob" "s2 = s1\<lparr>conn := (conn s1)\<lparr>outputBuffer := b\<rparr>\<rparr>"
    using that ch iw c pk wf retrieve_wf [OF wf, of n]
    by (simp add: handleWrite_def s1 writeFd_def Let_def cong: if_cong)
qed

lemma handleWrite_some:
  assumes doc: "kernel_doc K" and inv: "conn_inv K s" and w: "writing s" and n: "0 < n"
    and c: "sock_write K (kst (ioLoop s)) (socketFd (conn s)) (content (outputBuffer (conn s))) = (k', WriteOk n)"
  shows "\<exists>s' b. handleWrite K t s = Inr s' \<and> conn_inv K s' \<and> conn s' = (conn s)\<lparr>outputBuffer := b\<rparr> \<and>
    content b = drop n (content (outputBuffer (conn s))) \<and> bufferV b = bufferV (outputBuffer (conn s)) \<and>
    moved K s s' (take n (content (outputBuffer (conn s)))) (content b = [] \<and> stateC (conn s) = kDisconnecting)
      (if content b = [] \<and> hasWriteComplete (conn s) then [WriteCompleteF (objId (conn s))] else [])"
proof -
  let ?ob = "outputBuffer (conn s)" and ?b = "retrieve n (outputBuffer (conn s))"
  from inv w have base: "conn_base K s" and st: "stateC (conn s) \<noteq> kDisconnected" by (auto simp: conn_inv_def split: if_splits)
  have wf: "buffer_wf ?ob" using base by (simp add: conn_base_def)
  define s1 where "s1 = s\<lparr>ioLoop := (ioLoop s)\<lparr>kst := k'\<rparr>\<rparr>"
  define s2 where "s2 = s1\<lparr>conn := (conn s1)\<lparr>outputBuffer := ?b\<rparr>\<rparr>"
  have m1: "moved K s s1 (take n (content ?ob)) False []"
    using moved_write [OF kernel_docD(4) [OF doc] base c] by (simp add: s1_def)
  have "moved K s1 s2 [] False []" unfolding s2_def by (rule moved_buffer [OF movedD(1) [OF m1] retrieve_wf [OF wf]])
  from moved_trans [OF m1 this] have m2: "moved K s s2 (take n (content ?ob)) False []" by simp
  have c2: "conn s2 = (conn s)\<lparr>outputBuffer := ?b\<rparr>" "writing s2" using w by (simp_all add: s2_def s1_def writing_def c_chan_def)
  note hw = handleWrite_first(2) [OF base w c s1_def refl n refl s2_def, of t] and cb = content_retrieve [OF wf, of n]
  show ?thesis
  proof (cases "content ?b = []")
    case False
    then have "conn_inv K s2" using movedD(1) [OF m2] c2 st by (simp add: conn_inv_def)
    then show ?thesis using False hw c2 cb m2 by (intro exI [of _ s2] exI [of _ ?b]) simp
  next
    case empty: True
    have sel: "stateC (conn s2) = stateC (conn s)" "hasWriteComplete (conn s2) = hasWriteComplete (conn s)"
      "objId (conn s2) = objId (conn s)" "content (outputBuffer (conn s2)) = []" using c2(1) empty by simp_all
    from handleWrite_drained [OF doc movedD(1) [OF m2] sel(4), of t, unfolded sel(1-3)] st obtain s3 where
      s3: "handleWrite K t s = Inr s3" "conn_inv K s3" "conn s3 = conn s2"
      and m3: "moved K s2 s3 [] (stateC (conn s) = kDisconnecting)
        (if hasWriteComplete (conn s) then [WriteCompleteF (objId (conn s))] else [])"
      unfolding hw if_P [OF empty] by blast
    have "moved K s s3 (take n (content ?ob)) (stateC (conn s) = kDisconnecting)
        (if hasWriteComplete (conn s) then [WriteCompleteF (objId (conn s))] else [])"
      using moved_trans [OF m2 m3] by (simp only: append_Nil append_Nil2 simp_thms)
    then show ?thesis using s3 c2(1) empty cb by (intro exI [of _ s3] exI [of _ ?b]) simp
  qed
qed

lemma handleWrite_ok:
  assumes doc: "kernel_doc K" and inv: "conn_inv K s"
  shows "\<exists>s' n b. handleWrite K t s = Inr s' \<and> conn_inv K s' \<and> conn_frame K s s' \<and>
    conn s' = (conn s)\<lparr>outputBuffer := b\<rparr> \<and>
    n \<le> (if writing s then length (content (outputBuffer (conn s))) else 0) \<and>
    content b = drop n (content (outputBuffer (conn s))) \<and> bufferV b = bufferV (outputBuffer (conn s)) \<and>
    c_sent K s' = c_sent K s @ take n (content (outputBuffer (conn s))) \<and>
    (0 < n \<longleftrightarrow> writing s \<and> (\<exists>m > 0. snd (sock_write K (kst (ioLoop s)) (socketFd (conn s))
        (content (outputBuffer (conn s)))) = WriteOk m)) \<and>
    c_fin K s' = (c_fin K s \<or> (0 < n \<and> content b = [] \<and> stateC (conn s) = kDisconnecting)) \<and>
    pendingFunctors (ioLoop s') = pendingFunctors (ioLoop s) @
      (if 0 < n \<and> content b = [] \<and> hasWriteComplete (conn s) then [WriteCompleteF (objId (conn s))] else [])"
proof (cases "writing s")
  case False
  from inv obtain ch where ch: "chan_of s = Inr ch" "c_chan s = Some ch" using chan_of_base [of K s] by (auto simp: conn_inv_def)
  have "handleWrite K t s = Inr s" using ch False writing_chan [OF ch(2)] by (simp add: handleWrite_def)
  then show ?thesis using inv False by (intro exI [of _ s] exI [of _ 0] exI [of _ "outputBuffer (conn s)"]) simp
next
  case True
  let ?ob = "outputBuffer (conn s)"
  from inv True have base: "conn_base K s" and st: "stateC (conn s) \<noteq> kDisconnected" and ne: "content ?ob \<noteq> []"
    by (auto simp: conn_inv_def split: if_splits)
  obtain k' out where c: "sock_write K (kst (ioLoop s)) (socketFd (conn s)) (content ?ob) = (k', out)" by force
  show ?thesis
  proof (cases "\<exists>m > 0. out = WriteOk m")
    case False
    define s1 where "s1 = s\<lparr>ioLoop := (ioLoop s)\<lparr>kst := k'\<rparr>\<rparr>"
    have v1: "conn s1 = conn s" "writing s1" using True by (simp_all add: s1_def)
    have "(case out of WriteOk n \<Rightarrow> take n (content ?ob) | WriteErr e \<Rightarrow> []) = []" using False by (cases out) auto
    with moved_write [OF kernel_docD(4) [OF doc] base c] have m: "moved K s s1 [] False []" by (simp add: s1_def)
    have "conn_inv K s1" using movedD(1) [OF m] v1 st ne by (simp add: conn_inv_def)
    then show ?thesis using False True c v1(1) handleWrite_first(1) [OF base True c s1_def False, of t] movedD [OF m]
      by (intro exI [of _ s1] exI [of _ 0] exI [of _ ?ob]) auto
  next
    case pos: True
    then obtain n where n: "out = WriteOk n" "0 < n" by auto
    have le: "n \<le> length (content ?ob)" using sock_write_docD(6) [OF kernel_docD(4) [OF doc] c n(1)] by simp
    from handleWrite_some [OF doc inv True n(2) c [unfolded n(1)], of t] obtain s' b where
      s': "handleWrite K t s = Inr s'" "conn_inv K s'" "conn s' = (conn s)\<lparr>outputBuffer := b\<rparr>"
        "content b = drop n (content ?ob)" "bufferV b = bufferV ?ob"
      and m: "moved K s s' (take n (content ?ob)) (content b = [] \<and> stateC (conn s) = kDisconnecting)
        (if content b = [] \<and> hasWriteComplete (conn s) then [WriteCompleteF (objId (conn s))] else [])" by blast
    show ?thesis using s' True le n c movedD [OF m] by (intro exI [of _ s'] exI [of _ n] exI [of _ b]) auto
  qed
qed

end
