(* ===== verification/ConnectionSpec.thy ===== *)
theory ConnectionSpec
  imports ConnectionOps
begin

text \<open>
  The abstract connection, and that the operations of a connection refine its operations.
\<close>

section \<open>The abstract connection\<close>

text \<open>
  What a connection promises its user, without buffers, channels or the kernel: a state, the bytes
  handed over for sending so far and the bytes received and not yet taken.
\<close>

record aconn =
  a_state :: state_e
  a_out :: string
  a_in :: string

fun spec_op :: "user_op \<Rightarrow> aconn \<Rightarrow> aconn" where
  "spec_op (USend m) a = (if a_state a = kConnected then a\<lparr>a_out := a_out a @ m\<rparr> else a)"
| "spec_op USendInput a =
     (if a_state a = kConnected then a\<lparr>a_out := a_out a @ a_in a, a_in := []\<rparr> else a)"
| "spec_op UShutdown a = (if a_state a = kConnected then a\<lparr>a_state := kDisconnecting\<rparr> else a)"
| "spec_op (URetrieve n) a = a\<lparr>a_in := drop n (a_in a)\<rparr>"
| "spec_op URetrieveAll a = a\<lparr>a_in := []\<rparr>"
| "spec_op (USendFile f off n) a = a"
| "spec_op (USetTcpNoDelay on) a = a"
| "spec_op (USetHighWaterMark n) a = a"

definition abs_conn :: "'k kernel \<Rightarrow> ('k, 'z) tcp_scheme \<Rightarrow> aconn" where
  "abs_conn K s = \<lparr>a_state = stateC (conn s), a_out = out_stream K s,
     a_in = content (inputBuffer (conn s))\<rparr>"

text \<open>
  Messages are no longer than a string can be. Files are no part of the abstract connection: \<^verbatim>\<open>sendFile\<close>
  hands its bytes to the kernel past the output buffer, so that it keeps no order with \<^verbatim>\<open>send\<close>; it has its
  own theorems. The peer has not reset the connection.
\<close>

fun op_ok :: "user_op \<Rightarrow> bool" where
  "op_ok (USend m) \<longleftrightarrow> length m \<le> vec_max_size"
| "op_ok (USendFile f off n) \<longleftrightarrow> False"
| "op_ok _ \<longleftrightarrow> True"

definition no_reset :: "'k kernel \<Rightarrow> bool" where
  "no_reset K \<longleftrightarrow> (\<forall>k fd d. \<not> write_fault K k fd d)"

text \<open>The write side is shut down exactly when a shutdown was asked for and everything is sent.\<close>

definition fin_ok :: "'k kernel \<Rightarrow> ('k, 'z) tcp_scheme \<Rightarrow> bool" where
  "fin_ok K s \<longleftrightarrow>
     (stateC (conn s) = kDisconnecting \<longrightarrow> (c_fin K s \<longleftrightarrow> content (outputBuffer (conn s)) = [])) \<and>
     (stateC (conn s) = kConnecting \<or> stateC (conn s) = kConnected \<longrightarrow> \<not> c_fin K s)"

text \<open>
  An upper bound of the memory the output buffer can come to need: its vector and the bytes a call
  may add. Below the maximal size of a vector no call fails.
\<close>

fun op_cost :: "user_op \<Rightarrow> nat" where
  "op_cost (USend m) = length m"
| "op_cost _ = 0"

definition room :: "('k, 'z) tcp_scheme \<Rightarrow> nat" where
  "room s = length (bufferV (outputBuffer (conn s))) + length (content (inputBuffer (conn s)))"

lemma sendInLoop_refines:
  assumes doc: "kernel_doc K" and nr: "no_reset K" and inv: "conn_inv K s" and fin: "fin_ok K s"
    and st: "stateC (conn s) = kConnected"
    and len: "length (bufferV (outputBuffer (conn s))) + length d \<le> vec_max_size"
  shows "\<exists>s' b. sendInLoop K t d s = Inr s' \<and> conn_inv K s' \<and> fin_ok K s' \<and> conn_frame K s s' \<and>
    conn s' = (conn s)\<lparr>outputBuffer := b\<rparr> \<and> length (bufferV b) \<le> length (bufferV (outputBuffer (conn s))) + length d \<and>
    out_stream K s' = out_stream K s @ d"
proof -
  have "stateC (conn s) \<noteq> kDisconnected" using st by simp
  moreover have "length d \<le> vec_max_size" using len by simp
  moreover have "\<not> vec_max_size < writerIndex (outputBuffer (conn s)) + length d"
    using len inv buffer_wf_bounds(3) [of "outputBuffer (conn s)"] by (simp add: conn_inv_def conn_base_def)
  ultimately show ?thesis using sendInLoop_ok [OF doc inv, of d t] nr fin st
    by (auto simp: no_reset_def fin_ok_def split: sum.splits)
qed

text \<open>
  A call that returns a state of the invariant, framed by the connection, in which the abstract
  connection is \<open>a\<close> and the bound of the memory has grown by at most \<open>n\<close>.
\<close>

definition refined :: "'k kernel \<Rightarrow> ('k, 'z) tcp_scheme \<Rightarrow> aconn \<Rightarrow> nat \<Rightarrow> ('k, 'z) tcp_scheme result \<Rightarrow> bool" where
  "refined K s a n r \<longleftrightarrow> (\<exists>s'. r = Inr s' \<and> conn_inv K s' \<and> fin_ok K s' \<and> conn_frame K s s' \<and>
     abs_conn K s' = a \<and> room s' \<le> room s + n)"

lemma refined_same: "conn_inv K s \<Longrightarrow> fin_ok K s \<Longrightarrow> refined K s (abs_conn K s) 0 (Inr s)"
  by (simp add: refined_def)

lemma refined_input:
  assumes "conn_inv K s" and "fin_ok K s" and "buffer_wf b" and "length (content b) \<le> length (content (inputBuffer (conn s)))"
  shows "refined K s ((abs_conn K s)\<lparr>a_in := content b\<rparr>) 0 (Inr (s\<lparr>conn := (conn s)\<lparr>inputBuffer := b\<rparr>\<rparr>))"
  using assms conn_upd_base(2) [of K s b] frame_conn_upd [of "(conn s)\<lparr>inputBuffer := b\<rparr>" s K]
  by (simp add: refined_def conn_inv_def fin_ok_def abs_conn_def out_stream_def room_def)

lemma refined_attr:
  assumes "conn_inv K s" and "fin_ok K s" and core: "conn_core c = conn_core (conn s)"
    and "inputBuffer c = inputBuffer (conn s)" and "outputBuffer c = outputBuffer (conn s)" and "objId c = objId (conn s)"
    and "socketFd c = socketFd (conn s)" and "stateC c = stateC (conn s)"
  shows "refined K s (abs_conn K s) 0 (Inr (s\<lparr>conn := c\<rparr>))"
  using conn_attr [OF assms(1) core] assms(2,4-)
  by (simp add: refined_def abs_conn_def out_stream_def room_def fin_ok_def c_sent_def c_fin_def)

lemma send_refined:
  assumes "kernel_doc K" and "no_reset K" and "conn_inv K s" and "fin_ok K s" and t: "isInLoopThread t (ioLoop s)"
    and mem: "room s + length m \<le> vec_max_size"
  shows "refined K s (spec_op (USend m) (abs_conn K s)) (length m) (send K t m s)"
proof (cases "stateC (conn s) = kConnected")
  case False
  then show ?thesis using assms(3,4) by (simp add: refined_def send_def abs_conn_def)
next
  case True
  have "length (bufferV (outputBuffer (conn s))) + length m \<le> vec_max_size" using mem by (simp add: room_def)
  from sendInLoop_refines [OF assms(1-4) True this, of t] t True show ?thesis
    by (auto simp: refined_def send_def abs_conn_def room_def)
qed

text \<open>Sending the input buffer moves its bytes: what it costs is already accounted for.\<close>

lemma sendBuf_refined:
  assumes "kernel_doc K" and "no_reset K" and inv: "conn_inv K s" and "fin_ok K s" and t: "isInLoopThread t (ioLoop s)"
    and mem: "room s \<le> vec_max_size"
  shows "refined K s (spec_op USendInput (abs_conn K s)) 0 (do_user_op K t USendInput s)"
proof (cases "stateC (conn s) = kConnected")
  case False
  then show ?thesis using assms(3,4) by (simp add: refined_def do_user_op_def sendBuf_def abs_conn_def)
next
  case True
  let ?ib = "inputBuffer (conn s)"
  have wfi: "buffer_wf ?ib" using inv by (simp add: conn_inv_def conn_base_def)
  have mem': "length (bufferV (outputBuffer (conn s))) + length (content ?ib) \<le> vec_max_size"
    using mem by (simp add: room_def)
  from sendInLoop_refines [OF assms(1-4) True mem', of t] obtain s1 b where
    s1: "sendInLoop K t (content ?ib) s = Inr s1" "conn_inv K s1" "fin_ok K s1" "conn_frame K s s1"
      "conn s1 = (conn s)\<lparr>outputBuffer := b\<rparr>"
      "length (bufferV b) \<le> length (bufferV (outputBuffer (conn s))) + length (content ?ib)"
      "out_stream K s1 = out_stream K s @ content ?ib" by blast
  have "peek (readableBytes ?ib) ?ib = Inr (content ?ib)"
    using peek_content [OF wfi, of "length (content ?ib)"] wfi by simp
  then have "do_user_op K t USendInput s = Inr (s1\<lparr>conn := (conn s1)\<lparr>inputBuffer := retrieveAll ?ib\<rparr>\<rparr>)"
    using True t s1(1) by (simp add: do_user_op_def sendBuf_def comp_def)
  moreover have "refined K s1 ((abs_conn K s1)\<lparr>a_in := content (retrieveAll ?ib)\<rparr>) 0
      (Inr (s1\<lparr>conn := (conn s1)\<lparr>inputBuffer := retrieveAll ?ib\<rparr>\<rparr>))"
    by (rule refined_input [OF s1(2,3) retrieveAll_wf [OF wfi]]) simp
  ultimately show ?thesis using True s1(4-7) conn_frame_trans [OF s1(4)]
    by (simp add: refined_def abs_conn_def room_def)
qed

lemma shutdown_refined:
  assumes doc: "kernel_doc K" and inv: "conn_inv K s" and fin: "fin_ok K s" and t: "isInLoopThread t (ioLoop s)"
  shows "refined K s (spec_op UShutdown (abs_conn K s)) 0 (do_user_op K t UShutdown s)"
proof (cases "stateC (conn s) = kConnected")
  case False
  then show ?thesis using inv fin by (simp add: refined_def do_user_op_def shutdown_def abs_conn_def)
next
  case True
  let ?s0 = "setState kDisconnecting s"
  have b0: "conn_base K ?s0" using inv by (simp add: conn_inv_def conn_upd_base(3))
  have f0: "conn_frame K s ?s0" unfolding setState_def by (rule frame_conn_upd) simp
  from shutdownInLoop_ok [OF kernel_docD(7) [OF doc] b0] obtain s' where
    s': "shutdownInLoop K ?s0 = Inr s'" "conn_base K s'" "conn_frame K ?s0 s'" "conn s' = conn ?s0"
      "writing s' = writing ?s0" "c_sent K s' = c_sent K ?s0" "c_fin K s' = (c_fin K ?s0 \<or> \<not> writing ?s0)"
    by blast
  have c': "conn s' = (conn s)\<lparr>stateC := kDisconnecting\<rparr>" using s'(4) by (simp add: setState_def)
  have "conn_inv K s'" "fin_ok K s'"
    using inv fin True s'(2,5,7) by (simp_all add: conn_inv_def fin_ok_def c')
  moreover have "abs_conn K s' = spec_op UShutdown (abs_conn K s)" "room s' = room s"
    using True s'(6) by (simp_all add: abs_conn_def c' out_stream_def room_def)
  moreover have "do_user_op K t UShutdown s = Inr s'"
    using True t s'(1) by (simp add: do_user_op_def shutdown_def runInLoop_c_def setState_def)
  ultimately show ?thesis using conn_frame_trans [OF f0 s'(3)] by (simp add: refined_def)
qed

lemma do_user_op_refines:
  assumes doc: "kernel_doc K" and nr: "no_reset K" and inv: "conn_inv K s" and fin: "fin_ok K s"
    and t: "isInLoopThread t (ioLoop s)" and small: "op_ok oper" and mem: "room s + op_cost oper \<le> vec_max_size"
  shows "refined K s (spec_op oper (abs_conn K s)) (op_cost oper) (do_user_op K t oper s)"
proof -
  have wfi: "buffer_wf (inputBuffer (conn s))" using inv by (simp add: conn_inv_def conn_base_def)
  show ?thesis
  proof (cases oper)
    case (USend m)
    then show ?thesis using send_refined [OF doc nr inv fin t, of m] mem by (simp add: do_user_op_def)
  next
    case USendInput
    then show ?thesis using sendBuf_refined [OF doc nr inv fin t] mem by simp
  next
    case (USendFile f off n)
    then show ?thesis using small by simp
  next
    case UShutdown
    then show ?thesis using shutdown_refined [OF doc inv fin t] by simp
  next
    case (URetrieve n)
    then show ?thesis using refined_input [OF inv fin retrieve_wf [OF wfi], of n] content_retrieve [OF wfi, of n]
      by (simp add: do_user_op_def abs_conn_def)
  next
    case URetrieveAll
    then show ?thesis using refined_input [OF inv fin retrieveAll_wf [OF wfi]] by (simp add: do_user_op_def)
  next
    case (USetTcpNoDelay on)
    then show ?thesis using refined_attr [OF inv fin conn_attr_sel(1), of on]
      by (simp add: do_user_op_def conn_setTcpNoDelay_def)
  next
    case (USetHighWaterMark n)
    then show ?thesis using refined_attr [OF inv fin conn_attr_sel(2), of True n]
      by (simp add: do_user_op_def setHighWaterMarkCallback_def)
  qed
qed

text \<open>What happens to a connection in its loop's thread: calls of its user, and its socket becoming writable.\<close>

datatype conn_event = EvUser user_op | EvWritable

definition run_event :: "'k kernel \<Rightarrow> int \<Rightarrow> conn_event \<Rightarrow> ('k, 'z) tcp_scheme \<Rightarrow> ('k, 'z) tcp_scheme result" where
  "run_event K t e s = (case e of EvUser oper \<Rightarrow> do_user_op K t oper s | EvWritable \<Rightarrow> handleWrite K t s)"

fun spec_event :: "conn_event \<Rightarrow> aconn \<Rightarrow> aconn" where
  "spec_event (EvUser oper) a = spec_op oper a"
| "spec_event EvWritable a = a"

fun ev_ok :: "conn_event \<Rightarrow> bool" where
  "ev_ok (EvUser oper) \<longleftrightarrow> op_ok oper"
| "ev_ok EvWritable \<longleftrightarrow> True"

fun ev_cost :: "conn_event \<Rightarrow> nat" where
  "ev_cost (EvUser oper) = op_cost oper"
| "ev_cost EvWritable = 0"

lemma handleWrite_refines:
  assumes doc: "kernel_doc K" and inv: "conn_inv K s" and fin: "fin_ok K s"
  shows "\<exists>s'. handleWrite K t s = Inr s' \<and> conn_inv K s' \<and> fin_ok K s' \<and> conn_frame K s s' \<and>
    abs_conn K s' = abs_conn K s \<and> room s' = room s"
proof -
  from handleWrite_ok [OF doc inv, of t] obtain s' n b where
    s': "handleWrite K t s = Inr s'" "conn_inv K s'" "conn_frame K s s'" "conn s' = (conn s)\<lparr>outputBuffer := b\<rparr>"
      "n \<le> (if writing s then length (content (outputBuffer (conn s))) else 0)"
      "content b = drop n (content (outputBuffer (conn s)))"
      "c_sent K s' = c_sent K s @ take n (content (outputBuffer (conn s)))"
      "c_fin K s' = (c_fin K s \<or> (0 < n \<and> content b = [] \<and> stateC (conn s) = kDisconnecting))"
      "bufferV b = bufferV (outputBuffer (conn s))"
    by blast
  have "abs_conn K s' = abs_conn K s" "room s' = room s"
    using s'(4,6,7,9) by (simp_all add: abs_conn_def out_stream_def room_def)
  moreover have "fin_ok K s'"
    using fin s'(4,6,8) by (cases "n = 0") (auto simp: fin_ok_def)
  ultimately show ?thesis using s' by blast
qed

lemma run_event_refines:
  assumes doc: "kernel_doc K" and nr: "no_reset K" and inv: "conn_inv K s" "fin_ok K s"
    and t: "isInLoopThread t (ioLoop s)" and ok: "ev_ok e" and mem: "room s + ev_cost e \<le> vec_max_size"
  shows "\<exists>s'. run_event K t e s = Inr s' \<and> conn_inv K s' \<and> fin_ok K s' \<and> conn_frame K s s' \<and>
    abs_conn K s' = spec_event e (abs_conn K s) \<and> room s' \<le> room s + ev_cost e"
proof (cases e)
  case (EvUser oper)
  then show ?thesis using do_user_op_refines [OF doc nr inv t, of oper] ok mem by (simp add: run_event_def refined_def)
next
  case EvWritable
  then show ?thesis using handleWrite_refines [OF doc inv, of t] by (auto simp: run_event_def)
qed

lemma run_events_refine:
  assumes doc: "kernel_doc K" and nr: "no_reset K" and "conn_inv K s" and "fin_ok K s"
    and "isInLoopThread t (ioLoop s)" and "list_all ev_ok evs"
    and "room s + sum_list (map ev_cost evs) \<le> vec_max_size"
  shows "\<exists>s'. run_each (run_event K t) evs s = Inr s' \<and> conn_inv K s' \<and> fin_ok K s' \<and> conn_frame K s s' \<and>
    abs_conn K s' = fold spec_event evs (abs_conn K s)"
  using assms(3-)
proof (induction evs arbitrary: s)
  case Nil
  then show ?case by simp
next
  case (Cons e evs)
  from run_event_refines [OF doc nr Cons.prems(1-3), of e] Cons.prems(4,5) obtain s1 where
    s1: "run_event K t e s = Inr s1" "conn_inv K s1" "fin_ok K s1" "conn_frame K s s1"
      "abs_conn K s1 = spec_event e (abs_conn K s)" "room s1 \<le> room s + ev_cost e" by auto
  have "isInLoopThread t (ioLoop s1)"
    using Cons.prems(3) conn_frameD(7) [OF s1(4)] by (simp add: isInLoopThread_def)
  from Cons.IH [OF s1(2,3) this] Cons.prems(4,5) s1(6) obtain s2 where
    "run_each (run_event K t) evs s1 = Inr s2" "conn_inv K s2" "fin_ok K s2" "conn_frame K s1 s2"
      "abs_conn K s2 = fold spec_event evs (abs_conn K s1)" by auto
  then show ?case using s1 conn_frame_trans [OF s1(4)] by auto
qed

end
