(* ===== verification/ConnectionStream.thy ===== *)
theory ConnectionStream
  imports ConnectionSpec
begin

text \<open>
  What a connection does to the byte stream of its peer, proved over the model of
  \<^verbatim>\<open>src/TcpConnection.cc\<close>: every branch of \<^verbatim>\<open>sendInLoop\<close>, the refinement of the abstract connection by
  sequences of calls and writable events, graceful shutdown, receiving, sending from other threads
  and sending files.
\<close>

section \<open>A sample connection\<close>

definition small_buffer :: buffer where
  "small_buffer = \<lparr>bufferV = replicate 16 (CHR 0x00), readerIndex = 8, writerIndex = 8\<rparr>"

definition sample_conn :: tcpconn where
  "sample_conn = \<lparr>objId = 1, loopId = 0, connName = ''s-127.0.0.1:80#1'', stateC = kConnected, reading = True,
     socketC = setKeepAlive True (mk_socket 7), channelP = 7, localAddr = mk_inet 80 default_ip, peerAddr = mk_inet 81 default_ip,
     hasWriteComplete = True, hasHighWaterMark = True, highWaterMark = 6,
     inputBuffer = small_buffer, outputBuffer = small_buffer\<rparr>"

definition sample_tcp :: "skernel tcp" where
  "sample_tcp = \<lparr>conn = sample_conn, ioLoop =
     \<lparr>chans = [7 \<mapsto> (mk_channel 7)\<lparr>ch_events := kReadEvent, ch_index := kAdded\<rparr>],
      channelsM = [7 \<mapsto> 7], eventsSize = 16, kst = sk_init\<lparr>sk_interest := [7 \<mapsto> (kReadEvent, 7)]\<rparr>,
      looping = True, quitF = False, threadId = 100, pollReturnTime = 0, wakeupFd = 3, wakeupChannel = 3,
      activeChannels = [], callingPendingFunctors = False, pendingFunctors = []\<rparr>\<rparr>"

lemma small_buffer_wf: "buffer_wf small_buffer" "content small_buffer = []"
  by (simp_all add: buffer_wf_def small_buffer_def kCheapPrepend_def vec_max_size_less content_def)

lemma sample_tcp_inv: "conn_inv skern sample_tcp" "fin_ok skern sample_tcp"
  "isInLoopThread 100 (ioLoop sample_tcp)" "stateC (conn sample_tcp) = kConnected"
  "out_stream skern sample_tcp = []" "objId (conn sample_tcp) = 1"
  by (auto simp: conn_inv_def conn_base_def fin_ok_def sample_tcp_def sample_conn_def small_buffer_wf
      reactor_wf_def chan_ok_def fd_free_def c_chan_def writing_def isWriting_def event_bits mk_channel_def
      index_defs isInLoopThread_def out_stream_def c_sent_def c_fin_def sk_init_def split: if_splits)

lemma skern_no_fault:
  "sk_broken k = None \<Longrightarrow> \<not> write_fault skern k fd d"
  by (simp add: write_fault_def sk_accept_def)

section \<open>Properties\<close>

text \<open>
  C10: every branch of \<^verbatim>\<open>sendInLoop\<close> on a connection that is not closed. The stream of bytes handed to
  the kernel followed by those in the output buffer grows by exactly the message, unless the first
  direct write finds the peer gone, in which case nothing of the message is kept; the channel waits
  for \<^verbatim>\<open>EPOLLOUT\<close> afterwards exactly if bytes are left; no other connection of the loop is touched.
  The write-complete callback is queued exactly if the kernel took all of it at once, the
  high-water-mark callback exactly if the buffered amount crosses the mark from below, with the new
  amount. The only error is a buffer beyond the maximal vector size.
\<close>

theorem sendInLoop_every_branch:
  assumes "kernel_doc K" and "conn_inv K s" and "stateC (conn s) \<noteq> kDisconnected"
    and "length d \<le> vec_max_size"
  shows "case sendInLoop K t d s of
      Inl e \<Rightarrow> e = LengthError \<and> vec_max_size < writerIndex (outputBuffer (conn s)) + length d
    | Inr s' \<Rightarrow> conn_inv K s' \<and> conn_frame K s s' \<and> c_fin K s' = c_fin K s \<and>
        (\<exists>b. conn s' = (conn s)\<lparr>outputBuffer := b\<rparr> \<and>
           length (bufferV b) \<le> length (bufferV (outputBuffer (conn s))) + length d) \<and>
        out_stream K s' = out_stream K s @
          (if content (outputBuffer (conn s)) = [] \<and>
              write_fault K (kst (ioLoop s)) (socketFd (conn s)) d then [] else d) \<and>
        pendingFunctors (ioLoop s') = pendingFunctors (ioLoop s) @
          wc_queued (conn s) d (snd (sock_write K (kst (ioLoop s)) (socketFd (conn s)) d)) @
          hwm_queued (conn s) (conn s')"
  by (rule sendInLoop_ok [OF assms])

theorem sendInLoop_every_branch_witness:
  "\<exists>s'. sendInLoop skern 100 ''hello world'' sample_tcp = Inr s' \<and> conn_inv skern s' \<and>
     out_stream skern s' = ''hello world'' \<and> pendingFunctors (ioLoop s') = hwm_queued (conn sample_tcp) (conn s')"
proof -
  let ?d = "''hello world''"
  have k: "kst (ioLoop sample_tcp) = sk_init\<lparr>sk_interest := [7 \<mapsto> (kReadEvent, 7)]\<rparr>"
    "outputBuffer (conn sample_tcp) = small_buffer" "pendingFunctors (ioLoop sample_tcp) = []"
    by (simp_all add: sample_tcp_def sample_conn_def)
  have st: "stateC (conn sample_tcp) \<noteq> kDisconnected" by (simp add: sample_tcp_inv)
  have len: "length ?d \<le> vec_max_size" by (simp add: vec_max_size_less)
  have nf: "\<not> write_fault skern (kst (ioLoop sample_tcp)) fd ?d" for fd
    by (rule skern_no_fault) (simp add: k sk_init_def)
  have wc: "wc_queued (conn sample_tcp) ?d (snd (sock_write skern (kst (ioLoop sample_tcp))
      (socketFd (conn sample_tcp)) ?d)) = []"
    by (simp add: wc_queued_def sk_accept_def k sk_init_def)
  have big: "\<not> vec_max_size < writerIndex small_buffer + length ?d"
    by (simp add: small_buffer_def vec_max_size_less not_less)
  from sendInLoop_every_branch [OF skern_doc sample_tcp_inv(1) st len, of 100] show ?thesis
    unfolding wc using nf big by (auto simp: k sample_tcp_inv(5) split: sum.splits)
qed

text \<open>
  C8: a connection implements the abstract connection. Starting from any state that satisfies the
  invariant, with the peer not resetting the connection, every sequence of calls other than \<^verbatim>\<open>sendFile\<close>
  (whose bytes bypass the buffer) that its user makes in the loop's thread, interleaved in any way with
  the socket becoming writable and the kernel taking any part of what it is offered, behaves as the same
  calls on the abstract connection: same state, same received bytes, and the bytes sent followed by
  those buffered are the bytes asked to be sent, each once and in order. No call fails as long as the
  bytes stay below the maximal size of a vector, and the invariant is kept.
\<close>

theorem connection_refines_abstract:
  assumes "kernel_doc K" and "no_reset K" and "conn_inv K s" and "fin_ok K s"
    and "isInLoopThread t (ioLoop s)" and "list_all ev_ok evs"
    and "room s + sum_list (map ev_cost evs) \<le> vec_max_size"
  shows "\<exists>s'. run_each (run_event K t) evs s = Inr s' \<and> conn_inv K s' \<and> fin_ok K s' \<and> conn_frame K s s' \<and>
    abs_conn K s' = fold spec_event evs (abs_conn K s)"
  by (rule run_events_refine [OF assms])

lemma calm_no_reset: "no_reset calm"
  by (simp add: no_reset_def write_fault_def sk_accept_def)

lemma sample_calm: "conn_inv calm sample_tcp" "fin_ok calm sample_tcp" "out_stream calm sample_tcp = []"
  using sample_tcp_inv by (simp_all add: conn_inv_def conn_base_def fin_ok_def reactor_wf_def chan_ok_def
      c_fin_def c_sent_def out_stream_def)

lemma sample_room: "room sample_tcp = 16"
  by (simp add: room_def sample_tcp_def sample_conn_def small_buffer_wf) (simp add: small_buffer_def)

theorem connection_refines_abstract_witness:
  "\<exists>s'. run_each (run_event calm 100) [EvUser (USend ''hello world''), EvWritable, EvUser (USend ''!'')] sample_tcp
      = Inr s' \<and> out_stream calm s' = ''hello world!'' \<and> conn_inv calm s'"
proof -
  let ?evs = "[EvUser (USend ''hello world''), EvWritable, EvUser (USend ''!'')]"
  have ok: "list_all ev_ok ?evs" "room sample_tcp + sum_list (map ev_cost ?evs) \<le> vec_max_size"
    by (simp_all add: vec_max_size_less sample_room)
  from connection_refines_abstract [OF calm_doc calm_no_reset sample_calm(1,2) sample_tcp_inv(3) ok]
  show ?thesis
    using sample_tcp_inv(4) sample_calm(3) by (auto simp: abs_conn_def)
qed

text \<open>The peer keeps reading: a write of some bytes takes at least one.\<close>

definition peer_reads :: "'k kernel \<Rightarrow> bool" where
  "peer_reads K \<longleftrightarrow> (\<forall>k fd d. d \<noteq> [] \<longrightarrow> (\<exists>n > 0. snd (sock_write K k fd d) = WriteOk n))"

lemma drain:
  assumes doc: "kernel_doc K" and pr: "peer_reads K" and "conn_inv K s" and "fin_ok K s"
    and "stateC (conn s) \<noteq> kDisconnected"
  shows "\<exists>n \<le> length (content (outputBuffer (conn s))). \<exists>s'.
    run_each (run_event K t) (replicate n EvWritable) s = Inr s' \<and> conn_inv K s' \<and> fin_ok K s' \<and>
    content (outputBuffer (conn s')) = [] \<and> abs_conn K s' = abs_conn K s"
  using assms(3-)
proof (induction "length (content (outputBuffer (conn s)))" arbitrary: s rule: less_induct)
  case less
  let ?c = "content (outputBuffer (conn s))"
  show ?case
  proof (cases "?c = []")
    case True
    then show ?thesis using less.prems by (intro exI [of _ 0]) simp
  next
    case False
    then have w: "writing s" using less.prems(1,3) by (simp add: conn_inv_def)
    from handleWrite_ok [OF doc less.prems(1), of t] obtain s1 n b where
      s1: "handleWrite K t s = Inr s1" "conn s1 = (conn s)\<lparr>outputBuffer := b\<rparr>" "content b = drop n ?c"
        "0 < n \<longleftrightarrow> writing s \<and> (\<exists>m > 0. snd (sock_write K (kst (ioLoop s)) (socketFd (conn s)) ?c) = WriteOk m)"
      by blast
    have n: "0 < n" using s1(4) w pr False by (auto simp: peer_reads_def)
    from handleWrite_refines [OF doc less.prems(1,2), of t] s1(1) have
      r: "conn_inv K s1" "fin_ok K s1" "abs_conn K s1 = abs_conn K s" by auto
    have lt: "length (content (outputBuffer (conn s1))) < length ?c" using s1(2,3) n False by simp
    have st1: "stateC (conn s1) \<noteq> kDisconnected" using less.prems(3) s1(2) by simp
    from less.hyps [OF lt r(1,2) st1] obtain m s2 where
      m: "m \<le> length (content (outputBuffer (conn s1)))"
        "run_each (run_event K t) (replicate m EvWritable) s1 = Inr s2" "conn_inv K s2" "fin_ok K s2"
        "content (outputBuffer (conn s2)) = []" "abs_conn K s2 = abs_conn K s1" by blast
    then show ?thesis using lt s1(1) r(3)
      by (intro exI [of _ "Suc m"] conjI exI [of _ s2]) (simp_all add: run_event_def)
  qed
qed



section \<open>Receiving\<close>

lemma run_user_ops:
  fixes K :: "'k kernel" and s :: "('k, 'z) tcp_scheme"
  assumes doc: "kernel_doc K" and nr: "no_reset K" and "conn_inv K s" and "fin_ok K s"
    and "isInLoopThread t (ioLoop s)" and "list_all op_ok ops"
    and "room s + sum_list (map op_cost ops) \<le> vec_max_size"
  shows "\<exists>s'. run_each (do_user_op K t) ops s = Inr s' \<and> conn_inv K s' \<and> fin_ok K s' \<and> conn_frame K s s' \<and>
    abs_conn K s' = fold spec_op ops (abs_conn K s)"
proof -
  have "run_each (run_event K t) (map EvUser ops) =
      (run_each (do_user_op K t) ops :: ('k, 'z) tcp_scheme \<Rightarrow> ('k, 'z) tcp_scheme result)"
  proof (induction ops)
    case (Cons oper ops)
    show ?case by (rule ext) (simp add: run_event_def [of _ _ "EvUser oper"] Cons)
  qed (simp add: fun_eq_iff)
  then have e: "run_each (run_event K t) (map EvUser ops) s = run_each (do_user_op K t) ops s" by simp
  have f: "fold spec_event (map EvUser ops) a = fold spec_op ops a" for a
    by (induction ops arbitrary: a) simp_all
  have "list_all ev_ok (map EvUser ops)" "sum_list (map ev_cost (map EvUser ops)) = sum_list (map op_cost ops)"
    using assms(6) by (simp_all add: list_all_iff comp_def)
  with run_events_refine [OF assms(1-5), of "map EvUser ops"] assms(7) show ?thesis by (simp add: e f)
qed

lemma sock_readv_docD:
  assumes "sock_readv_doc K" and "sock_readv K k fd iov = (k', out)"
  shows "interest K k' = interest K k" and "sent K k' = sent K k" and "wr_shut K k' = wr_shut K k"
    and "file_data K k' = file_data K k" and "readable K k' = readable K k"
    and "out = ReadOk bs \<Longrightarrow> length bs \<le> sum_list iov"
  using assms unfolding sock_readv_doc_def sock_frame_def by blast+

text \<open>The state in which \<^verbatim>\<open>handleRead\<close> calls the message callback.\<close>

lemma handleRead_ok:
  assumes doc: "kernel_doc K" and inv: "conn_inv K s" and fin: "fin_ok K s"
    and space: "length (bufferV (inputBuffer (conn s))) + extrabuf_size \<le> vec_max_size"
    and rv: "sock_readv K (kst (ioLoop s)) (socketFd (conn s)) (readFd_iov (inputBuffer (conn s))) = (k', out)"
  shows "\<exists>s1. conn_inv K s1 \<and> fin_ok K s1 \<and> conn_frame K s s1 \<and>
    abs_conn K s1 = (abs_conn K s)\<lparr>a_in := a_in (abs_conn K s) @ (case out of ReadErr e \<Rightarrow> [] | ReadOk bs \<Rightarrow> bs)\<rparr> \<and>
    outputBuffer (conn s1) = outputBuffer (conn s) \<and> (\<exists>b. conn s1 = (conn s)\<lparr>inputBuffer := b\<rparr>) \<and>
    handleRead K t U closeCb s = (case out of
        ReadErr e \<Rightarrow> Inr s1
      | ReadOk bs \<Rightarrow> if bs = [] then handleClose K t U closeCb s1 else user K t (onMessage U) s1)"
proof -
  let ?ib = "inputBuffer (conn s)"
  from inv have base: "conn_base K s" by (simp add: conn_inv_def)
  then have wf: "buffer_wf ?ib" by (simp add: conn_base_def)
  from base obtain ch where ch: "chan_of s = Inr ch" "ch_fd ch = socketFd (conn s)" by (rule chan_of_base)
  note dd = sock_readv_docD [OF kernel_docD(6) [OF doc] rv]
  let ?bs = "case out of ReadErr e \<Rightarrow> [] | ReadOk bs \<Rightarrow> bs"
  obtain b n e where b: "readFd (\<lambda>_. out) ?ib = Inr (b, n, e)" "buffer_wf b" "content b = content ?ib @ ?bs"
    "n = (case out of ReadErr e \<Rightarrow> -1 | ReadOk bs \<Rightarrow> int (length bs))"
  proof (cases out)
    case (ReadErr e)
    then show ?thesis using that readFd_Err [of "\<lambda>_. out" ?ib e] wf by simp
  next
    case (ReadOk bs)
    have rf: "readFd (\<lambda>_. out) ?ib = readFd (\<lambda>iov. if iov = readFd_iov ?ib then out else ReadErr 0) ?ib"
      by (simp add: readFd_def)
    have "readv_doc (\<lambda>iov. if iov = readFd_iov ?ib then out else ReadErr 0)"
      using dd(6) ReadOk by (auto simp: readv_doc_def)
    from readFd_Ok [OF wf this space, of bs] ReadOk obtain b where
      "readFd (\<lambda>iov. if iov = readFd_iov ?ib then out else ReadErr 0) ?ib = Inr (b, int (length bs), None)"
      "buffer_wf b" "content b = content ?ib @ bs" by auto
    then show ?thesis using that ReadOk unfolding rf by simp
  qed
  define s1 where "s1 = s\<lparr>ioLoop := (ioLoop s)\<lparr>kst := k'\<rparr>, conn := (conn s)\<lparr>inputBuffer := b\<rparr>\<rparr>"
  have "conn_base K s1"
    by (rule conn_base_view [OF base]) (use base b dd in \<open>simp_all add: s1_def conn_base_def\<close>)
  moreover have "writing s1 = writing s" "c_sent K s1 = c_sent K s" "c_fin K s1 = c_fin K s"
    using dd by (simp_all add: s1_def writing_def c_chan_def c_sent_def c_fin_def)
  moreover have "conn_frame K s s1" using dd by (simp add: s1_def conn_frame_def loop_frame_def)
  moreover have "handleRead K t U closeCb s = (case out of
        ReadErr e \<Rightarrow> Inr s1
      | ReadOk bs \<Rightarrow> if bs = [] then handleClose K t U closeCb s1 else user K t (onMessage U) s1)"
    using ch rv b by (cases out) (auto simp: handleRead_def s1_def Let_def handleError_def)
  moreover have "\<exists>b. conn s1 = (conn s)\<lparr>inputBuffer := b\<rparr>" by (intro exI [of _ b]) (simp add: s1_def)
  ultimately show ?thesis using inv fin b(3)
    by (intro exI [of _ s1]) (simp add: conn_inv_def fin_ok_def abs_conn_def out_stream_def, simp add: s1_def)
qed

text \<open>
  C11: receiving. When the socket is readable and bytes arrive, \<^verbatim>\<open>handleRead\<close> appends exactly these
  bytes to the input buffer and runs the message callback once, on this very connection, changed in
  nothing but its input buffer. The calls the callback makes act on the abstract connection with the new
  input, provided that they do not send a file and that the peer does not reset the connection while
  they send. On an error of the read nothing changes.
\<close>

theorem handleRead_delivers:
  assumes "kernel_doc K" and "no_reset K" and "conn_inv K s" and "fin_ok K s"
    and "isInLoopThread t (ioLoop s)"
    and "length (bufferV (inputBuffer (conn s))) + extrabuf_size \<le> vec_max_size"
    and "sock_readv K (kst (ioLoop s)) (socketFd (conn s)) (readFd_iov (inputBuffer (conn s))) = (k', out)"
    and "\<forall>c. list_all op_ok (onMessage U c) \<and> sum_list (map op_cost (onMessage U c)) \<le> B"
    and "\<forall>bs. out = ReadOk bs \<longrightarrow> room s + length bs + B \<le> vec_max_size"
  shows "case out of
      ReadErr e \<Rightarrow> \<exists>s'. handleRead K t U closeCb s = Inr s' \<and> conn_inv K s' \<and> abs_conn K s' = abs_conn K s
    | ReadOk bs \<Rightarrow> bs \<noteq> [] \<longrightarrow> (\<exists>s' b. handleRead K t U closeCb s = Inr s' \<and> conn_inv K s' \<and> fin_ok K s' \<and>
        conn_frame K s s' \<and> buffer_wf b \<and> content b = content (inputBuffer (conn s)) @ bs \<and>
        abs_conn K s' = fold spec_op (onMessage U ((conn s)\<lparr>inputBuffer := b\<rparr>))
          ((abs_conn K s)\<lparr>a_in := a_in (abs_conn K s) @ bs\<rparr>))"
proof -
  from handleRead_ok [OF assms(1,3,4,6,7), of t U closeCb] obtain s1 where
    s1: "conn_inv K s1" "fin_ok K s1" "conn_frame K s s1"
      "abs_conn K s1 = (abs_conn K s)\<lparr>a_in := a_in (abs_conn K s) @ (case out of ReadErr e \<Rightarrow> [] | ReadOk bs \<Rightarrow> bs)\<rparr>"
      "outputBuffer (conn s1) = outputBuffer (conn s)" "\<exists>b. conn s1 = (conn s)\<lparr>inputBuffer := b\<rparr>"
    and h: "handleRead K t U closeCb s = (case out of
        ReadErr e \<Rightarrow> Inr s1
      | ReadOk bs \<Rightarrow> if bs = [] then handleClose K t U closeCb s1 else user K t (onMessage U) s1)" by blast
  from s1(6) obtain b where c1: "conn s1 = (conn s)\<lparr>inputBuffer := b\<rparr>" by blast
  show ?thesis
  proof (cases out)
    case (ReadErr e)
    then show ?thesis using h s1 by (simp add: abs_conn_def)
  next
    case (ReadOk bs)
    have c: "content (inputBuffer (conn s1)) = content (inputBuffer (conn s)) @ bs"
      using s1(4) ReadOk by (simp add: abs_conn_def)
    have t1: "isInLoopThread t (ioLoop s1)"
      using assms(5) conn_frameD(7) [OF s1(3)] by (simp add: isInLoopThread_def)
    have "room s1 = room s + length bs" using s1(5) c by (simp add: room_def)
    moreover have "list_all op_ok (onMessage U (conn s1))" "sum_list (map op_cost (onMessage U (conn s1))) \<le> B"
      using assms(8) by simp_all
    ultimately have "\<exists>s'. run_each (do_user_op K t) (onMessage U (conn s1)) s1 = Inr s' \<and> conn_inv K s' \<and>
        fin_ok K s' \<and> conn_frame K s1 s' \<and> abs_conn K s' = fold spec_op (onMessage U (conn s1)) (abs_conn K s1)"
      using assms(9) ReadOk by (intro run_user_ops [OF assms(1,2) s1(1,2) t1]) auto
    moreover have "buffer_wf (inputBuffer (conn s1))" using s1(1) by (simp add: conn_inv_def conn_base_def)
    ultimately obtain s' where "run_each (do_user_op K t) (onMessage U (conn s1)) s1 = Inr s'" "conn_inv K s'"
      "fin_ok K s'" "conn_frame K s1 s'" "abs_conn K s' = fold spec_op (onMessage U (conn s1)) (abs_conn K s1)"
      "buffer_wf (inputBuffer (conn s1))" by blast
    then show ?thesis using h ReadOk c s1(4) c1 conn_frame_trans [OF s1(3)]
      by (auto simp: user_def intro!: exI [of _ b])
  qed
qed

definition echo_callbacks :: user_callbacks where
  "echo_callbacks = \<lparr>onConnection = (\<lambda>_. []), onMessage = (\<lambda>_. [USendInput]), onWriteComplete = (\<lambda>_. []),
     onHighWaterMark = (\<lambda>_ _. [])\<rparr>"

theorem handleRead_delivers_witness:
  "\<exists>s'. handleRead calm 100 echo_callbacks (\<lambda>s. Inr s) sample_tcp = Inr s' \<and> conn_inv calm s' \<and>
     out_stream calm s' = ''hello'' \<and> content (inputBuffer (conn s')) = []"
proof -
  have "inputBuffer (conn sample_tcp) = small_buffer" "length (bufferV small_buffer) = 16"
    by (simp_all add: sample_tcp_def sample_conn_def small_buffer_def)
  note ib = this sample_room
  have sp: "length (bufferV (inputBuffer (conn sample_tcp))) + extrabuf_size \<le> vec_max_size"
    by (simp add: ib extrabuf_size_def vec_max_size_less)
  have iov: "readFd_iov small_buffer = [8, 65536]" by code_simp
  have inbox: "sk_inbox (kst (ioLoop sample_tcp)) = ''hello''" by (simp add: sample_tcp_def sk_init_def)
  have rv: "sock_readv calm (kst (ioLoop sample_tcp)) (socketFd (conn sample_tcp))
      (readFd_iov (inputBuffer (conn sample_tcp))) = (kst (ioLoop sample_tcp), ReadOk ''hello'')"
    by (simp add: ib iov inbox)
  have ops: "\<forall>c. list_all op_ok (onMessage echo_callbacks c) \<and> sum_list (map op_cost (onMessage echo_callbacks c)) \<le> 0"
    by (simp add: echo_callbacks_def)
  have mem: "\<forall>bs. ReadOk ''hello'' = ReadOk bs \<longrightarrow> room sample_tcp + length bs + 0 \<le> vec_max_size"
    by (simp add: ib vec_max_size_less)
  from handleRead_delivers [OF calm_doc calm_no_reset sample_calm(1,2) sample_tcp_inv(3) sp rv ops mem,
      where closeCb = "\<lambda>s. Inr s"]
  obtain s' where "handleRead calm 100 echo_callbacks (\<lambda>s. Inr s) sample_tcp = Inr s'" "conn_inv calm s'"
    "abs_conn calm s' = spec_op USendInput ((abs_conn calm sample_tcp)\<lparr>a_in := a_in (abs_conn calm sample_tcp) @ ''hello''\<rparr>)"
    by (auto simp: echo_callbacks_def)
  then show ?thesis using sample_tcp_inv(4) sample_calm(3) small_buffer_wf(2) ib(1)
    by (auto simp: abs_conn_def)
qed

section \<open>Other threads\<close>

lemma queued_sends:
  assumes ev: "eventfd_doc K" and "stateC (conn s) = kConnected" and "\<not> isInLoopThread t' (ioLoop s)"
    and "conn_inv K s" and "fin_ok K s"
  shows "\<exists>s1. run_each (send K t') ms s = Inr s1 \<and>
    pendingFunctors (ioLoop s1) = pendingFunctors (ioLoop s) @ map (SendInLoop (objId (conn s))) ms \<and>
    conn s1 = conn s \<and> out_stream K s1 = out_stream K s \<and> conn_inv K s1 \<and> fin_ok K s1 \<and>
    threadId (ioLoop s1) = threadId (ioLoop s) \<and> (woken K (ioLoop s) \<or> ms \<noteq> [] \<longrightarrow> woken K (ioLoop s1))"
  using assms(2-)
proof (induction ms arbitrary: s)
  case Nil
  then show ?case by simp
next
  case (Cons m ms)
  let ?s = "queue_c K t' (SendInLoop (objId (conn s)) m) s"
  have e: "send K t' m s = Inr ?s" using Cons.prems(1,2) by (simp add: send_def runInLoop_c_def)
  have i: "conn_inv K ?s" "fin_ok K ?s"
    using Cons.prems(3,4) by (simp_all add: conn_inv_def fin_ok_def queue_c_view [OF ev])
  have w: "woken K (ioLoop ?s)"
    using Cons.prems(2) woken_queueInLoop [OF ev, of "ioLoop s" t'] by (simp add: queue_c_def)
  have st: "stateC (conn ?s) = kConnected" "\<not> isInLoopThread t' (ioLoop ?s)"
    using Cons.prems(1,2) by (simp_all add: isInLoopThread_def)
  from Cons.IH [OF st i] obtain s1 where
    s1: "run_each (send K t') ms ?s = Inr s1"
      "pendingFunctors (ioLoop s1) = pendingFunctors (ioLoop ?s) @ map (SendInLoop (objId (conn ?s))) ms"
      "conn s1 = conn ?s" "out_stream K s1 = out_stream K ?s" "conn_inv K s1" "fin_ok K s1"
      "threadId (ioLoop s1) = threadId (ioLoop ?s)" "woken K (ioLoop s1)" using w by blast
  then show ?case using e by (simp add: queue_c_view(3) [OF ev])
qed

lemma run_sends:
  assumes doc: "kernel_doc K" and nr: "no_reset K" and "conn_inv K s" and "fin_ok K s"
    and "stateC (conn s) = kConnected"
    and "length (bufferV (outputBuffer (conn s))) + sum_list (map length ms) \<le> vec_max_size"
  shows "\<exists>s'. run_each (run_functor K t U) (map (SendInLoop obj) ms) s = Inr s' \<and> conn_inv K s' \<and> fin_ok K s' \<and>
    out_stream K s' = out_stream K s @ concat ms"
  using assms(3-)
proof (induction ms arbitrary: s)
  case Nil
  then show ?case by simp
next
  case (Cons m ms)
  from sendInLoop_refines [OF doc nr Cons.prems(1-3), of m t] Cons.prems(4) obtain s1 b where
    s1: "sendInLoop K t m s = Inr s1" "conn_inv K s1" "fin_ok K s1" "conn s1 = (conn s)\<lparr>outputBuffer := b\<rparr>"
      "length (bufferV b) \<le> length (bufferV (outputBuffer (conn s))) + length m"
      "out_stream K s1 = out_stream K s @ m" by auto
  have "stateC (conn s1) = kConnected" using s1(4) Cons.prems(3) by simp
  moreover have "length (bufferV (outputBuffer (conn s1))) + sum_list (map length ms) \<le> vec_max_size"
    using s1(4,5) Cons.prems(4) by simp
  ultimately obtain s2 where "run_each (run_functor K t U) (map (SendInLoop obj) ms) s1 = Inr s2"
    "conn_inv K s2" "fin_ok K s2" "out_stream K s2 = out_stream K s1 @ concat ms"
    using Cons.IH [OF s1(2,3)] by blast
  then show ?case using s1(1,6) by (simp add: run_functor_def [of _ _ _ "SendInLoop obj m"])
qed



section \<open>Files\<close>

text \<open>One round of \<^verbatim>\<open>doPendingFunctors\<close> for a loop whose functors all belong to this connection.\<close>

definition functor_round :: "'k kernel \<Rightarrow> int \<Rightarrow> user_callbacks \<Rightarrow> ('k, 'z) tcp_scheme \<Rightarrow>
    ('k, 'z) tcp_scheme result" where
  "functor_round K t U s = (case swap_functors (ioLoop s) of (functors, L) \<Rightarrow>
     bind_r (run_each (run_functor K t U) functors (s\<lparr>ioLoop := L\<rparr>)) (\<lambda>s'.
       Inr (s'\<lparr>ioLoop := (ioLoop s')\<lparr>callingPendingFunctors := False\<rparr>\<rparr>)))"

fun rounds :: "nat \<Rightarrow> 'k kernel \<Rightarrow> int \<Rightarrow> user_callbacks \<Rightarrow> ('k, 'z) tcp_scheme \<Rightarrow> ('k, 'z) tcp_scheme result" where
  "rounds 0 K t U s = Inr s"
| "rounds (Suc n) K t U s = bind_r (functor_round K t U s) (rounds n K t U)"

lemma sendfile_docD:
  assumes "sendfile_doc K" and "sock_sendfile K k fd f off c = (k', out)"
  shows "interest K k' = interest K k" and "wr_shut K k' = wr_shut K k"
    and "file_data K k' = file_data K k"
    and "out = WriteErr e \<Longrightarrow> sent K k' = sent K k"
    and "out = WriteOk n \<Longrightarrow> n \<le> c \<and> n \<le> length (drop off (file_data K k f)) \<and>
      sent K k' = (sent K k)(fd := sent K k fd @ take n (drop off (file_data K k f)))"
  using assms unfolding sendfile_doc_def sock_frame_def by (fastforce split: write_out.splits)+

text \<open>The state of a transfer: nothing else is buffered or pending.\<close>

definition transferring :: "'k kernel \<Rightarrow> int \<Rightarrow> nat \<Rightarrow> nat \<Rightarrow> ('k, 'z) tcp_scheme \<Rightarrow> bool" where
  "transferring K f off count s \<longleftrightarrow> conn_inv K s \<and> stateC (conn s) = kConnected \<and>
     content (outputBuffer (conn s)) = [] \<and>
     pendingFunctors (ioLoop s) = [SendFileInLoop (objId (conn s)) f off count]"

lemma conn_inv_loop_upd:
  assumes "conn_inv K s" and "chans L = chans (ioLoop s)" and "channelsM L = channelsM (ioLoop s)"
    and "interest K (kst L) = interest K (kst (ioLoop s))"
  shows "conn_inv K (s\<lparr>ioLoop := L\<rparr>)"
proof -
  have b: "conn_base K s" using assms(1) by (simp add: conn_inv_def)
  have "conn_base K (s\<lparr>ioLoop := L\<rparr>)"
    by (rule conn_base_view [OF b]) (use assms b in \<open>simp_all add: conn_base_def\<close>)
  moreover have "writing (s\<lparr>ioLoop := L\<rparr>) = writing s" using assms by (simp add: writing_def c_chan_def)
  ultimately show ?thesis using assms(1) by (simp add: conn_inv_def)
qed

text \<open>One call of \<^verbatim>\<open>sendFileInLoop\<close> on an open connection with nothing buffered.\<close>

lemma file_step:
  assumes doc: "kernel_doc K" and inv: "conn_inv K s" and st: "stateC (conn s) = kConnected"
    and e: "content (outputBuffer (conn s)) = []" and cnt: "0 < count"
    and sf: "sock_sendfile K (kst (ioLoop s)) (socketFd (conn s)) f off count = (k', out)"
    and ok: "case out of WriteOk n \<Rightarrow> True | WriteErr e \<Rightarrow> e \<noteq> EPIPE \<and> e \<noteq> ECONNRESET"
    and wc: "hasWriteComplete (conn s) = False"
  defines "n \<equiv> (case out of WriteOk n \<Rightarrow> n | WriteErr e \<Rightarrow> 0)"
  shows "\<exists>s'. sendFileInLoop K t f off count s = Inr s' \<and> conn_inv K s' \<and> conn s' = conn s \<and>
    c_sent K s' = c_sent K s @ take n (drop off (file_data K (kst (ioLoop s)) f)) \<and>
    file_data K (kst (ioLoop s')) = file_data K (kst (ioLoop s)) \<and>
    pendingFunctors (ioLoop s') = pendingFunctors (ioLoop s) @
      (if n < count then [SendFileInLoop (objId (conn s)) f (off + n) (count - n)] else [])"
proof -
  have b: "conn_base K s" using inv by (simp add: conn_inv_def)
  from b obtain ch where ch: "chan_of s = Inr ch" "c_chan s = Some ch" by (rule chan_of_base)
  have nw: "\<not> isWriting ch" using inv st e writing_chan [OF ch(2)] by (simp add: conn_inv_def)
  have rd: "readableBytes (outputBuffer (conn s)) = 0" using b e by (simp add: conn_base_def)
  note d = sendfile_docD [OF kernel_docD(5) [OF doc] sf] and ev = kernel_docD(3) [OF doc]
  let ?s1 = "s\<lparr>ioLoop := (ioLoop s)\<lparr>kst := k'\<rparr>\<rparr>"
  define s2 where "s2 = (if n < count
    then queue_c K t (SendFileInLoop (objId (conn s)) f (off + n) (count - n)) ?s1 else ?s1)"
  have run: "sendFileInLoop K t f off count s = Inr s2"
    using ch nw rd sf st ok cnt wc
    by (cases out) (auto simp: sendFileInLoop_def s2_def n_def Let_def)
  have "conn_inv K ?s1" by (rule conn_inv_loop_upd [OF inv]) (use d(1) in simp_all)
  then have inv2: "conn_inv K s2" by (simp add: s2_def conn_inv_def queue_c_view(4) [OF ev] cong: if_cong)
  have s1: "c_sent K ?s1 = c_sent K s @ take n (drop off (file_data K (kst (ioLoop s)) f))"
    using d(4,5) by (cases out) (simp_all add: n_def c_sent_def)
  have s2: "c_sent K s2 = c_sent K ?s1" "conn s2 = conn s"
    "file_data K (kst (ioLoop s2)) = file_data K (kst (ioLoop s))"
    using d(3) by (simp_all add: s2_def queue_c_def queue_view [OF ev] c_sent_def)
  then show ?thesis using run inv2 s1 by (intro exI [of _ s2]) (simp add: s2_def)
qed

lemma file_round:
  assumes doc: "kernel_doc K" and tr: "transferring K f off count s" and cnt: "0 < count"
    and sf: "sock_sendfile K (kst (ioLoop s)) (socketFd (conn s)) f off count = (k', out)"
    and ok: "case out of WriteOk n \<Rightarrow> True | WriteErr e \<Rightarrow> e \<noteq> EPIPE \<and> e \<noteq> ECONNRESET"
    and wc: "hasWriteComplete (conn s) = False"
  defines "n \<equiv> (case out of WriteOk n \<Rightarrow> n | WriteErr e \<Rightarrow> 0)"
  shows "\<exists>s'. functor_round K t U s = Inr s' \<and> conn_inv K s' \<and> conn s' = conn s \<and>
    c_sent K s' = c_sent K s @ take n (drop off (file_data K (kst (ioLoop s)) f)) \<and>
    file_data K (kst (ioLoop s')) = file_data K (kst (ioLoop s)) \<and>
    pendingFunctors (ioLoop s') = (if n < count then [SendFileInLoop (objId (conn s)) f (off + n) (count - n)] else [])"
proof -
  let ?s0 = "s\<lparr>ioLoop := (ioLoop s)\<lparr>callingPendingFunctors := True, pendingFunctors := []\<rparr>\<rparr>"
  from tr have T: "conn_inv K s" "stateC (conn s) = kConnected" "content (outputBuffer (conn s)) = []"
    "pendingFunctors (ioLoop s) = [SendFileInLoop (objId (conn s)) f off count]"
    by (simp_all add: transferring_def)
  have inv0: "conn_inv K ?s0" by (rule conn_inv_loop_upd [OF T(1)]) simp_all
  have "sock_sendfile K (kst (ioLoop ?s0)) (socketFd (conn ?s0)) f off count = (k', out)" using sf by simp
  from file_step [OF doc inv0 _ _ cnt this ok, of t] T wc obtain s2 where
    s2: "sendFileInLoop K t f off count ?s0 = Inr s2" "conn_inv K s2" "conn s2 = conn s"
      "c_sent K s2 = c_sent K ?s0 @ take n (drop off (file_data K (kst (ioLoop s)) f))"
      "file_data K (kst (ioLoop s2)) = file_data K (kst (ioLoop s))"
      "pendingFunctors (ioLoop s2) = (if n < count then [SendFileInLoop (objId (conn s)) f (off + n) (count - n)] else [])"
    by (auto simp: n_def)
  let ?s3 = "s2\<lparr>ioLoop := (ioLoop s2)\<lparr>callingPendingFunctors := False\<rparr>\<rparr>"
  have "functor_round K t U s = Inr ?s3"
    using s2(1) T(4) by (simp add: functor_round_def swap_functors_def run_functor_def)
  moreover have "conn_inv K ?s3" by (rule conn_inv_loop_upd [OF s2(2)]) simp_all
  moreover have "c_sent K ?s3 = c_sent K s2" "c_sent K ?s0 = c_sent K s" by (simp_all add: c_sent_def)
  ultimately show ?thesis using s2 by (intro exI [of _ ?s3]) simp
qed

definition file_flows :: "'k kernel \<Rightarrow> bool" where
  "file_flows K \<longleftrightarrow> (\<forall>k fd f off c. 0 < c \<and> off < length (file_data K k f) \<longrightarrow>
     (\<exists>n > 0. snd (sock_sendfile K k fd f off c) = WriteOk n))"

text \<open>A transfer that is pending completes.\<close>

lemma transfer_completes:
  assumes "kernel_doc K" and "file_flows K" and "transferring K f off count s" and "0 < count"
    and "\<not> hasWriteComplete (conn s)" and "off + count \<le> length (file_data K (kst (ioLoop s)) f)"
  shows "\<exists>N \<le> count. \<exists>s'. rounds N K t U s = Inr s' \<and> conn_inv K s' \<and> conn s' = conn s \<and>
    pendingFunctors (ioLoop s') = [] \<and> c_sent K s' = c_sent K s @ take count (drop off (file_data K (kst (ioLoop s)) f))"
  using assms(3-)
proof (induction count arbitrary: off s rule: less_induct)
  case (less count)
  let ?fd = "file_data K (kst (ioLoop s)) f"
  obtain k' out where sf: "sock_sendfile K (kst (ioLoop s)) (socketFd (conn s)) f off count = (k', out)" by force
  have "\<exists>n > 0. snd (sock_sendfile K (kst (ioLoop s)) (socketFd (conn s)) f off count) = WriteOk n"
    using assms(2) less.prems(2,4) by (auto simp: file_flows_def)
  then obtain n where n: "0 < n" "out = WriteOk n" using sf by auto
  have le: "n \<le> count" using sendfile_docD(5) [OF kernel_docD(5) [OF assms(1)] sf n(2)] by simp
  from file_round [OF assms(1) less.prems(1,2) sf, of t U] n less.prems(3) obtain s1 where
    s1: "functor_round K t U s = Inr s1" "conn_inv K s1" "conn s1 = conn s" "c_sent K s1 = c_sent K s @ take n (drop off ?fd)"
      "file_data K (kst (ioLoop s1)) = file_data K (kst (ioLoop s))"
      "pendingFunctors (ioLoop s1) = (if n < count then [SendFileInLoop (objId (conn s)) f (off + n) (count - n)] else [])"
    by auto
  show ?case
  proof (cases "n < count")
    case False
    then have "n = count" using le by simp
    then show ?thesis using s1 less.prems(2) by (intro exI [of _ 1]) auto
  next
    case True
    have t1: "transferring K f (off + n) (count - n) s1"
      using s1 True less.prems(1) by (simp add: transferring_def)
    have c: "count - n < count" "0 < count - n" "\<not> hasWriteComplete (conn s1)"
      "off + n + (count - n) \<le> length (file_data K (kst (ioLoop s1)) f)"
      using n(1) True le less.prems(2-4) s1(3,5) by simp_all
    from less.IH [OF c(1) t1 c(2-4)] obtain N s' where
      N: "N \<le> count - n" "rounds N K t U s1 = Inr s'" "conn_inv K s'" "conn s' = conn s1" "pendingFunctors (ioLoop s') = []"
        "c_sent K s' = c_sent K s1 @ take (count - n) (drop (off + n) ?fd)" using s1(5) by auto
    have "take count (drop off ?fd) = take n (drop off ?fd) @ take (count - n) (drop (off + n) ?fd)"
      using le take_add [of n "count - n" "drop off ?fd"] by (simp add: add.commute)
    then show ?thesis using N s1(1,3,4) n(1) True
      by (intro exI [of _ "Suc N"]) auto
  qed
qed

text \<open>
  C34: \<^verbatim>\<open>sendFile\<close> of a part of a file that lies inside the file, called in the loop's thread or in another,
  on an open connection without a write-complete callback, while nothing else is buffered, pending or
  sent and the socket keeps taking bytes: the call returns, and after at most as many rounds of the loop as
  there are bytes, exactly that part of the file has been sent, in order, and no functor of the transfer is left.
\<close>

theorem sendFile_completes:
  assumes "kernel_doc K" and "file_flows K" and "conn_inv K s" and "stateC (conn s) = kConnected"
    and "content (outputBuffer (conn s)) = []" and "pendingFunctors (ioLoop s) = []" and "0 < count"
    and "\<not> hasWriteComplete (conn s)" and "off + count \<le> length (file_data K (kst (ioLoop s)) f)"
  shows "\<exists>s1 N s'. sendFile K t' f off count s = Inr s1 \<and> N \<le> count \<and> rounds N K t U s1 = Inr s' \<and>
    conn_inv K s' \<and> conn s' = conn s1 \<and> pendingFunctors (ioLoop s') = [] \<and>
    c_sent K s' = c_sent K s @ take count (drop off (file_data K (kst (ioLoop s)) f))"
proof (cases "isInLoopThread t' (ioLoop s)")
  case False
  let ?s = "queue_c K t' (SendFileInLoop (objId (conn s)) f off count) s"
  note ev = kernel_docD(3) [OF assms(1)]
  have "conn_inv K ?s" using assms(3) by (simp add: conn_inv_def queue_c_view [OF ev])
  then have tr: "transferring K f off count ?s" using assms(4-6) by (simp add: transferring_def)
  have fd: "file_data K (kst (ioLoop ?s)) = file_data K (kst (ioLoop s))" by (simp add: queue_c_def queue_view [OF ev])
  from transfer_completes [OF assms(1,2) tr assms(7), of t U] assms(8,9) have
    "\<exists>N \<le> count. \<exists>s'. rounds N K t U ?s = Inr s' \<and> conn_inv K s' \<and> conn s' = conn ?s \<and>
      pendingFunctors (ioLoop s') = [] \<and> c_sent K s' = c_sent K s @ take count (drop off (file_data K (kst (ioLoop s)) f))"
    by (simp add: fd queue_c_view [OF ev])
  moreover have "sendFile K t' f off count s = Inr ?s"
    using False assms(4) by (simp add: sendFile_def connected_def runInLoop_c_def)
  ultimately show ?thesis by blast
next
  case True
  let ?fd = "file_data K (kst (ioLoop s)) f"
  obtain k' out where sf: "sock_sendfile K (kst (ioLoop s)) (socketFd (conn s)) f off count = (k', out)" by force
  have "\<exists>n > 0. snd (sock_sendfile K (kst (ioLoop s)) (socketFd (conn s)) f off count) = WriteOk n"
    using assms(2,7,9) by (auto simp: file_flows_def)
  then obtain n where n: "0 < n" "out = WriteOk n" using sf by auto
  have le: "n \<le> count" using sendfile_docD(5) [OF kernel_docD(5) [OF assms(1)] sf n(2)] by simp
  from file_step [OF assms(1,3-5,7) sf, of t'] n assms(6,8) obtain s1 where
    s1: "sendFileInLoop K t' f off count s = Inr s1" "conn_inv K s1" "conn s1 = conn s"
      "c_sent K s1 = c_sent K s @ take n (drop off ?fd)" "file_data K (kst (ioLoop s1)) = file_data K (kst (ioLoop s))"
      "pendingFunctors (ioLoop s1) = (if n < count then [SendFileInLoop (objId (conn s)) f (off + n) (count - n)] else [])"
    by auto
  have sF: "sendFile K t' f off count s = Inr s1" using True assms(4) s1(1) by (simp add: sendFile_def connected_def)
  show ?thesis
  proof (cases "n < count")
    case False
    then show ?thesis using s1 sF le by (intro exI [of _ s1] exI [of _ 0]) simp
  next
    case True
    have tr: "transferring K f (off + n) (count - n) s1" using s1 True assms(4,5) by (simp add: transferring_def)
    from transfer_completes [OF assms(1,2) tr, of t U] assms(8,9) s1(3,5) True obtain N s' where
      N: "N \<le> count - n" "rounds N K t U s1 = Inr s'" "conn_inv K s'" "conn s' = conn s1" "pendingFunctors (ioLoop s') = []"
        "c_sent K s' = c_sent K s1 @ take (count - n) (drop (off + n) ?fd)" by auto
    have "take count (drop off ?fd) = take n (drop off ?fd) @ take (count - n) (drop (off + n) ?fd)"
      using le take_add [of n "count - n" "drop off ?fd"] by (simp add: add.commute)
    then show ?thesis using N s1(4) sF by (intro exI [of _ s1] exI [of _ N] exI [of _ s']) simp
  qed
qed

text \<open>
  C35: \<^verbatim>\<open>sendFile\<close> beyond the end of the file never ends: with the offset at or past the end,
  \<^verbatim>\<open>sendfile\<close> has nothing to send, and after any number of rounds the same functor is pending again
  and not one byte was sent, although the connection is healthy.
\<close>

theorem sendFile_eof_spins:
  assumes "kernel_doc K" and "transferring K f off count s" and "0 < count" and "\<not> hasWriteComplete (conn s)"
    and "length (file_data K (kst (ioLoop s)) f) \<le> off"
    and "\<forall>k fd c k' e. sock_sendfile K k fd f off c = (k', WriteErr e) \<longrightarrow> e \<noteq> EPIPE \<and> e \<noteq> ECONNRESET"
  shows "\<exists>s'. rounds N K t U s = Inr s' \<and> transferring K f off count s' \<and> c_sent K s' = c_sent K s"
  using assms(2-5)
proof (induction N arbitrary: s)
  case 0
  then show ?case by simp
next
  case (Suc N)
  obtain k' out where sf: "sock_sendfile K (kst (ioLoop s)) (socketFd (conn s)) f off count = (k', out)" by force
  have ok: "case out of WriteOk n \<Rightarrow> True | WriteErr e \<Rightarrow> e \<noteq> EPIPE \<and> e \<noteq> ECONNRESET"
    using assms(6) sf by (cases out) auto
  have n0: "(case out of WriteOk n \<Rightarrow> n | WriteErr e \<Rightarrow> 0) = 0"
    using sendfile_docD(5) [OF kernel_docD(5) [OF assms(1)] sf] Suc.prems(4) by (cases out) auto
  from file_round [OF assms(1) Suc.prems(1,2) sf ok, of t U] Suc.prems(2,3) obtain s1 where
    s1: "functor_round K t U s = Inr s1" "conn_inv K s1" "conn s1 = conn s" "c_sent K s1 = c_sent K s"
      "file_data K (kst (ioLoop s1)) = file_data K (kst (ioLoop s))"
      "pendingFunctors (ioLoop s1) = [SendFileInLoop (objId (conn s)) f off count]"
    unfolding n0 by auto
  have "transferring K f off count s1" using s1 Suc.prems(1) by (simp add: transferring_def)
  from Suc.IH [OF this Suc.prems(2)] s1 Suc.prems(3,4) show ?case by auto
qed

definition sample_transfer :: "nat \<Rightarrow> nat \<Rightarrow> skernel tcp" where
  "sample_transfer off count = sample_tcp\<lparr>conn := sample_conn\<lparr>hasWriteComplete := False\<rparr>,
     ioLoop := (ioLoop sample_tcp)\<lparr>pendingFunctors := [SendFileInLoop 1 9 off count]\<rparr>\<rparr>"

lemma sample_transferring:
  "transferring calm 9 off count (sample_transfer off count)" "\<not> hasWriteComplete (conn (sample_transfer off count))"
  "c_sent calm (sample_transfer off count) = []"
proof -
  have b: "conn_base calm sample_tcp" "writing sample_tcp = False" "stateC sample_conn = kConnected"
    "conn sample_tcp = sample_conn" "outputBuffer sample_conn = small_buffer" "objId sample_conn = 1"
    using sample_calm(1) by (auto simp: conn_inv_def sample_tcp_def sample_conn_def small_buffer_wf)
  have "conn_base calm (sample_transfer off count)"
    by (rule conn_base_view [OF b(1)]) (use b in \<open>simp_all add: sample_transfer_def conn_base_def\<close>)
  then show "transferring calm 9 off count (sample_transfer off count)"
    using b small_buffer_wf by (simp add: transferring_def conn_inv_def sample_transfer_def writing_def c_chan_def)
  show "\<not> hasWriteComplete (conn (sample_transfer off count))" by (simp add: sample_transfer_def)
  show "c_sent calm (sample_transfer off count) = []"
    by (simp add: c_sent_def sample_transfer_def sample_tcp_def sk_init_def)
qed

lemma sample_idle:
  defines "s \<equiv> sample_tcp\<lparr>conn := sample_conn\<lparr>hasWriteComplete := False\<rparr>\<rparr>"
  shows "conn_inv calm s" and "stateC (conn s) = kConnected" and "content (outputBuffer (conn s)) = []"
    and "pendingFunctors (ioLoop s) = []" and "\<not> hasWriteComplete (conn s)" and "c_sent calm s = []"
proof -
  have e: "s = (sample_transfer 0 0)\<lparr>ioLoop := (ioLoop (sample_transfer 0 0))\<lparr>pendingFunctors := []\<rparr>\<rparr>"
    by (simp add: s_def sample_transfer_def sample_tcp_def)
  show "conn_inv calm s" unfolding e
    by (rule conn_inv_loop_upd) (use sample_transferring(1) in \<open>simp_all add: transferring_def\<close>)
  show "stateC (conn s) = kConnected" "content (outputBuffer (conn s)) = []" "pendingFunctors (ioLoop s) = []"
    "\<not> hasWriteComplete (conn s)" "c_sent calm s = []"
    by (simp_all add: s_def sample_conn_def small_buffer_wf sample_tcp_def c_sent_def sk_init_def)
qed

theorem sendFile_completes_witness:
  "\<exists>s1 N s'. sendFile calm 200 9 2 9 (sample_tcp\<lparr>conn := sample_conn\<lparr>hasWriteComplete := False\<rparr>\<rparr>) = Inr s1 \<and>
     rounds N calm 100 echo_callbacks s1 = Inr s' \<and> c_sent calm s' = ''le conten''"
proof -
  let ?s = "sample_tcp\<lparr>conn := sample_conn\<lparr>hasWriteComplete := False\<rparr>\<rparr>"
  have f: "file_flows calm" by (auto simp: file_flows_def sk_accept_def)
  have l: "2 + 9 \<le> length (file_data calm (kst (ioLoop ?s)) 9)" by (simp add: sample_file_def)
  have "take 9 (drop 2 sample_file) = ''le conten''" by code_simp
  then show ?thesis
    using sendFile_completes [OF calm_doc f sample_idle(1-4) _ sample_idle(5) l, of 200 100 echo_callbacks]
    by (auto simp: sample_idle(6))
qed

theorem sendFile_eof_spins_witness:
  "\<exists>s'. rounds 1000 calm 100 echo_callbacks (sample_transfer 13 5) = Inr s' \<and> transferring calm 9 13 5 s'"
proof -
  have e: "\<forall>k fd c k' e. sock_sendfile calm k fd 9 13 c = (k', WriteErr e) \<longrightarrow> e \<noteq> EPIPE \<and> e \<noteq> ECONNRESET"
    by (simp add: sk_accept_def)
  have l: "length (file_data calm (kst (ioLoop (sample_transfer 13 5))) 9) \<le> 13" by (simp add: sample_file_def)
  show ?thesis
    using sendFile_eof_spins [OF calm_doc sample_transferring(1) _ sample_transferring(2) l e, of 1000 100 echo_callbacks]
    by auto
qed

text \<open>
  \<^verbatim>\<open>sendFileInLoop\<close> gives up when the connection is half-closed by \<^verbatim>\<open>shutdown\<close> (\<^verbatim>\<open>kDisconnecting\<close>), while
  \<^verbatim>\<open>sendInLoop\<close> gives up when it is closed (\<^verbatim>\<open>kDisconnected\<close>): a transfer that was queued before the
  connection closed still writes the file to the socket of the closed connection.
\<close>

lemma sendFileInLoop_after_close:
  assumes "kernel_doc K" and inv: "conn_inv K s" and st: "stateC (conn s) = kDisconnected" and nw: "\<not> writing s"
    and e: "content (outputBuffer (conn s)) = []"
    and sf: "sock_sendfile K (kst (ioLoop s)) (socketFd (conn s)) f off count = (k', WriteOk n)" and n: "n = count"
  shows "sendInLoop K t d s = Inr s"
    and "\<exists>s'. sendFileInLoop K t f off count s = Inr s' \<and>
      c_sent K s' = c_sent K s @ take n (drop off (file_data K (kst (ioLoop s)) f))"
proof -
  show "sendInLoop K t d s = Inr s" using st by (simp add: sendInLoop_def)
  have "conn_base K s" using inv by (simp add: conn_inv_def)
  then obtain ch where ch: "chan_of s = Inr ch" "c_chan s = Some ch" by (rule chan_of_base)
  have "\<not> isWriting ch" using nw writing_chan [OF ch(2)] by simp
  moreover have "readableBytes (outputBuffer (conn s)) = 0" using inv e by (simp add: conn_inv_def conn_base_def)
  moreover note d = sendfile_docD [OF kernel_docD(5) [OF assms(1)] sf]
  ultimately show "\<exists>s'. sendFileInLoop K t f off count s = Inr s' \<and>
      c_sent K s' = c_sent K s @ take n (drop off (file_data K (kst (ioLoop s)) f))"
    using ch sf st n d(4,5)
    by (auto simp: sendFileInLoop_def Let_def c_sent_def queue_c_def queue_view [OF kernel_docD(3) [OF assms(1)]])
qed

end
