(* ===== verification/ConnectionSafety.thy ===== *)
theory ConnectionSafety
  imports ConnectionStream
begin

unbundle bit_operations_syntax

text \<open>
  Safety of every operation of a connection under any behaviour of its user and of the peer: it
  either succeeds and keeps the connection's invariant and everything else in the loop, or fails with
  \<^verbatim>\<open>length_error\<close>. It follows no dangling pointer and causes no fatal \<^verbatim>\<open>epoll_ctl\<close> error. A connection
  that is closed is not registered with the poller again. The system-wide invariant rests on this.
\<close>

section \<open>Good outcomes\<close>

definition reg :: "('k, 'z) tcp_scheme \<Rightarrow> bool" where
  "reg s \<longleftrightarrow> (\<exists>ch. c_chan s = Some ch \<and> ch_index ch \<noteq> kNew)"

definition good :: "'k kernel \<Rightarrow> ('k, 'z) tcp_scheme \<Rightarrow> ('k, 'z) tcp_scheme \<Rightarrow> bool" where
  "good K s s' \<longleftrightarrow> conn_inv K s' \<and> conn_frame K s s' \<and>
     (stateC (conn s') = kDisconnected \<longleftrightarrow> stateC (conn s) = kDisconnected) \<and>
     (stateC (conn s') = kConnecting \<longleftrightarrow> stateC (conn s) = kConnecting) \<and>
     (stateC (conn s) = kConnecting \<longrightarrow> reg s' = reg s \<and>
        pendingFunctors (ioLoop s') = pendingFunctors (ioLoop s)) \<and>
     (reg s' \<longrightarrow> reg s \<or> stateC (conn s) \<noteq> kDisconnected)"

definition safe :: "'k kernel \<Rightarrow> (('k, 'z) tcp_scheme \<Rightarrow> ('k, 'z) tcp_scheme result) \<Rightarrow>
    ('k, 'z) tcp_scheme \<Rightarrow> bool" where
  "safe K f s \<longleftrightarrow> (case f s of Inl e \<Rightarrow> e = LengthError | Inr s' \<Rightarrow> good K s s')"

lemma good_refl: "conn_inv K s \<Longrightarrow> good K s s"
  by (simp add: good_def)

lemma good_trans: "good K s1 s2 \<Longrightarrow> good K s2 s3 \<Longrightarrow> good K s1 s3"
  unfolding good_def by (auto intro: conn_frame_trans)

lemma good_inv: "good K s s' \<Longrightarrow> conn_inv K s'"
  by (simp add: good_def)

lemma safe_Inr: "safe K f s \<Longrightarrow> f s = Inr s' \<Longrightarrow> good K s s'"
  by (simp add: safe_def)

lemma safe_bind:
  assumes "safe K f s" and "\<And>s'. f s = Inr s' \<Longrightarrow> good K s s' \<Longrightarrow> safe K g s'"
  shows "safe K (\<lambda>s. bind_r (f s) g) s"
proof (cases "f s")
  case (Inl e)
  then show ?thesis using assms(1) by (simp add: safe_def)
next
  case (Inr s')
  then have "good K s s'" using safe_Inr [OF assms(1)] by simp
  with assms(2) [OF Inr this] Inr show ?thesis
    by (auto simp: safe_def split: sum.splits intro: good_trans)
qed

text \<open>An operation that keeps the state of a connection that is neither closed nor still connecting.\<close>

lemma good_open:
  assumes "conn_inv K s'" and "conn_frame K s s'" and "stateC (conn s) \<noteq> kConnecting"
    and "stateC (conn s) \<noteq> kDisconnected" and "stateC (conn s') \<noteq> kConnecting"
    and "stateC (conn s') \<noteq> kDisconnected"
  shows "good K s s'"
  using assms by (simp add: good_def)

text \<open>An operation that leaves the connection and its channel alone.\<close>

lemma good_same_chan:
  assumes "conn_inv K s'" and "conn_frame K s s'" and "stateC (conn s') = stateC (conn s)"
    and "c_chan s' = c_chan s"
    and "stateC (conn s) = kConnecting \<Longrightarrow> pendingFunctors (ioLoop s') = pendingFunctors (ioLoop s)"
  shows "good K s s'"
  using assms by (simp add: good_def reg_def)

section \<open>The operations\<close>

lemma sendInLoop_safe:
  assumes doc: "kernel_doc K" and inv: "conn_inv K s" and st: "stateC (conn s) \<noteq> kConnecting"
    and len: "length d \<le> vec_max_size"
  shows "safe K (sendInLoop K t d) s"
proof (cases "stateC (conn s) = kDisconnected")
  case True
  then show ?thesis using good_refl [OF inv] by (simp add: safe_def sendInLoop_def)
next
  case False
  show ?thesis
  proof (cases "sendInLoop K t d s")
    case (Inl e)
    then show ?thesis using sendInLoop_ok [OF doc inv False len, of t] by (simp add: safe_def)
  next
    case (Inr s')
    with sendInLoop_ok [OF doc inv False len, of t] obtain b where
      "conn_inv K s'" "conn_frame K s s'" "conn s' = (conn s)\<lparr>outputBuffer := b\<rparr>" by auto
    then show ?thesis using Inr False st by (simp add: safe_def good_open)
  qed
qed

lemma queue_own_good:
  assumes doc: "kernel_doc K" and inv: "conn_inv K s" and own: "own_functor (objId (conn s)) f"
    and st: "stateC (conn s) \<noteq> kConnecting"
  shows "good K s (queue_c K t f s)"
proof (rule good_same_chan)
  note ev = kernel_docD(3) [OF doc]
  show "conn_inv K (queue_c K t f s)" using inv by (simp add: conn_inv_def queue_c_view(4) [OF ev])
  show "conn_frame K s (queue_c K t f s)" by (rule queue_c_frame [OF ev own])
qed (use st in simp_all)

lemma send_safe:
  assumes "kernel_doc K" and "conn_inv K s" and "length d \<le> vec_max_size"
  shows "safe K (send K t d) s"
  using sendInLoop_safe [OF assms(1,2) _ assms(3), of t]
    queue_own_good [OF assms(1,2), of "SendInLoop (objId (conn s)) d" t] good_refl [OF assms(2)] assms(3)
  by (auto simp: safe_def send_def runInLoop_c_def)

lemma inputBuffer_good:
  assumes "conn_inv K s" and "buffer_wf b"
  shows "good K s (s\<lparr>conn := (conn s)\<lparr>inputBuffer := b\<rparr>\<rparr>)"
proof -
  have "conn_base K (s\<lparr>conn := (conn s)\<lparr>inputBuffer := b\<rparr>\<rparr>)"
    using assms by (intro conn_upd_base(2)) (simp_all add: conn_inv_def)
  then show ?thesis
    using assms frame_conn_upd [of "(conn s)\<lparr>inputBuffer := b\<rparr>" s K]
    by (intro good_same_chan) (simp_all add: conn_inv_def)
qed

lemma sendBuf_safe:
  assumes doc: "kernel_doc K" and inv: "conn_inv K s" and wf: "buffer_wf b"
  shows "case sendBuf K t b s of
      Inl e \<Rightarrow> e = LengthError | Inr (s', b') \<Rightarrow> good K s s' \<and> buffer_wf b'"
proof -
  have pk: "peek (readableBytes b) b = Inr (content b)"
    using peek_content [OF wf, of "length (content b)"] wf by simp
  obtain b0 where b0: "mk_buffer kInitialSize = Inr b0" "buffer_wf b0"
    using mk_buffer_ok [of kInitialSize] by (auto simp: kInitialSize_def kCheapPrepend_def vec_max_size_less)
  show ?thesis
  proof (cases "stateC (conn s) = kConnected")
    case False
    then show ?thesis using good_refl [OF inv] wf by (simp add: sendBuf_def)
  next
    case True
    have s: "safe K (sendInLoop K t (content b)) s"
      by (rule sendInLoop_safe [OF doc inv _ content_small [OF wf]]) (simp add: True)
    have q: "good K s (queue_c K t (SendBufInLoop (objId (conn s)) b) s)"
      by (rule queue_own_good [OF doc inv]) (use wf True in simp_all)
    show ?thesis
    proof (cases "isInLoopThread t (ioLoop s)")
      case loop: True
      then show ?thesis using True s pk retrieveAll_wf [OF wf]
        by (cases "sendInLoop K t (content b) s") (simp_all add: sendBuf_def safe_def)
    next
      case False
      then show ?thesis using True q b0 by (simp add: sendBuf_def swap_b_def runInLoop_c_def)
    qed
  qed
qed

lemma shutdownInLoop_safe:
  assumes "kernel_doc K" and "conn_inv K s"
  shows "safe K (shutdownInLoop K) s"
proof -
  have b: "conn_base K s" using assms(2) by (simp add: conn_inv_def)
  from shutdownInLoop_ok [OF kernel_docD(7) [OF assms(1)] b] obtain s' where
    s': "shutdownInLoop K s = Inr s'" "conn_base K s'" "conn_frame K s s'" "conn s' = conn s"
      "writing s' = writing s" "pendingFunctors (ioLoop s') = pendingFunctors (ioLoop s)" by blast
  have "c_chan s' = c_chan s"
    using s'(1) by (auto simp: shutdownInLoop_def split: if_splits elim!: bind_r_Inr_E)
  moreover have "conn_inv K s'" using s' assms(2) by (simp add: conn_inv_def)
  ultimately show ?thesis using s' by (simp add: safe_def good_same_chan)
qed

text \<open>
  The assignment of \<^verbatim>\<open>shutdown\<close>, without the test before it and the functor it then queues: the three
  are separate steps when another thread calls it.
\<close>

lemma shutdown_assign_good:
  assumes inv: "conn_inv K s" and st: "stateC (conn s) = kConnected \<or> stateC (conn s) = kDisconnecting"
  shows "good K s (setState kDisconnecting s)"
proof -
  let ?s = "setState kDisconnecting s"
  have "conn_base K ?s" using inv by (intro conn_upd_base(3)) (simp add: conn_inv_def)
  then have inv': "conn_inv K ?s" using inv st by (auto simp: conn_inv_def) (simp_all add: setState_def)
  have "conn_frame K s ?s" unfolding setState_def by (rule frame_conn_upd) simp
  then show ?thesis using inv' st by (intro good_open) (auto simp: setState_def)
qed

text \<open>In another thread, a call of \<^verbatim>\<open>shutdown\<close> that nothing interrupts is the three steps in a row.\<close>

lemma shutdown_foreign:
  assumes "\<not> isInLoopThread t (ioLoop s)"
  shows "shutdown K t s = Inr (if stateC (conn s) = kConnected
    then queue_c K t (ShutdownInLoop (objId (conn s))) (setState kDisconnecting s) else s)"
  using assms by (simp add: shutdown_def runInLoop_c_def setState_def)

lemma shutdown_safe:
  assumes doc: "kernel_doc K" and inv: "conn_inv K s"
  shows "safe K (shutdown K t) s"
proof (cases "stateC (conn s) = kConnected")
  case False
  then show ?thesis using good_refl [OF inv] by (simp add: safe_def shutdown_def)
next
  case True
  let ?s = "setState kDisconnecting s"
  have g: "good K s ?s" using shutdown_assign_good [OF inv] True by simp
  have q: "good K ?s (queue_c K t (ShutdownInLoop (objId (conn s))) ?s)"
    by (rule queue_own_good [OF doc good_inv [OF g]]) (simp_all add: setState_def)
  show ?thesis
    using shutdownInLoop_safe [OF doc good_inv [OF g]] True good_trans [OF g] good_trans [OF g q]
    by (auto simp: safe_def shutdown_def runInLoop_c_def split: sum.splits)
qed

lemma sendFileInLoop_safe:
  assumes doc: "kernel_doc K" and inv: "conn_inv K s" and st: "stateC (conn s) \<noteq> kConnecting"
  shows "safe K (sendFileInLoop K t f off count) s"
proof (cases "stateC (conn s) = kDisconnecting")
  case True
  then show ?thesis using good_refl [OF inv] by (simp add: safe_def sendFileInLoop_def)
next
  case False
  have b: "conn_base K s" using inv by (simp add: conn_inv_def)
  from b obtain ch where ch: "chan_of s = Inr ch" "c_chan s = Some ch" by (rule chan_of_base)
  have again: "good K x (queue_c K t (SendFileInLoop (objId (conn x)) f o' n) x)"
    if "conn_inv K x" "stateC (conn x) \<noteq> kConnecting" for x o' n
    by (rule queue_own_good [OF doc that(1)]) (use that(2) in simp_all)
  obtain k' out where sf: "sock_sendfile K (kst (ioLoop s)) (socketFd (conn s)) f off count = (k', out)" by force
  note d = sendfile_docD [OF kernel_docD(5) [OF doc] sf]
  let ?s1 = "s\<lparr>ioLoop := (ioLoop s)\<lparr>kst := k'\<rparr>\<rparr>"
  have i1: "conn_inv K ?s1" by (rule conn_inv_loop_upd [OF inv]) (use d(1) in simp_all)
  have "sent K k' x = sent K (kst (ioLoop s)) x" if "x \<noteq> socketFd (conn s)" for x
    using d(4,5) that by (cases out) simp_all
  then have f1: "conn_frame K s ?s1" using d(1-3) by (simp add: conn_frame_def loop_frame_def)
  have g1: "good K s ?s1" by (rule good_same_chan [OF i1 f1]) simp_all
  have wc: "good K ?s1 (queue_c K t (WriteCompleteF (objId (conn s))) ?s1)"
    by (rule queue_own_good [OF doc i1]) (use st in simp_all)
  show ?thesis
    using False ch sf good_refl [OF inv] again [OF inv st] g1 good_trans [OF g1 wc]
      good_trans [OF g1 again [OF i1]] st
    by (cases out) (auto simp: safe_def sendFileInLoop_def Let_def)
qed

lemma sendFile_safe:
  assumes "kernel_doc K" and "conn_inv K s"
  shows "safe K (sendFile K t f off count) s"
  using sendFileInLoop_safe [OF assms, of t f off count]
    queue_own_good [OF assms, of "SendFileInLoop (objId (conn s)) f off count" t] good_refl [OF assms(2)]
  by (auto simp: safe_def sendFile_def runInLoop_c_def connected_def)

fun op_small :: "user_op \<Rightarrow> bool" where
  "op_small (USend m) \<longleftrightarrow> length m \<le> vec_max_size"
| "op_small _ \<longleftrightarrow> True"

text \<open>The user's messages are no longer than a string can be.\<close>

definition user_small :: "user_callbacks \<Rightarrow> bool" where
  "user_small U \<longleftrightarrow> (\<forall>c. list_all op_small (onConnection U c) \<and> list_all op_small (onMessage U c) \<and>
     list_all op_small (onWriteComplete U c) \<and> (\<forall>n. list_all op_small (onHighWaterMark U c n)))"

lemma do_user_op_safe:
  assumes doc: "kernel_doc K" and inv: "conn_inv K s" and small: "op_small oper"
  shows "safe K (do_user_op K t oper) s"
proof (cases oper)
  case (USend m)
  then show ?thesis using send_safe [OF doc inv, of m t] small by (simp add: safe_def do_user_op_def)
next
  case USendInput
  let ?ib = "inputBuffer (conn s)"
  have wf: "buffer_wf ?ib" using inv by (simp add: conn_inv_def conn_base_def)
  note r = sendBuf_safe [OF doc inv wf, of t]
  show ?thesis
  proof (cases "sendBuf K t ?ib s")
    case (Inl e)
    then show ?thesis using r USendInput by (simp add: safe_def do_user_op_def)
  next
    case (Inr x)
    then obtain s' b where x: "x = (s', b)" "good K s s'" "buffer_wf b" using r by (cases x) auto
    have "good K s (s'\<lparr>conn := (conn s')\<lparr>inputBuffer := b\<rparr>\<rparr>)"
      by (rule good_trans [OF x(2) inputBuffer_good [OF good_inv [OF x(2)] x(3)]])
    then show ?thesis using Inr USendInput x(1) by (simp add: safe_def do_user_op_def)
  qed
next
  case (USendFile f off n)
  then show ?thesis using sendFile_safe [OF doc inv, of t f off n] by (simp add: safe_def do_user_op_def)
next
  case UShutdown
  then show ?thesis using shutdown_safe [OF doc inv, of t] by (simp add: safe_def do_user_op_def)
next
  case (URetrieve n)
  have "buffer_wf (inputBuffer (conn s))" using inv by (simp add: conn_inv_def conn_base_def)
  then show ?thesis using inputBuffer_good [OF inv retrieve_wf] URetrieve by (simp add: safe_def do_user_op_def)
next
  case URetrieveAll
  have "buffer_wf (inputBuffer (conn s))" using inv by (simp add: conn_inv_def conn_base_def)
  then show ?thesis using inputBuffer_good [OF inv retrieveAll_wf] URetrieveAll by (simp add: safe_def do_user_op_def)
next
  case (USetTcpNoDelay on)
  then show ?thesis using conn_attr [OF inv conn_attr_sel(1), of on] by (simp add: safe_def do_user_op_def good_same_chan)
next
  case (USetHighWaterMark n)
  then show ?thesis using conn_attr [OF inv conn_attr_sel(2), of True n] by (simp add: safe_def do_user_op_def good_same_chan)
qed

lemma run_ops_safe:
  assumes doc: "kernel_doc K" and "conn_inv K s" and "list_all op_small ops"
  shows "safe K (run_each (do_user_op K t) ops) s"
  using assms(2,3)
proof (induction ops arbitrary: s)
  case Nil
  then show ?case by (simp add: safe_def good_refl)
next
  case (Cons oper ops)
  have "safe K (\<lambda>s. bind_r (do_user_op K t oper s) (run_each (do_user_op K t) ops)) s"
    by (rule safe_bind [OF do_user_op_safe [OF doc Cons.prems(1)]])
      (use Cons in \<open>auto dest: good_inv\<close>)
  then show ?case by (simp add: safe_def)
qed

lemma user_safe:
  assumes "kernel_doc K" and "conn_inv K s" and "\<And>c. list_all op_small (cb c)"
  shows "safe K (user K t cb) s"
  using run_ops_safe [OF assms(1,2) assms(3), of t "conn s"] by (simp add: safe_def user_def)

lemma handleWrite_safe:
  assumes doc: "kernel_doc K" and inv: "conn_inv K s" and st: "stateC (conn s) \<noteq> kConnecting"
  shows "safe K (handleWrite K t) s"
proof (cases "stateC (conn s) = kDisconnected")
  case True
  then have w: "\<not> writing s" and b: "conn_base K s" using inv by (simp_all add: conn_inv_def)
  from b obtain ch where "chan_of s = Inr ch" "c_chan s = Some ch" by (rule chan_of_base)
  then have "handleWrite K t s = Inr s" using w writing_chan by (fastforce simp: handleWrite_def)
  then show ?thesis using good_refl [OF inv] by (simp add: safe_def)
next
  case False
  from handleWrite_ok [OF doc inv, of t] obtain s' b where
    "handleWrite K t s = Inr s'" "conn_inv K s'" "conn_frame K s s'" "conn s' = (conn s)\<lparr>outputBuffer := b\<rparr>"
    by blast
  then show ?thesis using False st by (simp add: safe_def good_open)
qed

text \<open>The part of \<^verbatim>\<open>handleClose\<close> before the close callback.\<close>

lemma close_part_ok:
  assumes doc: "kernel_doc K" and inv: "conn_inv K s" and U: "user_small U"
  shows "case bind_r (on_loop (disableAll K (channelP (conn s))) (setState kDisconnected s))
      (user K t (onConnection U)) of
    Inl e \<Rightarrow> e = LengthError
  | Inr s' \<Rightarrow> conn_inv K s' \<and> conn_frame K s s' \<and> stateC (conn s') = kDisconnected"
proof -
  let ?s = "setState kDisconnected s"
  have b: "conn_base K ?s" using inv by (intro conn_upd_base(3)) (simp add: conn_inv_def)
  from disableAll_c [OF kernel_docD(1) [OF doc] b] obtain s1 where
    s1: "on_loop (disableAll K (channelP (conn ?s))) ?s = Inr s1" "conn_base K s1" "conn_frame K ?s s1"
      "conn s1 = conn ?s" "\<not> writing s1" by blast
  have inv1: "conn_inv K s1" using s1 by (simp add: conn_inv_def) (simp add: setState_def)
  have "conn_frame K s ?s" unfolding setState_def by (rule frame_conn_upd) simp
  from conn_frame_trans [OF this s1(3)] have f: "conn_frame K s s1" .
  have sf: "safe K (user K t (onConnection U)) s1"
    by (rule user_safe [OF doc inv1]) (use U in \<open>simp add: user_small_def\<close>)
  have e: "on_loop (disableAll K (channelP (conn s))) ?s = Inr s1" using s1(1) by (simp add: setState_def)
  have d1: "stateC (conn s1) = kDisconnected" using s1(4) by (simp add: setState_def)
  show ?thesis
  proof (cases "user K t (onConnection U) s1")
    case (Inl x)
    then show ?thesis using sf e by (simp add: safe_def)
  next
    case (Inr s')
    then have g': "good K s1 s'" using sf by (simp add: safe_def)
    then show ?thesis using Inr e d1 conn_frame_trans [OF f, of s'] by (simp add: good_def)
  qed
qed

lemma readFd_total:
  assumes wf: "buffer_wf b" and len: "\<And>bs. out = ReadOk bs \<Longrightarrow> length bs \<le> sum_list (readFd_iov b)"
  shows "readFd (\<lambda>_. out) b = Inl LengthError \<or>
    (\<exists>b' n e. readFd (\<lambda>_. out) b = Inr (b', n, e) \<and> buffer_wf b' \<and>
      n = (case out of ReadErr e \<Rightarrow> -1 | ReadOk bs \<Rightarrow> int (length bs)))"
proof (cases out)
  case (ReadErr e)
  then show ?thesis using wf by (simp add: readFd_def)
next
  case (ReadOk bs)
  note bnd = buffer_wf_bounds [OF wf]
  let ?w = "length (bufferV b) - writerIndex b"
  let ?d = "take ?w bs" and ?e = "drop ?w bs"
  have fit: "writerIndex b + length ?d \<le> length (bufferV b)" using bnd by simp
  let ?v = "take (writerIndex b) (bufferV b) @ ?d @ drop (writerIndex b + length ?d) (bufferV b)"
  let ?b1 = "b\<lparr>bufferV := ?v, writerIndex := writerIndex b + length ?d\<rparr>"
  note w = content_vec_write [OF wf fit refl]
  have vw: "vec_write (writerIndex b) ?d (bufferV b) = Inr ?v" using fit by (simp add: vec_write_def)
  show ?thesis
  proof (cases "length bs \<le> ?w")
    case True
    then have "sz_add (writerIndex b) (length bs) = writerIndex b + length bs" using bnd by simp
    with True ReadOk vw wf have "readFd (\<lambda>_. out) b = Inr (?b1, int (length bs), None)"
      by (simp add: readFd_def Let_def)
    with w(1) ReadOk show ?thesis by auto
  next
    case False
    have "length bs \<le> ?w + extrabuf_size" using len [OF ReadOk] readFd_iov_sum [OF wf] by simp
    then have l: "length ?e \<le> vec_max_size" by (simp add: extrabuf_size_def vec_max_size_less)
    have b1: "b\<lparr>bufferV := ?v, writerIndex := length ?v\<rparr> = ?b1" using False bnd by simp
    have r: "readFd (\<lambda>_. out) b = bind_r (append_b ?e ?b1) (\<lambda>b2. Inr (b2, int (length bs), None))"
      using False ReadOk vw wf b1 by (simp add: readFd_def Let_def)
    from append_b_cases [OF w(1) l] show ?thesis using r ReadOk by auto
  qed
qed

text \<open>What \<^verbatim>\<open>handleRead\<close> does once the bytes are in the input buffer.\<close>

lemma handleRead_parts:
  assumes doc: "kernel_doc K" and inv: "conn_inv K s"
  shows "handleRead K t U closeCb s = Inl LengthError \<or>
    (\<exists>s1. good K s s1 \<and> reg s1 = reg s \<and> stateC (conn s1) = stateC (conn s) \<and>
      (handleRead K t U closeCb s = Inr s1 \<or> handleRead K t U closeCb s = user K t (onMessage U) s1 \<or>
       handleRead K t U closeCb s = handleClose K t U closeCb s1))"
proof -
  let ?ib = "inputBuffer (conn s)"
  have base: "conn_base K s" using inv by (simp add: conn_inv_def)
  then have wf: "buffer_wf ?ib" by (simp add: conn_base_def)
  from base obtain ch where ch: "chan_of s = Inr ch" "ch_fd ch = socketFd (conn s)" by (rule chan_of_base)
  obtain k' out where rv: "sock_readv K (kst (ioLoop s)) (socketFd (conn s)) (readFd_iov ?ib) = (k', out)" by force
  note dd = sock_readv_docD [OF kernel_docD(6) [OF doc] rv]
  have len: "length bs \<le> sum_list (readFd_iov ?ib)" if "out = ReadOk bs" for bs using dd(6) that by blast
  from readFd_total [OF wf, of out] len have "readFd (\<lambda>_. out) ?ib = Inl LengthError \<or>
    (\<exists>b n e. readFd (\<lambda>_. out) ?ib = Inr (b, n, e) \<and> buffer_wf b)" by blast
  then show ?thesis
  proof (elim disjE exE conjE)
    assume "readFd (\<lambda>_. out) ?ib = Inl LengthError"
    then show ?thesis using ch rv by (simp add: handleRead_def Let_def)
  next
    fix b n e assume b: "readFd (\<lambda>_. out) ?ib = Inr (b, n, e)" "buffer_wf b"
    let ?s0 = "s\<lparr>ioLoop := (ioLoop s)\<lparr>kst := k'\<rparr>\<rparr>"
    have i0: "conn_inv K ?s0" by (rule conn_inv_loop_upd [OF inv]) (use dd in simp_all)
    have "conn_frame K s ?s0" using dd by (simp add: conn_frame_def loop_frame_def)
    then have g0: "good K s ?s0" using i0 by (intro good_same_chan) simp_all
    let ?s1 = "?s0\<lparr>conn := (conn ?s0)\<lparr>inputBuffer := b\<rparr>\<rparr>"
    have g: "good K s ?s1" by (rule good_trans [OF g0 inputBuffer_good [OF i0 b(2)]])
    have "reg ?s1 = reg s" "stateC (conn ?s1) = stateC (conn s)" by (simp_all add: reg_def c_chan_def)
    moreover have "handleRead K t U closeCb s = (if 0 < n then user K t (onMessage U) ?s1
        else if n = 0 then handleClose K t U closeCb ?s1 else Inr ?s1)"
      using ch rv b by (simp add: handleRead_def Let_def handleError_def)
    ultimately show ?thesis using g by (intro disjI2 exI [of _ ?s1]) auto
  qed
qed

section \<open>Establishing and destroying\<close>

lemma tie_base:
  fixes obj :: nat
  assumes base: "conn_base K s" and ch: "c_chan s = Some ch"
  defines "s' \<equiv> s\<lparr>ioLoop := set_chan (channelP (conn s)) (tie obj ch) (ioLoop s)\<rparr>"
  shows "conn_base K s'" and "conn_frame K s s'"
proof -
  let ?p = "channelP (conn s)" and ?L = "ioLoop s"
  have c: "chans ?L ?p = Some ch" using ch by (simp add: c_chan_def)
  have wf: "reactor_wf K (set_chan ?p (tie obj ch) ?L)"
    unfolding reactor_wf_def
  proof (intro conjI allI impI)
    fix q x assume q: "chans (set_chan ?p (tie obj ch) ?L) q = Some x"
    have ok: "chan_ok K ?L r y" if "chans ?L r = Some y" for r y
      using reactor_wfD(1) [of K ?L] base that by (simp add: conn_base_def)
    show "chan_ok K (set_chan ?p (tie obj ch) ?L) q x"
    proof (cases "q = ?p")
      case True
      then show ?thesis using q ok [OF c] by (auto simp: chan_ok_def tie_def)
    next
      case False
      then show ?thesis using q ok [of q x] by (simp add: chan_ok_def)
    qed
  next
    fix fd q assume "channelsM (set_chan ?p (tie obj ch) ?L) fd = Some q"
    then show "\<exists>x. chans (set_chan ?p (tie obj ch) ?L) q = Some x \<and> ch_fd x = fd"
      using base c reactor_wfD(2) [of K ?L fd q] by (auto simp: conn_base_def tie_def)
  next
    fix fd assume "interest K (kst (set_chan ?p (tie obj ch) ?L)) fd \<noteq> None"
    then show "channelsM (set_chan ?p (tie obj ch) ?L) fd \<noteq> None"
      using base reactor_wfD(3) [of K ?L fd] by (auto simp: conn_base_def)
  qed
  then show "conn_base K s'"
    using base ch c by (auto simp: s'_def conn_base_def c_chan_def fd_free_def tie_def)
  show "conn_frame K s s'" by (simp add: s'_def conn_frame_def loop_frame_def) (simp add: set_chan_def)
qed

text \<open>The state in which \<^verbatim>\<open>connectEstablished\<close> calls the connection callback.\<close>

lemma connectEstablished_run:
  assumes doc: "kernel_doc K" and inv: "conn_inv K s" and st: "stateC (conn s) = kConnecting"
  shows "\<exists>s'. connectEstablished K t U s = user K t (onConnection U) s' \<and> conn_inv K s' \<and> conn_frame K s s' \<and>
    conn s' = (conn s)\<lparr>stateC := kConnected\<rparr> \<and> (\<exists>ch. c_chan s' = Some ch \<and> isReading ch \<and> ch_tie ch = Some (objId (conn s)))"
proof -
  let ?s1 = "setState kConnected s" and ?p = "channelP (conn s)"
  have b1: "conn_base K ?s1" using inv by (intro conn_upd_base(3)) (simp add: conn_inv_def)
  have f1: "conn_frame K s ?s1" unfolding setState_def by (rule frame_conn_upd) simp
  from b1 obtain ch where ch: "chan_of ?s1 = Inr ch" "c_chan ?s1 = Some ch" by (rule chan_of_base)
  define s2 where "s2 = ?s1\<lparr>ioLoop := set_chan ?p (tie (objId (conn s)) ch) (ioLoop ?s1)\<rparr>"
  have p1: "channelP (conn ?s1) = ?p" "objId (conn ?s1) = objId (conn s)" by (simp_all add: setState_def)
  have b2: "conn_base K s2" and f2: "conn_frame K ?s1 s2"
    using tie_base [OF b1 ch(2), of "objId (conn s)"] by (simp_all add: s2_def p1)
  have c2: "c_chan s2 = Some (tie (objId (conn s)) ch)" "conn s2 = conn ?s1"
    by (simp_all add: s2_def c_chan_def p1)
  from set_events_c [OF kernel_docD(1) [OF doc] b2 c2(1), of "enableReading_ev (tie (objId (conn s)) ch)"] obtain s3 i where
    s3: "on_loop (set_events K (enableReading_ev (tie (objId (conn s)) ch)) (channelP (conn s2))) s2 = Inr s3"
      "conn_base K s3" "conn_frame K s2 s3" "conn s3 = conn s2"
      "c_chan s3 = Some ((tie (objId (conn s)) ch)\<lparr>ch_events := enableReading_ev (tie (objId (conn s)) ch), ch_index := i\<rparr>)"
    by blast
  have run: "on_loop (\<lambda>L. enableReading K (channelP (conn ?s1))
      (set_chan (channelP (conn ?s1)) (tie (objId (conn ?s1)) ch) L)) ?s1 = Inr s3"
    using s3(1) by (simp add: on_loop_def enableReading_def s2_def p1 comp_def split: sum.splits)
  have w: "writing s3 = writing s"
    using s3(5) ch(2) by (simp add: writing_def) (simp add: tie_def)
  have inv3: "conn_inv K s3"
    using s3(2) w inv st c2(2) s3(4) by (simp add: conn_inv_def) (simp add: setState_def)
  have f3: "conn_frame K s s3" by (rule conn_frame_trans [OF f1 conn_frame_trans [OF f2 s3(3)]])
  have "conn s3 = (conn s)\<lparr>stateC := kConnected\<rparr>" using s3(4) c2(2) by (simp add: setState_def)
  moreover have "connectEstablished K t U s = user K t (onConnection U) s3"
    using run ch(1) by (simp add: connectEstablished_def Let_def)
  moreover have "enableReading_ev (tie (objId (conn s)) ch) AND kReadEvent \<noteq> 0"
    using mask_or_not_zero [of kReadEvent "ch_events (tie (objId (conn s)) ch)"] by (simp add: enableReading_ev_def)
  ultimately show ?thesis using inv3 f3 s3(5)
    by (intro exI [of _ s3]) (simp add: isReading_def, simp add: tie_def)
qed

lemma connectEstablished_ok:
  assumes doc: "kernel_doc K" and inv: "conn_inv K s" and st: "stateC (conn s) = kConnecting" and U: "user_small U"
  shows "case connectEstablished K t U s of
      Inl e \<Rightarrow> e = LengthError
    | Inr s' \<Rightarrow> conn_inv K s' \<and> conn_frame K s s' \<and> stateC (conn s') \<noteq> kConnecting \<and>
        stateC (conn s') \<noteq> kDisconnected"
proof -
  from connectEstablished_run [OF doc inv st, of t U] obtain s3 where
    s3: "connectEstablished K t U s = user K t (onConnection U) s3" "conn_inv K s3" "conn_frame K s s3"
      "conn s3 = (conn s)\<lparr>stateC := kConnected\<rparr>" by blast
  have "safe K (user K t (onConnection U)) s3"
    by (rule user_safe [OF doc s3(2)]) (use U in \<open>simp add: user_small_def\<close>)
  then show ?thesis using s3
    by (auto simp: safe_def good_def split: sum.splits intro: conn_frame_trans)
qed

lemma remove_part_ok:
  assumes doc: "kernel_doc K" and inv: "conn_inv K s"
  shows "\<exists>s'. on_loop (removeChannel K (channelP (conn s))) s = Inr s' \<and> conn_inv K s' \<and> conn_frame K s s' \<and>
    conn s' = conn s \<and> \<not> reg s'"
proof -
  let ?p = "channelP (conn s)" and ?L = "ioLoop s"
  have base: "conn_base K s" using inv by (simp add: conn_inv_def)
  from base obtain ch where ch: "c_chan s = Some ch" "ch_fd ch = socketFd (conn s)" "chans ?L ?p = Some ch"
    by (rule chan_of_base)
  from base have wf: "reactor_wf K ?L" and free: "fd_free ?L ?p" by (simp_all add: conn_base_def)
  from removeChannel_ok [OF kernel_docD(1) [OF doc] wf ch(3) free] obtain k' where
    r: "removeChannel K ?p ?L = Inr (?L\<lparr>chans := (chans ?L)(?p \<mapsto> ch\<lparr>ch_index := kNew\<rparr>),
      channelsM := (channelsM ?L)(ch_fd ch := None), kst := k'\<rparr>)" (is "_ = Inr ?L'")
    and io: "same_io K (kst ?L) k'" and i: "interest K k' = (interest K (kst ?L))(ch_fd ch := None)" by blast
  let ?s = "s\<lparr>ioLoop := ?L'\<rparr>"
  have "reactor_wf K ?L'" by (rule reactor_wf_remove [OF wf ch(3) free i])
  then have "conn_base K ?s" using base ch by (simp add: conn_base_def c_chan_def fd_free_def)
  moreover have "writing ?s = writing s" "\<not> reg ?s" using ch by (simp_all add: writing_def c_chan_def reg_def)
  moreover have "conn_frame K s ?s" using io i ch(2) by (simp add: conn_frame_def loop_frame_def same_io_def)
  ultimately show ?thesis using r inv by (intro exI [of _ ?s]) (simp add: on_loop_def conn_inv_def)
qed

lemma connectDestroyed_closed:
  assumes doc: "kernel_doc K" and inv: "conn_inv K s" and st: "stateC (conn s) \<noteq> kConnected"
  shows "\<exists>s'. connectDestroyed K t U s = Inr s' \<and> conn_inv K s' \<and> conn_frame K s s' \<and> conn s' = conn s \<and> \<not> reg s'"
  using remove_part_ok [OF doc inv] st by (simp add: connectDestroyed_def)

lemma connectDestroyed_open:
  assumes doc: "kernel_doc K" and inv: "conn_inv K s" and U: "user_small U" and st: "stateC (conn s) = kConnected"
  shows "case connectDestroyed K t U s of Inl e \<Rightarrow> e = LengthError
    | Inr s' \<Rightarrow> conn_inv K s' \<and> conn_frame K s s' \<and> stateC (conn s') = kDisconnected \<and> \<not> reg s'"
proof (cases "bind_r (on_loop (disableAll K (channelP (conn s))) (setState kDisconnected s)) (user K t (onConnection U))")
  case (Inl e)
  then show ?thesis using close_part_ok [OF doc inv U, of t] st by (simp add: connectDestroyed_def)
next
  case (Inr s1)
  with close_part_ok [OF doc inv U, of t] have s1: "conn_inv K s1" "conn_frame K s s1" "stateC (conn s1) = kDisconnected"
    by simp_all
  from remove_part_ok [OF doc s1(1)] obtain s2 where
    "on_loop (removeChannel K (channelP (conn s1))) s1 = Inr s2" "conn_inv K s2" "conn_frame K s1 s2" "conn s2 = conn s1" "\<not> reg s2"
    by blast
  then show ?thesis using Inr s1(2,3) st conn_frame_trans [OF s1(2)] by (simp add: connectDestroyed_def)
qed

text \<open>
  The test of \<^verbatim>\<open>shutdown\<close> and what follows it are two steps when another thread calls it. If the loop's
  thread closes the connection between them, the state \<^verbatim>\<open>kDisconnected\<close> is overwritten.
\<close>

definition shutdown_act :: "'k kernel \<Rightarrow> int \<Rightarrow> ('k, 'z) tcp_scheme \<Rightarrow> ('k, 'z) tcp_scheme result" where
  "shutdown_act K t s =
     runInLoop_c K t (shutdownInLoop K) (ShutdownInLoop (objId (conn s))) (setState kDisconnecting s)"

lemma shutdown_two_steps: "shutdown K t s = (if stateC (conn s) = kConnected then shutdown_act K t s else Inr s)"
  by (simp add: shutdown_def shutdown_act_def)

lemma shutdown_overwrites_close:
  assumes doc: "kernel_doc K" and inv: "conn_inv K s" and U: "user_small U"
    and t: "\<not> isInLoopThread t (ioLoop s)"
    and cl: "bind_r (on_loop (disableAll K (channelP (conn s))) (setState kDisconnected s)) (user K t' (onConnection U)) = Inr s1"
  shows "stateC (conn s1) = kDisconnected \<and> (\<exists>s2. shutdown_act K t s1 = Inr s2 \<and> stateC (conn s2) = kDisconnecting)"
proof -
  from close_part_ok [OF doc inv U, of t'] cl have s1: "conn_frame K s s1" "stateC (conn s1) = kDisconnected" by simp_all
  have "\<not> isInLoopThread t (ioLoop s1)" using t conn_frameD(7) [OF s1(1)] by (simp add: isInLoopThread_def)
  then show ?thesis using s1(2) by (simp add: shutdown_act_def runInLoop_c_def setState_def)
qed

text \<open>
  What is worse, the connection can come back. Bytes that must wait register its channel again.
\<close>

lemma sendRest_registers:
  assumes doc: "kernel_doc K" and base: "conn_base K s" and w: "\<not> writing s" and ne: "rest \<noteq> []"
    and fits: "writerIndex (outputBuffer (conn s)) + length rest \<le> vec_max_size"
  shows "\<exists>s'. sendRest K t rest False s = Inr s' \<and> conn_frame K s s' \<and>
    channelsM (ioLoop s') (socketFd (conn s)) = Some (channelP (conn s))"
proof -
  let ?c = "conn s" and ?ob = "outputBuffer (conn s)" and ?fd = "socketFd (conn s)"
  let ?f = "HighWaterMarkF (objId ?c) (length (content ?ob) + length rest)"
  note ep = kernel_docD(1) [OF doc] and ev = kernel_docD(3) [OF doc]
  have wf: "buffer_wf ?ob" using base by (simp add: conn_base_def)
  have len: "length rest \<le> vec_max_size" using fits by simp
  from append_b_cases [OF wf len] fits obtain b where b: "append_b rest ?ob = Inr b" "buffer_wf b"
    using buffer_wf_bounds(3) [OF wf] by fastforce
  define s1 where "s1 = (if hwm_crossed ?c (length rest) then queue_c K t ?f s else s)"
  define s2 where "s2 = s1\<lparr>conn := ?c\<lparr>outputBuffer := b\<rparr>\<rparr>"
  have m1: "moved K s s1 [] False (if hwm_crossed ?c (length rest) then [?f] else [])"
    unfolding s1_def by (rule moved_queue [OF ev base]) simp
  have c1: "conn s1 = ?c" by (simp add: s1_def)
  have m2: "moved K s1 s2 [] False []"
    using moved_buffer [OF movedD(1) [OF m1] b(2)] by (simp add: s2_def c1)
  have b2: "conn_base K s2" by (rule movedD(1) [OF m2])
  from b2 obtain ch where ch: "chan_of s2 = Inr ch" "c_chan s2 = Some ch" "ch_fd ch = socketFd (conn s2)" by (rule chan_of_base)
  have "c_chan s2 = c_chan s1" by (simp add: s2_def c_chan_def c1)
  then have "writing s2 = writing s" by (simp add: writing_def s1_def)
  with w have nw: "\<not> isWriting ch" using writing_chan [OF ch(2)] by simp
  have run: "sendRest K t rest False s = on_loop (enableWriting K (channelP ?c)) s2"
    using sendRest_waits [OF wf len ne, of K t] b(1) ch(1) nw by (simp add: s1_def [symmetric] s2_def c1)
  from set_events_c [OF ep b2 ch(2), of "enableWriting_ev ch"] obtain s3 where
    s3: "on_loop (set_events K (enableWriting_ev ch) (channelP (conn s2))) s2 = Inr s3" "conn_frame K s2 s3" by blast
  have ch': "chans (ioLoop s2) (channelP ?c) = Some ch" using ch(2) by (simp add: c_chan_def s2_def)
  then have e: "on_loop (enableWriting K (channelP ?c)) s2 = Inr s3"
    using s3(1) by (simp add: on_loop_def enableWriting_def s2_def)
  have "reactor_wf K (ioLoop s2)" "fd_free (ioLoop s2) (channelP ?c)" using b2 by (simp_all add: conn_base_def s2_def)
  from set_events_ok [OF ep this(1) ch' this(2), of "enableWriting_ev ch"] s3(1) ch(3)
  have "channelsM (ioLoop s3) ?fd = Some (channelP ?c)" by (auto simp: on_loop_def s2_def)
  moreover have "conn_frame K s s3"
    by (rule conn_frame_trans [OF movedD(2) [OF m1] conn_frame_trans [OF movedD(2) [OF m2] s3(2)]])
  ultimately show ?thesis using run e by auto
qed

text \<open>
  A connection is closed and destroyed, its channel is out of the poller, and a message queued late is
  dropped, as it should be. But when a \<^verbatim>\<open>shutdown\<close> that had passed its test before assigns
  \<^verbatim>\<open>kDisconnecting\<close> now, the late message is sent; if the socket does not take it, the channel is entered in
  the poller again, and nothing pending will remove it before the object is destroyed.
\<close>

lemma late_shutdown_revives:
  assumes doc: "kernel_doc K" and inv: "conn_inv K s" and st: "stateC (conn s) = kDisconnected"
    and e: "content (outputBuffer (conn s)) = []" and t: "\<not> isInLoopThread t (ioLoop s)"
    and ne: "msg \<noteq> []" and fits: "writerIndex (outputBuffer (conn s)) + length msg \<le> vec_max_size"
    and full: "\<And>k. snd (sock_write K k (socketFd (conn s)) msg) = WriteErr EWOULDBLOCK"
  shows "\<exists>s1 s2 s3. connectDestroyed K t' U s = Inr s1 \<and> \<not> reg s1 \<and> sendInLoop K t' msg s1 = Inr s1 \<and>
    shutdown_act K t s1 = Inr s2 \<and> sendInLoop K t' msg s2 = Inr s3 \<and> conn_frame K s1 s3 \<and>
    channelsM (ioLoop s3) (socketFd (conn s)) = Some (channelP (conn s)) \<and>
    (ConnectDestroyedF (objId (conn s)) \<in> set (pendingFunctors (ioLoop s3)) \<longrightarrow>
     ConnectDestroyedF (objId (conn s)) \<in> set (pendingFunctors (ioLoop s1)))"
proof -
  note ev = kernel_docD(3) [OF doc]
  from connectDestroyed_closed [OF doc inv, of t' U] st obtain s1 where
    s1: "connectDestroyed K t' U s = Inr s1" "conn_inv K s1" "conn_frame K s s1" "conn s1 = conn s" "\<not> reg s1" by auto
  have b1: "conn_base K s1" and w1: "\<not> writing s1" using s1(2,4) st by (simp_all add: conn_inv_def)
  let ?s = "setState kDisconnecting s1" and ?f = "ShutdownInLoop (objId (conn s))"
  define s2 where "s2 = queue_c K t ?f ?s"
  have "\<not> isInLoopThread t (ioLoop ?s)" using t conn_frameD(7) [OF s1(3)] by (simp add: isInLoopThread_def setState_def)
  then have act: "shutdown_act K t s1 = Inr s2" by (simp add: shutdown_act_def runInLoop_c_def s2_def s1(4))
  have bs: "conn_base K ?s" by (rule conn_upd_base(3) [OF b1])
  have own: "own_functor (objId (conn ?s)) ?f" by (simp add: setState_def s1(4))
  have fs: "conn_frame K s1 ?s" unfolding setState_def by (rule frame_conn_upd) simp
  have f2: "conn_frame K s1 s2" unfolding s2_def by (rule conn_frame_trans [OF fs queue_c_frame [OF ev own]])
  have c2: "conn s2 = (conn s)\<lparr>stateC := kDisconnecting\<rparr>" by (simp add: s2_def setState_def s1(4))
  have b2: "conn_base K s2" using bs by (simp add: s2_def queue_c_view(4) [OF ev])
  have w2: "\<not> writing s2" using w1 by (simp add: s2_def)
  have inv2: "conn_inv K s2" using b2 w2 c2 e by (simp add: conn_inv_def)
  let ?fd = "socketFd (conn s)"
  obtain k' where k: "sock_write K (kst (ioLoop s2)) (socketFd (conn s2)) msg = (k', WriteErr EWOULDBLOCK)"
    using full [of "kst (ioLoop s2)"] c2 by (cases "sock_write K (kst (ioLoop s2)) ?fd msg") simp
  define s2' where "s2' = s2\<lparr>ioLoop := (ioLoop s2)\<lparr>kst := k'\<rparr>\<rparr>"
  have m: "moved K s2 s2' [] False []"
    using moved_write [OF kernel_docD(4) [OF doc] b2 k, folded s2'_def] by simp
  have "\<not> writing s2'" using w2 by (simp add: s2'_def)
  from sendRest_registers [OF doc movedD(1) [OF m] this ne, of t'] fits obtain s3 where
    s3: "sendRest K t' msg False s2' = Inr s3" "conn_frame K s2' s3" "channelsM (ioLoop s3) ?fd = Some (channelP (conn s))"
    by (auto simp: s2'_def c2)
  have send: "sendInLoop K t' msg s2 = Inr s3"
    using sendInLoop_first(2) [OF inv2 _ _ k s2'_def, of t'] e s3(1)
    by (simp add: c2 EPIPE_def EWOULDBLOCK_def ECONNRESET_def)
  have f3: "conn_frame K s1 s3" by (rule conn_frame_trans [OF f2 conn_frame_trans [OF movedD(2) [OF m] s3(2)]])
  then obtain fs where "pendingFunctors (ioLoop s3) = pendingFunctors (ioLoop s1) @ fs"
      "\<forall>f \<in> set fs. own_functor (objId (conn s1)) f"
    unfolding conn_frame_def loop_frame_def by blast
  moreover have "sendInLoop K t' msg s1 = Inr s1" using st s1(4) by (simp add: sendInLoop_def)
  ultimately show ?thesis using s1 act send f3 s3(3) by auto
qed

text \<open>The functors a connection queues for itself.\<close>

lemma run_own_safe:
  assumes doc: "kernel_doc K" and inv: "conn_inv K s" and st: "stateC (conn s) \<noteq> kConnecting"
    and own: "own_functor (objId (conn s)) f" and U: "user_small U"
  shows "safe K (run_functor K t U f) s"
proof (cases f)
  case (SendBufInLoop c b)
  then have wf: "buffer_wf b" using own by simp
  have "peek (readableBytes b) b = Inr (content b)"
    using peek_content [OF wf, of "length (content b)"] wf by simp
  then show ?thesis using sendInLoop_safe [OF doc inv st content_small [OF wf], of t] SendBufInLoop
    by (simp add: safe_def run_functor_def)
next
  case (WriteCompleteF c)
  have "safe K (user K t (onWriteComplete U)) s"
    by (rule user_safe [OF doc inv]) (use U in \<open>simp add: user_small_def\<close>)
  then show ?thesis using WriteCompleteF by (simp add: safe_def run_functor_def)
next
  case (HighWaterMarkF c n)
  have "safe K (user K t (\<lambda>c. onHighWaterMark U c n)) s"
    by (rule user_safe [OF doc inv]) (use U in \<open>simp add: user_small_def\<close>)
  then show ?thesis using HighWaterMarkF by (simp add: safe_def run_functor_def)
qed (use own sendInLoop_safe [OF doc inv st, of _ t] shutdownInLoop_safe [OF doc inv]
    sendFileInLoop_safe [OF doc inv st, of t] in \<open>simp_all add: safe_def run_functor_def\<close>)

section \<open>Properties\<close>

text \<open>
  C13: the type of a connection. Whatever sequence of calls of its public interface a connection's
  users make, from its own loop's thread or another, the result is a well-formed connection: its
  buffers keep their layout, its channel, table and kernel registrations agree, and it waits for
  \<^verbatim>\<open>EPOLLOUT\<close> exactly while bytes are buffered. It stays the same object on the same loop with the
  same descriptor and name, a closed one stays closed, and the only error is \<^verbatim>\<open>length_error\<close>.
\<close>

theorem connection_interface_typed:
  assumes "kernel_doc K" and "conn_inv K s" and "list_all op_small ops"
  shows "case run_each (do_user_op K t) ops s of
      Inl e \<Rightarrow> e = LengthError
    | Inr s' \<Rightarrow> conn_inv K s' \<and> objId (conn s') = objId (conn s) \<and> loopId (conn s') = loopId (conn s) \<and>
        connName (conn s') = connName (conn s) \<and> socketFd (conn s') = socketFd (conn s) \<and>
        (stateC (conn s') = kDisconnected \<longleftrightarrow> stateC (conn s) = kDisconnected)"
proof -
  have s: "safe K (run_each (do_user_op K t) ops) s" by (rule run_ops_safe [OF assms])
  show ?thesis
  proof (cases "run_each (do_user_op K t) ops s")
    case (Inl e)
    then show ?thesis using s by (simp add: safe_def)
  next
    case (Inr s')
    then have "good K s s'" using s by (simp add: safe_def)
    then show ?thesis using Inr conn_frameD(1-4) [of K s s'] by (simp add: good_def)
  qed
qed

theorem connection_interface_typed_witness:
  "case run_each (do_user_op skern 7) [USend ''abc'', USetTcpNoDelay True, URetrieve 3, UShutdown, USend ''x''] sample_tcp of
     Inl e \<Rightarrow> e = LengthError | Inr s' \<Rightarrow> conn_inv skern s' \<and> socketFd (conn s') = 7"
proof -
  let ?ops = "[USend ''abc'', USetTcpNoDelay True, URetrieve 3, UShutdown, USend ''x'']"
  have ok: "list_all op_small ?ops" by (simp add: vec_max_size_less)
  have "socketFd (conn sample_tcp) = 7" by (simp add: sample_tcp_def sample_conn_def)
  then show ?thesis using connection_interface_typed [OF skern_doc sample_tcp_inv(1) ok, of 7]
    by (cases "run_each (do_user_op skern 7) ?ops sample_tcp") simp_all
qed

text \<open>
  C14: \<^verbatim>\<open>send(Buffer*)\<close>, which hands over the buffer's memory instead of copying it, sends what
  \<^verbatim>\<open>send\<close> of the buffer's content sends. In the loop's thread the two calls do the same and the buffer
  is emptied. In another thread the functor that is queued does, whenever the loop calls it and
  whatever has happened to the caller's buffer since, what the functor of the plain \<^verbatim>\<open>send\<close> does; the
  caller is left with a new empty buffer. On a connection that is not open neither does anything.
\<close>

theorem sendBuf_equals_send:
  fixes K :: "'k kernel" and s :: "('k, 'z) tcp_scheme"
  assumes "buffer_wf b"
  shows "sendBuf K t b s = (if stateC (conn s) = kConnected
      then (if isInLoopThread t (ioLoop s)
            then bind_r (send K t (content b) s) (\<lambda>s'. Inr (s', retrieveAll b))
            else bind_r (mk_buffer kInitialSize) (\<lambda>b0.
              Inr (queue_c K t (SendBufInLoop (objId (conn s)) b) s, b0)))
      else Inr (s, b)) \<and>
    send K t (content b) s = (if stateC (conn s) = kConnected
      then (if isInLoopThread t (ioLoop s) then sendInLoop K t (content b) s
            else Inr (queue_c K t (SendInLoop (objId (conn s)) (content b)) s)) else Inr s) \<and>
    run_functor K t' U (SendBufInLoop (objId (conn s)) b) s' = run_functor K t' U (SendInLoop (objId (conn s)) (content b)) s' \<and>
    (\<exists>b0. mk_buffer kInitialSize = Inr b0 \<and> buffer_wf b0 \<and> content b0 = [])"
proof -
  have pk: "peek (readableBytes b) b = Inr (content b)"
    using peek_content [OF assms, of "length (content b)"] assms by simp
  have b0: "\<exists>b0. mk_buffer kInitialSize = Inr b0 \<and> buffer_wf b0 \<and> content b0 = []"
    using mk_buffer_ok [of kInitialSize] by (auto simp: kInitialSize_def kCheapPrepend_def vec_max_size_less)
  have "sendBuf K t b s = (if stateC (conn s) = kConnected
      then (if isInLoopThread t (ioLoop s)
            then bind_r (send K t (content b) s) (\<lambda>s'. Inr (s', retrieveAll b))
            else bind_r (mk_buffer kInitialSize) (\<lambda>b0.
              Inr (queue_c K t (SendBufInLoop (objId (conn s)) b) s, b0)))
      else Inr (s, b))"
    using pk by (simp add: sendBuf_def send_def swap_b_def runInLoop_c_def)
  moreover have "send K t (content b) s = (if stateC (conn s) = kConnected
      then (if isInLoopThread t (ioLoop s) then sendInLoop K t (content b) s
            else Inr (queue_c K t (SendInLoop (objId (conn s)) (content b)) s)) else Inr s)"
    by (simp add: send_def runInLoop_c_def)
  moreover have "run_functor K t' U (SendBufInLoop (objId (conn s)) b) s' =
      run_functor K t' U (SendInLoop (objId (conn s)) (content b)) s'"
    using pk by (simp add: run_functor_def)
  ultimately show ?thesis using b0 by blast
qed

theorem sendBuf_equals_send_witness:
  "content sample_buffer = ''cdef'' \<and> sendBuf skern 100 sample_buffer sample_tcp =
     bind_r (send skern 100 ''cdef'' sample_tcp) (\<lambda>s'. Inr (s', retrieveAll sample_buffer))"
proof -
  have "content sample_buffer = ''cdef''" by code_simp
  then show ?thesis
    using sendBuf_equals_send [OF sample_buffer_wf, of skern 100 sample_tcp 100 echo_callbacks sample_tcp] sample_tcp_inv(3,4)
    by simp
qed

end
