(* ===== verification/ServerSystem.thy ===== *)
theory ServerSystem
  imports TcpServer ConnectionSafety
begin

text \<open>
  The running server as a transition system: every loop polls, handles its active channels and runs
  its functors in its own thread, other threads call the thread-safe operations of connections, and a
  connection object dies when nothing refers to it any more. A step is one call of a handler or of a
  functor, a poll, or a call from another thread or a part of one; the steps of different threads
  interleave. The invariant says
  how connections, channels, pollers and pending functors fit together in every reachable state.
\<close>

section \<open>Steps\<close>

datatype sys_event =
    PollE nat
  | HandleE nat "accept_out \<times> inet_address option"
  | SwapE nat
  | RunE nat
  | EndE nat
  | UserE int nat user_op
  | ShutE int nat
  | QueueE int nat functor_t
  | ReleaseE nat

definition lids :: "'k world \<Rightarrow> nat set" where
  "lids w = insert (srv_base (serverW w)) (set (loops (srv_pool (serverW w))))"

text \<open>All functors a loop holds: pending, or swapped out and not called yet.\<close>

definition funs :: "'k world \<Rightarrow> nat \<Rightarrow> functor_t list" where
  "funs w l = runningW w l @ pendingFunctors (loopsW w l)"

definition idle :: "'k world \<Rightarrow> nat \<Rightarrow> bool" where
  "idle w l \<longleftrightarrow> activeW w l = [] \<and> runningW w l = []"

text \<open>Calls a thread may make on a connection it has a pointer to.\<close>

fun thread_safe_op :: "user_op \<Rightarrow> bool" where
  "thread_safe_op (USend m) \<longleftrightarrow> length m \<le> vec_max_size"
| "thread_safe_op (USendFile f off n) \<longleftrightarrow> True"
| "thread_safe_op UShutdown \<longleftrightarrow> True"
| "thread_safe_op _ \<longleftrightarrow> False"

text \<open>
  A call from another thread tests the state of the connection, and queues its functor later; in
  between the threads of the loops may take steps. The functors such a call queues:
\<close>

fun call_functor :: "nat \<Rightarrow> functor_t \<Rightarrow> bool" where
  "call_functor obj (SendInLoop c m) \<longleftrightarrow> c = obj \<and> length m \<le> vec_max_size"
| "call_functor obj (SendBufInLoop c b) \<longleftrightarrow> c = obj \<and> buffer_wf b"
| "call_functor obj (ShutdownInLoop c) \<longleftrightarrow> c = obj"
| "call_functor obj (SendFileInLoop c f off n) \<longleftrightarrow> c = obj"
| "call_functor obj _ \<longleftrightarrow> False"

text \<open>The kernel returns descriptors that are not open: no channel that exists has it.\<close>

definition fresh_fd :: "'k world \<Rightarrow> int \<Rightarrow> bool" where
  "fresh_fd w fd \<longleftrightarrow> (\<forall>l \<in> lids w. \<forall>p ch. chans (loopsW w l) p = Some ch \<longrightarrow> ch_fd ch \<noteq> fd)"

definition accept_ok :: "'k world \<Rightarrow> accept_out \<times> inet_address option \<Rightarrow> bool" where
  "accept_ok w acc \<longleftrightarrow> (case fst acc of AcceptErr e \<Rightarrow> True | AcceptOk fd a \<Rightarrow> fresh_fd w fd)"

text \<open>
  No shared pointer to the object is left: it is neither in the server's map nor captured by a
  functor.
\<close>

definition unreferenced :: "'k world \<Rightarrow> nat \<Rightarrow> bool" where
  "unreferenced w c \<longleftrightarrow> (\<forall>nm. connections (serverW w) nm \<noteq> Some c) \<and>
     (\<forall>l \<in> lids w. \<forall>f \<in> set (funs w l). functor_conn f \<noteq> Some c)"

definition poll_w :: "'k kernel \<Rightarrow> nat \<Rightarrow> 'k world \<Rightarrow> 'k world result" where
  "poll_w K l w = bind_r (poll K kPollTimeMs ((loopsW w l)\<lparr>activeChannels := []\<rparr>)) (\<lambda>(L, ps, now).
     Inr (w\<lparr>loopsW := (loopsW w)(l := L\<lparr>activeChannels := ps, pollReturnTime := now\<rparr>),
            activeW := (activeW w)(l := ps)\<rparr>))"

definition swap_w :: "nat \<Rightarrow> 'k world \<Rightarrow> 'k world" where
  "swap_w l w = (case swap_functors (loopsW w l) of (fs, L) \<Rightarrow>
     w\<lparr>loopsW := (loopsW w)(l := L), runningW := (runningW w)(l := fs)\<rparr>)"

definition end_w :: "nat \<Rightarrow> 'k world \<Rightarrow> 'k world" where
  "end_w l w = w\<lparr>loopsW := (loopsW w)(l := (loopsW w l)\<lparr>callingPendingFunctors := False\<rparr>)\<rparr>"

text \<open>The destructor of a connection: its channel goes with it and its descriptor is closed.\<close>

definition release_w :: "nat \<Rightarrow> tcpconn \<Rightarrow> 'k world \<Rightarrow> 'k world" where
  "release_w c cn w = (let l = loopId cn; L = loopsW w l in
     w\<lparr>connsW := (connsW w)(c := None),
       loopsW := (loopsW w)(l := L\<lparr>chans := (chans L)(channelP cn := None)\<rparr>)\<rparr>)"

text \<open>
  None: the event cannot happen in the state. \<open>UserE\<close> is a call from any thread that is not interrupted;
  \<open>ShutE\<close> and \<open>QueueE\<close> are the parts of one that is. A call tests the state first; the tests do not
  change anything, so they are no steps: \<open>ShutE\<close> is the assignment of \<^verbatim>\<open>shutdown\<close>, whatever the state is by
  then, and \<open>QueueE\<close> queues the functor of a call. Both come only after the call has seen a state
  other than \<^verbatim>\<open>kConnecting\<close>, which never comes back.
\<close>

definition sys_step :: "'k kernel \<Rightarrow> user_callbacks \<Rightarrow> sys_event \<Rightarrow> 'k world \<Rightarrow> 'k world result option" where
  "sys_step K U ev w = (case ev of
      PollE l \<Rightarrow>
        if l \<in> lids w \<and> idle w l \<and> \<not> callingPendingFunctors (loopsW w l) then Some (poll_w K l w) else None
    | HandleE l acc \<Rightarrow>
        if l \<in> lids w \<and> accept_ok w acc then
          (case activeW w l of [] \<Rightarrow> None
           | p # ps \<Rightarrow> Some (handle_channel_w K (threadId (loopsW w l)) U acc l p
               (w\<lparr>activeW := (activeW w)(l := ps)\<rparr>))) else None
    | SwapE l \<Rightarrow>
        if l \<in> lids w \<and> idle w l \<and> \<not> callingPendingFunctors (loopsW w l) then Some (Inr (swap_w l w)) else None
    | RunE l \<Rightarrow>
        if l \<in> lids w then
          (case runningW w l of [] \<Rightarrow> None
           | f # fs \<Rightarrow> Some (run_functor_w K (threadId (loopsW w l)) U f
               (w\<lparr>runningW := (runningW w)(l := fs)\<rparr>))) else None
    | EndE l \<Rightarrow>
        if l \<in> lids w \<and> idle w l \<and> callingPendingFunctors (loopsW w l) then Some (Inr (end_w l w)) else None
    | UserE t c oper \<Rightarrow>
        if connsW w c \<noteq> None \<and> thread_safe_op oper then Some (on_conn c (do_user_op K t oper) w) else None
    | ShutE t c \<Rightarrow>
        (case connsW w c of None \<Rightarrow> None
         | Some cn \<Rightarrow> if \<not> isInLoopThread t (loopsW w (loopId cn)) \<and> stateC cn \<noteq> kConnecting
             then Some (on_conn c (\<lambda>s. Inr (setState kDisconnecting s)) w) else None)
    | QueueE t c f \<Rightarrow>
        (case connsW w c of None \<Rightarrow> None
         | Some cn \<Rightarrow> if \<not> isInLoopThread t (loopsW w (loopId cn)) \<and> stateC cn \<noteq> kConnecting \<and> call_functor c f
             then Some (on_conn c (\<lambda>s. Inr (queue_c K t f s)) w) else None)
    | ReleaseE c \<Rightarrow>
        (case connsW w c of None \<Rightarrow> None
         | Some cn \<Rightarrow> if unreferenced w c then Some (Inr (release_w c cn w)) else None))"

text \<open>
  The one event that breaks the server: the assignment of a \<^verbatim>\<open>shutdown\<close> whose test saw \<^verbatim>\<open>kConnected\<close>, after
  the connection has been closed in between. It turns a closed connection into one that is
  shutting down.
\<close>

fun torn :: "'k world \<Rightarrow> sys_event \<Rightarrow> bool" where
  "torn w (ShutE t c) \<longleftrightarrow> (case connsW w c of None \<Rightarrow> False | Some cn \<Rightarrow> stateC cn = kDisconnected)"
| "torn w _ \<longleftrightarrow> False"

section \<open>Invariant\<close>

definition at :: "tcpconn \<Rightarrow> 'k world \<Rightarrow> 'k tcp" where
  "at cn w = \<lparr>conn = cn, ioLoop = loopsW w (loopId cn)\<rparr>"

definition loop_ok :: "'k kernel \<Rightarrow> ('k, functor_t) eventloop \<Rightarrow> bool" where
  "loop_ok K L \<longleftrightarrow> reactor_wf K L \<and> chans L (wakeupChannel L) \<noteq> None \<and>
     (\<forall>p q a b. chans L p = Some a \<and> chans L q = Some b \<and> ch_fd a = ch_fd b \<longrightarrow> p = q)"

text \<open>The channels that are not channels of connections.\<close>

definition special :: "'k world \<Rightarrow> nat \<Rightarrow> chan_ptr \<Rightarrow> bool" where
  "special w l p \<longleftrightarrow> p = wakeupChannel (loopsW w l) \<or>
     l = srv_base (serverW w) \<and> p = acceptChannel (srv_acceptor (serverW w))"

definition loops_ok :: "'k kernel \<Rightarrow> 'k world \<Rightarrow> bool" where
  "loops_ok K w \<longleftrightarrow> pool_wf (srv_pool (serverW w)) \<and> baseLoop (srv_pool (serverW w)) = srv_base (serverW w) \<and>
     inj_on (\<lambda>l. threadId (loopsW w l)) (lids w) \<and>
     (let b = srv_base (serverW w); a = acceptChannel (srv_acceptor (serverW w)) in
        chans (loopsW w b) a \<noteq> None \<and> wakeupChannel (loopsW w b) \<noteq> a) \<and>
     (\<forall>l \<in> lids w. loop_ok K (loopsW w l) \<and>
        (\<forall>p. chans (loopsW w l) p \<noteq> None \<longrightarrow> p < nextObj (serverW w) \<and>
           (special w l p \<or> (\<exists>cn. connsW w p = Some cn \<and> loopId cn = l))))"

definition conns_ok :: "'k kernel \<Rightarrow> 'k world \<Rightarrow> bool" where
  "conns_ok K w \<longleftrightarrow> (\<forall>c cn. connsW w c = Some cn \<longrightarrow> objId cn = c \<and> channelP cn = c \<and>
     c < nextObj (serverW w) \<and> loopId cn \<in> lids w \<and> \<not> special w (loopId cn) c \<and> conn_inv K (at cn w))"

definition listed :: "'k world \<Rightarrow> tcpconn \<Rightarrow> bool" where
  "listed w cn \<longleftrightarrow> connections (serverW w) (connName cn) = Some (objId cn)"

definition names_ok :: "'k world \<Rightarrow> bool" where
  "names_ok w \<longleftrightarrow> (\<forall>nm c. connections (serverW w) nm = Some c \<longrightarrow>
       (\<exists>cn. connsW w c = Some cn \<and> connName cn = nm)) \<and>
     (\<forall>c cn. connsW w c = Some cn \<longrightarrow> (\<exists>i < nextConnId (serverW w). connName cn = conn_name (serverW w) i)) \<and>
     (\<forall>c d cn dn. connsW w c = Some cn \<and> connsW w d = Some dn \<and> connName cn = connName dn \<longrightarrow> c = d)"

definition functor_ok :: "'k world \<Rightarrow> nat \<Rightarrow> functor_t \<Rightarrow> bool" where
  "functor_ok w l f \<longleftrightarrow> (case functor_conn f of None \<Rightarrow> f = AcceptorListenF \<longrightarrow> l = srv_base (serverW w)
     | Some c \<Rightarrow> (case connsW w c of None \<Rightarrow> False
        | Some cn \<Rightarrow>
            if f = RemoveConnectionInLoopF c then l = srv_base (serverW w) \<and> stateC cn = kDisconnected
            else l = loopId cn \<and>
              (if f = ConnectEstablishedF c then stateC cn = kConnecting
               else if f = ConnectDestroyedF c then stateC cn = kDisconnected
               else stateC cn \<noteq> kConnecting \<and> own_functor c f)))"

definition functors_ok :: "'k world \<Rightarrow> bool" where
  "functors_ok w \<longleftrightarrow> (\<forall>l \<in> lids w. (\<forall>f \<in> set (funs w l). functor_ok w l f) \<and>
     (\<forall>c. count_list (funs w l) (ConnectEstablishedF c) \<le> 1))"

text \<open>
  What is still to come in a connection's life, by its state. \<open>X\<close> is the set of functors that count
  as pending although they are not, while one of them is being called.
\<close>

definition owed :: "functor_t set \<Rightarrow> 'k world \<Rightarrow> nat \<Rightarrow> functor_t \<Rightarrow> bool" where
  "owed X w l f \<longleftrightarrow> f \<in> X \<or> f \<in> set (funs w l)"

definition life :: "functor_t set \<Rightarrow> 'k world \<Rightarrow> tcpconn \<Rightarrow> bool" where
  "life X w cn \<longleftrightarrow> (let c = objId cn; l = loopId cn in case stateC cn of
      kConnecting \<Rightarrow> listed w cn \<and> \<not> reg (at cn w) \<and> owed X w l (ConnectEstablishedF c)
    | kDisconnected \<Rightarrow> owed X w (srv_base (serverW w)) (RemoveConnectionInLoopF c) \<or>
        \<not> listed w cn \<and> (owed X w l (ConnectDestroyedF c) \<or> \<not> reg (at cn w) \<and> c \<notin> set (activeW w l))
    | _ \<Rightarrow> listed w cn)"

definition lives_ok :: "functor_t set \<Rightarrow> 'k world \<Rightarrow> bool" where
  "lives_ok X w \<longleftrightarrow> (\<forall>c cn. connsW w c = Some cn \<longrightarrow> life X w cn)"

definition active_ok :: "'k world \<Rightarrow> bool" where
  "active_ok w \<longleftrightarrow> (\<forall>l \<in> lids w. (activeW w l \<noteq> [] \<longrightarrow> runningW w l = []) \<and>
     (\<forall>p \<in> set (activeW w l). special w l p \<or>
        (\<exists>cn. connsW w p = Some cn \<and> loopId cn = l \<and> stateC cn \<noteq> kConnecting)))"

definition sys_inv :: "'k kernel \<Rightarrow> functor_t set \<Rightarrow> 'k world \<Rightarrow> bool" where
  "sys_inv K X w \<longleftrightarrow> loops_ok K w \<and> conns_ok K w \<and> names_ok w \<and> functors_ok w \<and> lives_ok X w \<and> active_ok w"

section \<open>Invariant of a loop and of a connection\<close>

lemma tcp_scheme_view:
  fixes s :: "('k, 'z) tcp_scheme"
  shows "conn_inv K s = conn_inv K \<lparr>conn = conn s, ioLoop = ioLoop s\<rparr>"
    and "reg s = reg \<lparr>conn = conn s, ioLoop = ioLoop s\<rparr>"
  by (simp_all add: conn_inv_def conn_base_def writing_def c_chan_def reg_def)

lemma loop_okD:
  assumes "loop_ok K L"
  shows "reactor_wf K L" and "chans L (wakeupChannel L) \<noteq> None"
    and "chans L p = Some a \<Longrightarrow> chans L q = Some b \<Longrightarrow> ch_fd a = ch_fd b \<Longrightarrow> p = q"
  using assms unfolding loop_ok_def by blast+

lemma loop_ok_free:
  assumes "loop_ok K L" and "chans L p = Some ch"
  shows "fd_free L p"
proof (cases "channelsM L (ch_fd ch)")
  case (Some q)
  with reactor_wfD(2) [OF loop_okD(1) [OF assms(1)] Some] loop_okD(3) [OF assms(1) assms(2), of q]
  show ?thesis using assms(2) by (auto simp: fd_free_def)
qed (use assms(2) in \<open>simp add: fd_free_def\<close>)

text \<open>A connection whose channel keeps its descriptor and its events.\<close>

lemma conn_inv_other:
  assumes "conn_inv K \<lparr>conn = cn, ioLoop = L\<rparr>" and "loop_ok K L'"
    and "chans L (channelP cn) = Some ch" and "chans L' (channelP cn) = Some ch'"
    and "ch_fd ch' = ch_fd ch" and "ch_events ch' = ch_events ch"
  shows "conn_inv K \<lparr>conn = cn, ioLoop = L'\<rparr>"
  using assms loop_okD(1) [OF assms(2)] loop_ok_free [OF assms(2,4)]
  by (simp add: conn_inv_def conn_base_def c_chan_def writing_def isWriting_def cong: if_cong)

lemma sys_invD:
  assumes "sys_inv K X w"
  shows "loops_ok K w" and "conns_ok K w" and "names_ok w" and "functors_ok w" and "lives_ok X w" and "active_ok w"
  using assms by (simp_all add: sys_inv_def)

lemma loops_okD:
  assumes "loops_ok K w"
  shows "pool_wf (srv_pool (serverW w))" and "baseLoop (srv_pool (serverW w)) = srv_base (serverW w)"
    and "l \<in> lids w \<Longrightarrow> loop_ok K (loopsW w l)"
    and "l \<in> lids w \<Longrightarrow> chans (loopsW w l) p \<noteq> None \<Longrightarrow> p < nextObj (serverW w)"
    and "l \<in> lids w \<Longrightarrow> chans (loopsW w l) p \<noteq> None \<Longrightarrow>
      special w l p \<or> (\<exists>cn. connsW w p = Some cn \<and> loopId cn = l)"
    and "chans (loopsW w (srv_base (serverW w))) (acceptChannel (srv_acceptor (serverW w))) \<noteq> None"
  using assms unfolding loops_ok_def Let_def by blast+

lemma conns_okD:
  assumes "conns_ok K w" and "connsW w c = Some cn"
  shows "objId cn = c" and "channelP cn = c" and "c < nextObj (serverW w)" and "loopId cn \<in> lids w"
    and "\<not> special w (loopId cn) c" and "conn_inv K (at cn w)"
  using assms unfolding conns_ok_def by blast+

lemma conns_ok_chan:
  assumes "conns_ok K w" and "connsW w c = Some cn"
  obtains ch where "chans (loopsW w (loopId cn)) c = Some ch" and "ch_fd ch = socketFd cn"
  using conns_okD [OF assms] by (auto simp: at_def conn_inv_def conn_base_def c_chan_def)

text \<open>A change that leaves a connection's channel as it was.\<close>

lemma conn_kept:
  assumes "conns_ok K w" and "connsW w c = Some cn" and "loop_ok K (loopsW w' (loopId cn))"
    and "chans (loopsW w' (loopId cn)) c = chans (loopsW w (loopId cn)) c"
  shows "conn_inv K (at cn w')" and "reg (at cn w') = reg (at cn w)"
proof -
  note d = conns_okD [OF assms(1,2)]
  obtain y where y: "chans (loopsW w (loopId cn)) c = Some y" using conns_ok_chan [OF assms(1,2)] .
  with assms(4) have y': "chans (loopsW w' (loopId cn)) c = Some y" by simp
  show "conn_inv K (at cn w')"
    using d(6) conn_inv_other [OF _ assms(3), of cn "loopsW w (loopId cn)" y y] y y' d(2) by (simp add: at_def)
  show "reg (at cn w') = reg (at cn w)" using y y' d(2) by (simp add: reg_def at_def c_chan_def)
qed

lemma lives_okD:
  assumes "lives_ok X w" and "connsW w c = Some cn"
  shows "stateC cn = kConnecting \<Longrightarrow> \<not> reg (at cn w) \<and> owed X w (loopId cn) (ConnectEstablishedF (objId cn))"
    and "stateC cn \<noteq> kDisconnected \<Longrightarrow> listed w cn"
    and "stateC cn = kDisconnected \<Longrightarrow> owed X w (srv_base (serverW w)) (RemoveConnectionInLoopF (objId cn)) \<or>
        \<not> listed w cn \<and> (owed X w (loopId cn) (ConnectDestroyedF (objId cn)) \<or>
          \<not> reg (at cn w) \<and> objId cn \<notin> set (activeW w (loopId cn)))"
  using assms unfolding lives_ok_def life_def Let_def by (cases "stateC cn"; force)+

text \<open>
  The part of the invariant that does not speak about functors: it also holds while the server is
  being destroyed.
\<close>

definition struct_ok :: "'k kernel \<Rightarrow> 'k world \<Rightarrow> bool" where
  "struct_ok K w \<longleftrightarrow> loops_ok K w \<and> conns_ok K w \<and> names_ok w"

lemma struct_okD:
  assumes "struct_ok K w"
  shows "loops_ok K w" and "conns_ok K w" and "names_ok w"
  using assms by (simp_all add: struct_ok_def)

lemma sys_inv_struct: "sys_inv K X w \<Longrightarrow> struct_ok K w"
  by (simp add: sys_inv_def struct_ok_def)

text \<open>A change of one loop that keeps the channels of connections, but for the events that happened.\<close>

definition loop_moved :: "'k kernel \<Rightarrow> nat \<Rightarrow> 'k world \<Rightarrow> 'k world \<Rightarrow> bool" where
  "loop_moved K l w w' \<longleftrightarrow> connsW w' = connsW w \<and> serverW w' = serverW w \<and>
     (\<forall>m. m \<noteq> l \<longrightarrow> loopsW w' m = loopsW w m \<and> runningW w' m = runningW w m \<and> activeW w' m = activeW w m) \<and>
     loop_ok K (loopsW w' l) \<and> threadId (loopsW w' l) = threadId (loopsW w l) \<and>
     wakeupChannel (loopsW w' l) = wakeupChannel (loopsW w l) \<and>
     (\<forall>p. chans (loopsW w' l) p = None \<longleftrightarrow> chans (loopsW w l) p = None) \<and>
     (\<forall>p a b. \<not> special w l p \<and> chans (loopsW w l) p = Some a \<and> chans (loopsW w' l) p = Some b \<longrightarrow>
        ch_fd b = ch_fd a \<and> ch_index b = ch_index a \<and> ch_events b = ch_events a)"

lemma loop_movedI:
  assumes "connsW w' = connsW w" and "serverW w' = serverW w"
    and "\<And>m. m \<noteq> l \<Longrightarrow> loopsW w' m = loopsW w m \<and> runningW w' m = runningW w m \<and> activeW w' m = activeW w m"
    and "loop_ok K (loopsW w' l)" and "threadId (loopsW w' l) = threadId (loopsW w l)"
    and "wakeupChannel (loopsW w' l) = wakeupChannel (loopsW w l)"
    and "\<And>p. chans (loopsW w' l) p = None \<longleftrightarrow> chans (loopsW w l) p = None"
    and "\<And>p a b. \<not> special w l p \<Longrightarrow> chans (loopsW w l) p = Some a \<Longrightarrow> chans (loopsW w' l) p = Some b \<Longrightarrow>
      ch_fd b = ch_fd a \<and> ch_index b = ch_index a \<and> ch_events b = ch_events a"
  shows "loop_moved K l w w'"
  unfolding loop_moved_def using assms by blast

lemma loop_movedD:
  assumes "loop_moved K l w w'"
  shows "connsW w' = connsW w" and "serverW w' = serverW w"
    and "m \<noteq> l \<Longrightarrow> loopsW w' m = loopsW w m" and "m \<noteq> l \<Longrightarrow> runningW w' m = runningW w m"
    and "m \<noteq> l \<Longrightarrow> activeW w' m = activeW w m" and "loop_ok K (loopsW w' l)"
    and "\<not> special w l p \<Longrightarrow> chans (loopsW w l) p = Some a \<Longrightarrow>
      chans (loopsW w' l) p = Some b \<Longrightarrow> ch_fd b = ch_fd a \<and> ch_index b = ch_index a \<and> ch_events b = ch_events a"
  using assms unfolding loop_moved_def by blast+

lemma loop_moved_sel:
  assumes "loop_moved K l w w'"
  shows "lids w' = lids w" and "special w' m p = special w m p" and "threadId (loopsW w' m) = threadId (loopsW w m)"
    and "wakeupChannel (loopsW w' m) = wakeupChannel (loopsW w m)" and "listed w' cn = listed w cn"
    and "chans (loopsW w' m) p = None \<longleftrightarrow> chans (loopsW w m) p = None"
  using assms by (cases "m = l"; simp add: loop_moved_def special_def lids_def listed_def)+

lemma loop_moved_funs: "loop_moved K l w w' \<Longrightarrow> m \<noteq> l \<Longrightarrow> funs w' m = funs w m"
  by (simp add: funs_def loop_movedD)

lemma loop_moved_chan:
  assumes mv: "loop_moved K l w w'" and ok: "conns_ok K w" and c: "connsW w c = Some cn"
  obtains a b where "chans (loopsW w (loopId cn)) c = Some a" and "chans (loopsW w' (loopId cn)) c = Some b"
    and "ch_fd b = ch_fd a" and "ch_index b = ch_index a" and "ch_events b = ch_events a"
proof -
  obtain a where a: "chans (loopsW w (loopId cn)) c = Some a" using conns_ok_chan [OF ok c] .
  then have "chans (loopsW w' (loopId cn)) c \<noteq> None" unfolding loop_moved_sel(6) [OF mv] by simp
  then obtain b where b: "chans (loopsW w' (loopId cn)) c = Some b" by auto
  have "ch_fd b = ch_fd a \<and> ch_index b = ch_index a \<and> ch_events b = ch_events a"
  proof (cases "loopId cn = l")
    case True
    with loop_movedD(7) [OF mv, of c a b] a b conns_okD(5) [OF ok c] show ?thesis by simp
  next
    case False
    with loop_movedD(3) [OF mv] a b show ?thesis by simp
  qed
  with a b that show thesis by blast
qed

lemma loop_moved_reg:
  assumes "loop_moved K l w w'" and "conns_ok K w" and "connsW w c = Some cn"
  shows "reg (at cn w') = reg (at cn w)"
  by (rule loop_moved_chan [OF assms]) (simp add: reg_def at_def c_chan_def conns_okD(2) [OF assms(2,3)])

lemma loop_moved_struct:
  assumes mv: "loop_moved K l w w'" and st: "struct_ok K w"
  shows "struct_ok K w'"
proof -
  note D = struct_okD [OF st] and S = loop_moved_sel [OF mv] and same = loop_movedD(1,2) [OF mv]
  have lok: "loop_ok K (loopsW w' m)" if "m \<in> lids w" for m
    using loop_movedD(3,6) [OF mv] loops_okD(3) [OF D(1) that] by (cases "m = l") simp_all
  have "loops_ok K w'" using D(1) lok unfolding loops_ok_def Let_def by (simp add: same S)
  moreover have "conns_ok K w'"
    unfolding conns_ok_def
  proof (intro allI impI)
    fix c cn assume "connsW w' c = Some cn"
    then have c: "connsW w c = Some cn" by (simp add: same)
    note d = conns_okD [OF D(2) c]
    obtain a b where "chans (loopsW w (loopId cn)) c = Some a" "chans (loopsW w' (loopId cn)) c = Some b"
      "ch_fd b = ch_fd a" "ch_events b = ch_events a" using loop_moved_chan [OF mv D(2) c] .
    with d(2,6) lok [OF d(4)] have "conn_inv K (at cn w')" unfolding at_def by (auto intro: conn_inv_other)
    then show "objId cn = c \<and> channelP cn = c \<and> c < nextObj (serverW w') \<and> loopId cn \<in> lids w' \<and>
        \<not> special w' (loopId cn) c \<and> conn_inv K (at cn w')" using d by (simp add: same S)
  qed
  moreover have "names_ok w'" using D(3) by (simp add: names_ok_def same)
  ultimately show ?thesis by (simp add: struct_ok_def)
qed

lemma loop_moved_functors:
  assumes mv: "loop_moved K l w w'" and ok: "functors_ok w"
    and fs: "\<And>f. f \<in> set (funs w' l) \<Longrightarrow> functor_ok w l f"
      "\<And>c. count_list (funs w' l) (ConnectEstablishedF c) \<le> 1"
  shows "functors_ok w'"
  unfolding functors_ok_def loop_moved_sel(1) [OF mv]
proof (intro ballI conjI allI)
  fix m assume m: "m \<in> lids w"
  show "count_list (funs w' m) (ConnectEstablishedF c) \<le> 1" for c
    using fs(2) loop_moved_funs [OF mv] ok m by (cases "m = l") (simp_all add: functors_ok_def)
  fix f assume "f \<in> set (funs w' m)"
  then have "functor_ok w m f"
    using fs(1) loop_moved_funs [OF mv] ok m by (cases "m = l") (simp_all add: functors_ok_def)
  then show "functor_ok w' m f" unfolding functor_ok_def loop_movedD(1,2) [OF mv] .
qed

text \<open>What connections are still owed must not get lost.\<close>

definition life_functor :: "'k world \<Rightarrow> nat \<Rightarrow> functor_t \<Rightarrow> bool" where
  "life_functor w m f \<longleftrightarrow> (\<exists>c cn. connsW w c = Some cn \<and> (f = RemoveConnectionInLoopF c \<and> m = srv_base (serverW w) \<or>
     f = ConnectDestroyedF c \<and> m = loopId cn \<or> f = ConnectEstablishedF c \<and> m = loopId cn))"

lemma loop_moved_lives:
  assumes mv: "loop_moved K l w w'" and inv: "sys_inv K X w"
    and ow: "\<And>f m. owed X w m f \<Longrightarrow> life_functor w m f \<Longrightarrow> owed X' w' m f"
    and act: "\<And>p. p \<in> set (activeW w' l) \<Longrightarrow> p \<in> set (activeW w l) \<or> special w l p \<or>
         (\<exists>cn. connsW w p = Some cn \<and> loopId cn = l \<and> reg (at cn w))"
  shows "lives_ok X' w'"
  unfolding lives_ok_def
proof (intro allI impI)
  note D = sys_invD [OF inv]
  fix c cn assume "connsW w' c = Some cn"
  then have c: "connsW w c = Some cn" by (simp add: loop_movedD(1) [OF mv])
  have o: "objId cn = c" using conns_okD(1) [OF D(2) c] .
  have "life X w cn" using D(5) c by (simp add: lives_ok_def)
  moreover have "c \<notin> set (activeW w' (loopId cn))" if "\<not> reg (at cn w)" "c \<notin> set (activeW w (loopId cn))"
    using that loop_movedD(5) [OF mv] act [of c] c conns_okD(5) [OF D(2) c] by (cases "loopId cn = l") auto
  moreover have "owed X w m f \<Longrightarrow> owed X' w' m f" if "f = RemoveConnectionInLoopF c \<and> m = srv_base (serverW w) \<or>
      f = ConnectDestroyedF c \<and> m = loopId cn \<or> f = ConnectEstablishedF c \<and> m = loopId cn" for m f
    by (rule ow) (use that c in \<open>auto simp: life_functor_def\<close>)
  ultimately show "life X' w' cn"
    by (auto simp: life_def Let_def loop_moved_sel(5) [OF mv] loop_movedD(2) [OF mv] loop_moved_reg [OF mv D(2) c] o
      split: state_e.splits)
qed

lemma loop_moved_active:
  assumes mv: "loop_moved K l w w'" and inv: "sys_inv K X w"
    and act: "activeW w' l \<noteq> [] \<Longrightarrow> runningW w' l = []"
      "\<And>p. p \<in> set (activeW w' l) \<Longrightarrow> p \<in> set (activeW w l) \<or> special w l p \<or>
         (\<exists>cn. connsW w p = Some cn \<and> loopId cn = l \<and> reg (at cn w))"
  shows "active_ok w'"
  unfolding active_ok_def loop_moved_sel(1,2) [OF mv] loop_movedD(1) [OF mv]
proof (intro ballI conjI impI)
  note D = sys_invD [OF inv]
  fix m assume m: "m \<in> lids w"
  show "runningW w' m = []" if "activeW w' m \<noteq> []"
    using that m loop_movedD(4,5) [OF mv] act(1) D(6) by (cases "m = l") (auto simp: active_ok_def)
  fix p assume p: "p \<in> set (activeW w' m)"
  have old: "special w m p \<or> (\<exists>cn. connsW w p = Some cn \<and> loopId cn = m \<and> stateC cn \<noteq> kConnecting)"
    if "p \<in> set (activeW w m)" using D(6) m that by (simp add: active_ok_def)
  have "stateC cn \<noteq> kConnecting" if "connsW w p = Some cn" "reg (at cn w)" for cn
    using lives_okD(1) [OF D(5) that(1)] that(2) by blast
  then show "special w m p \<or> (\<exists>cn. connsW w p = Some cn \<and> loopId cn = m \<and> stateC cn \<noteq> kConnecting)"
    using act(2) [of p] p old loop_movedD(5) [OF mv] by (cases "m = l") auto
qed

lemma sys_inv_moved:
  assumes mv: "loop_moved K l w w'" and inv: "sys_inv K X w"
    and fs: "\<And>f. f \<in> set (funs w' l) \<Longrightarrow> functor_ok w l f"
      "\<And>c. count_list (funs w' l) (ConnectEstablishedF c) \<le> 1"
    and ow: "\<And>f m. owed X w m f \<Longrightarrow> life_functor w m f \<Longrightarrow> owed X' w' m f"
    and act: "activeW w' l \<noteq> [] \<Longrightarrow> runningW w' l = []"
      "\<And>p. p \<in> set (activeW w' l) \<Longrightarrow> p \<in> set (activeW w l) \<or> special w l p \<or>
         (\<exists>cn. connsW w p = Some cn \<and> loopId cn = l \<and> reg (at cn w))"
  shows "sys_inv K X' w'"
proof -
  have "functors_ok w'" by (rule loop_moved_functors [OF mv sys_invD(4) [OF inv] fs])
  moreover have "lives_ok X' w'" by (rule loop_moved_lives [OF mv inv ow act(2)])
  moreover have "active_ok w'" by (rule loop_moved_active [OF mv inv act])
  ultimately show ?thesis
    using loop_moved_struct [OF mv sys_inv_struct [OF inv]] by (simp add: sys_inv_def struct_ok_def)
qed

lemma sys_inv_loop:
  assumes mv: "loop_moved K l w w'" and inv: "sys_inv K X w" and l: "l \<in> lids w"
    and fs: "set (funs w' l) = set (funs w l)" "\<And>f. count_list (funs w' l) f = count_list (funs w l) f"
    and act: "activeW w' l \<noteq> [] \<Longrightarrow> runningW w' l = []"
      "\<And>p. p \<in> set (activeW w' l) \<Longrightarrow> p \<in> set (activeW w l) \<or> special w l p \<or>
         (\<exists>cn. connsW w p = Some cn \<and> loopId cn = l \<and> reg (at cn w))"
  shows "sys_inv K X w'"
proof (rule sys_inv_moved [OF mv inv _ _ _ act])
  note D = sys_invD(4) [OF inv]
  show "functor_ok w l f" if "f \<in> set (funs w' l)" for f using D l fs that by (simp add: functors_ok_def)
  show "count_list (funs w' l) (ConnectEstablishedF c) \<le> 1" for c using D l fs by (simp add: functors_ok_def)
  show "owed X w' m f" if "owed X w m f" for m f
    using that fs(1) loop_moved_funs [OF mv] by (cases "m = l") (simp_all add: owed_def)
qed

lemma loop_ok_same:
  assumes "loop_ok K L" and "reactor_wf K L'" and "wakeupChannel L' = wakeupChannel L"
    and "\<And>p. chans L' p = None \<longleftrightarrow> chans L p = None"
    and "\<And>p a b. chans L p = Some a \<Longrightarrow> chans L' p = Some b \<Longrightarrow> ch_fd b = ch_fd a"
  shows "loop_ok K L'"
  unfolding loop_ok_def
proof (intro conjI allI impI)
  show "chans L' (wakeupChannel L') \<noteq> None" using loop_okD(2) [OF assms(1)] assms(3,4) by simp
  fix p q a b assume h: "chans L' p = Some a \<and> chans L' q = Some b \<and> ch_fd a = ch_fd b"
  then have "chans L p \<noteq> None" "chans L q \<noteq> None"
    using assms(4) [of p] assms(4) [of q] by auto
  then obtain a' b' where ab: "chans L p = Some a'" "chans L q = Some b'" by auto
  with assms(5) [OF ab(1), of a] assms(5) [OF ab(2), of b] h have "ch_fd a' = ch_fd b'" by simp
  then show "p = q" by (rule loop_okD(3) [OF assms(1) ab])
qed (rule assms(2))

lemma loop_ok_view:
  assumes "loop_ok K L" and "chans L' = chans L" and "channelsM L' = channelsM L"
    and "interest K (kst L') = interest K (kst L)" and "wakeupChannel L' = wakeupChannel L"
  shows "loop_ok K L'"
  by (rule loop_ok_same [OF assms(1) reactor_wf_view [OF loop_okD(1) [OF assms(1)] assms(2-4)] assms(5)])
    (simp_all add: assms(2))

text \<open>A change of a loop that its channels and its table do not notice.\<close>

lemma loop_moved_view:
  assumes inv: "sys_inv K X w" and l: "l \<in> lids w" and "connsW w' = connsW w" and "serverW w' = serverW w"
    and "\<And>m. m \<noteq> l \<Longrightarrow> loopsW w' m = loopsW w m \<and> runningW w' m = runningW w m \<and> activeW w' m = activeW w m"
    and v: "chans (loopsW w' l) = chans (loopsW w l)" "channelsM (loopsW w' l) = channelsM (loopsW w l)"
      "interest K (kst (loopsW w' l)) = interest K (kst (loopsW w l))" "wakeupChannel (loopsW w' l) = wakeupChannel (loopsW w l)"
    and "threadId (loopsW w' l) = threadId (loopsW w l)"
  shows "loop_moved K l w w'"
proof -
  have "loop_ok K (loopsW w' l)" by (rule loop_ok_view [OF loops_okD(3) [OF sys_invD(1) [OF inv] l] v])
  then show ?thesis using assms(3-5,9,10) by (intro loop_movedI) (simp_all add: v(1))
qed

text \<open>The poll of a loop: it finds only channels that exist and are registered.\<close>

lemma poll_w_loop:
  assumes doc: "wait_doc K" and ok: "loop_ok K (loopsW w l)"
  obtains L' ps where "poll_w K l w = Inr (w\<lparr>loopsW := (loopsW w)(l := L'), activeW := (activeW w)(l := ps)\<rparr>)"
    and "loop_ok K L'" and "same_but_revents (chans (loopsW w l)) (chans L')"
    and "threadId L' = threadId (loopsW w l)" and "wakeupChannel L' = wakeupChannel (loopsW w l)"
    and "pendingFunctors L' = pendingFunctors (loopsW w l)"
    and "\<And>p. p \<in> set ps \<Longrightarrow> \<exists>ch. chans (loopsW w l) p = Some ch \<and> ch_index ch = kAdded"
proof -
  let ?L = "(loopsW w l)\<lparr>activeChannels := []\<rparr>"
  have wf: "reactor_wf K ?L" by (rule reactor_wf_view [OF loop_okD(1) [OF ok]]) simp_all
  obtain k' out where wt: "epoll_wait K (kst ?L) (eventsSize ?L) kPollTimeMs = (k', out)" by force
  define evs where "evs = (case out of WaitErr e \<Rightarrow> [] | WaitOk evs \<Rightarrow> evs)"
  from poll_ok [OF doc wf wt evs_def] obtain c' n where
    po: "poll K kPollTimeMs ?L = Inr (?L\<lparr>chans := c', kst := k', eventsSize := n\<rparr>, map snd evs, clock_us K k')"
    and wf': "reactor_wf K (?L\<lparr>chans := c', kst := k'\<rparr>)" and s: "same_but_revents (chans ?L) c'" by blast
  define L' where "L' = ?L\<lparr>chans := c', kst := k', eventsSize := n, activeChannels := map snd evs,
    pollReturnTime := clock_us K k'\<rparr>"
  have s': "same_but_revents (chans (loopsW w l)) (chans L')" using s by (simp add: L'_def)
  have "loop_ok K L'"
  proof (rule loop_ok_same [OF ok])
    show "reactor_wf K L'" by (rule reactor_wf_view [OF wf']) (simp_all add: L'_def)
    show "chans L' p = None \<longleftrightarrow> chans (loopsW w l) p = None" for p using same_but_revents_None [OF s', of p] by simp
    show "ch_fd b = ch_fd a" if "chans (loopsW w l) p = Some a" "chans L' p = Some b" for p a b
      using same_but_revents_Some(1) [OF s', of p a b] that by simp
  qed (simp add: L'_def)
  moreover have "\<exists>ch. chans (loopsW w l) p = Some ch \<and> ch_index ch = kAdded" if "p \<in> set (map snd evs)" for p
  proof -
    from that obtain ev where "(ev, p) \<in> set evs" by auto
    then have "\<exists>fd e. interest K (kst ?L) fd = Some (e, p)"
      using wait_docD(4) [OF doc wt] by (cases out) (auto simp: evs_def)
    then show ?thesis using interest_registered [OF wf] by auto
  qed
  moreover have "poll_w K l w = Inr (w\<lparr>loopsW := (loopsW w)(l := L'), activeW := (activeW w)(l := map snd evs)\<rparr>)"
    using po by (simp add: poll_w_def L'_def)
  ultimately show thesis using that [of "map snd evs" L'] s' by (simp add: L'_def)
qed

lemma poll_w_inv:
  assumes doc: "kernel_doc K" and inv: "sys_inv K X w" and l: "l \<in> lids w" and idle: "idle w l"
  shows "\<exists>w'. poll_w K l w = Inr w' \<and> sys_inv K X w' \<and> (\<forall>m. threadId (loopsW w' m) = threadId (loopsW w m))"
proof -
  note D = sys_invD [OF inv]
  obtain L' ps where run: "poll_w K l w = Inr (w\<lparr>loopsW := (loopsW w)(l := L'), activeW := (activeW w)(l := ps)\<rparr>)"
    (is "_ = Inr ?w") and ok': "loop_ok K L'" and s: "same_but_revents (chans (loopsW w l)) (chans L')"
    and eq: "threadId L' = threadId (loopsW w l)" "wakeupChannel L' = wakeupChannel (loopsW w l)"
      "pendingFunctors L' = pendingFunctors (loopsW w l)"
    and regd: "\<And>p. p \<in> set ps \<Longrightarrow> \<exists>ch. chans (loopsW w l) p = Some ch \<and> ch_index ch = kAdded"
    using poll_w_loop [OF kernel_docD(2) [OF doc] loops_okD(3) [OF D(1) l]] by metis
  have "loop_moved K l w ?w"
  proof (rule loop_movedI)
    show "chans (loopsW ?w l) p = None \<longleftrightarrow> chans (loopsW w l) p = None" for p
      using same_but_revents_None [OF s, of p] by simp
    show "ch_fd b = ch_fd a \<and> ch_index b = ch_index a \<and> ch_events b = ch_events a"
      if "chans (loopsW w l) p = Some a" "chans (loopsW ?w l) p = Some b" for p a b
      using same_but_revents_Some [OF s, of p a b] that by simp
  qed (simp_all add: ok' eq)
  then have "sys_inv K X ?w"
  proof (rule sys_inv_loop [OF _ inv l])
    show "p \<in> set (activeW w l) \<or> special w l p \<or> (\<exists>cn. connsW w p = Some cn \<and> loopId cn = l \<and> reg (at cn w))"
      if "p \<in> set (activeW ?w l)" for p
    proof -
      from that regd [of p] obtain ch where ch: "chans (loopsW w l) p = Some ch" "ch_index ch = kAdded" by auto
      then have "special w l p \<or> (\<exists>cn. connsW w p = Some cn \<and> loopId cn = l)" using loops_okD(5) [OF D(1) l] by blast
      then show ?thesis using ch conns_okD(2) [OF D(2)] by (auto simp: reg_def at_def c_chan_def)
    qed
  qed (use idle in \<open>simp_all add: eq funs_def idle_def\<close>)
  with run show ?thesis by (simp add: eq)
qed

lemma swap_w_inv:
  assumes inv: "sys_inv K X w" and l: "l \<in> lids w" and idle: "idle w l"
  shows "sys_inv K X (swap_w l w)"
proof (rule sys_inv_loop [OF _ inv l])
  show "loop_moved K l w (swap_w l w)"
    by (rule loop_moved_view [OF inv l]) (simp_all add: swap_w_def swap_functors_def)
qed (use idle in \<open>auto simp: swap_w_def swap_functors_def funs_def idle_def\<close>)

lemma end_w_inv:
  assumes inv: "sys_inv K X w" and l: "l \<in> lids w" and idle: "idle w l"
  shows "sys_inv K X (end_w l w)"
proof (rule sys_inv_loop [OF _ inv l])
  show "loop_moved K l w (end_w l w)" by (rule loop_moved_view [OF inv l]) (simp_all add: end_w_def)
qed (use idle in \<open>auto simp: end_w_def funs_def idle_def\<close>)

lemma sys_inv_kst:
  assumes inv: "sys_inv K X w" and l: "l \<in> lids w" and i: "interest K k' = interest K (kst (loopsW w l))"
  shows "sys_inv K X (w\<lparr>loopsW := (loopsW w)(l := (loopsW w l)\<lparr>kst := k'\<rparr>)\<rparr>)" (is "sys_inv K X ?w")
proof (rule sys_inv_loop [OF _ inv l])
  show "loop_moved K l w ?w" by (rule loop_moved_view [OF inv l]) (simp_all add: i)
qed (use sys_invD(6) [OF inv] l in \<open>auto simp: funs_def active_ok_def\<close>)

text \<open>Taking a channel off the list of active channels.\<close>

lemma pop_active_inv:
  assumes inv: "sys_inv K X w" and l: "l \<in> lids w" and a: "activeW w l = p # ps"
  shows "sys_inv K X (w\<lparr>activeW := (activeW w)(l := ps)\<rparr>)" (is "sys_inv K X ?w")
proof (rule sys_inv_loop [OF _ inv l])
  show "loop_moved K l w ?w" by (rule loop_moved_view [OF inv l]) simp_all
qed (use a sys_invD(6) [OF inv] l in \<open>auto simp: funs_def active_ok_def\<close>)

section \<open>Queueing and calling functors\<close>

lemma queue_w_sel [simp]:
  "connsW (queue_w K t l f w) = connsW w" "serverW (queue_w K t l f w) = serverW w"
  "activeW (queue_w K t l f w) = activeW w" "runningW (queue_w K t l f w) = runningW w"
  "m \<noteq> l \<Longrightarrow> loopsW (queue_w K t l f w) m = loopsW w m"
  "loopsW (queue_w K t l f w) l = queueInLoop K t f (loopsW w l)"
  "lids (queue_w K t l f w) = lids w"
  by (simp_all add: queue_w_def lids_def)

lemma funs_queue_w: "funs (queue_w K t l f w) m = (if m = l then funs w m @ [f] else funs w m)"
  by (simp add: funs_def)

lemma queueInLoop_wakeupChannel [simp]: "wakeupChannel (queueInLoop K t f L) = wakeupChannel L"
  by (simp add: queueInLoop_def push_functor_def wakeup_def Let_def)

lemma functor_ok_cong:
  "connsW w' = connsW w \<Longrightarrow> srv_base (serverW w') = srv_base (serverW w) \<Longrightarrow> functor_ok w' l f = functor_ok w l f"
  unfolding functor_ok_def by (simp only:)

text \<open>Queueing a functor that fits; it is no longer owed only in name.\<close>

lemma sys_inv_queue:
  assumes doc: "eventfd_doc K" and inv: "sys_inv K X w" and l: "l \<in> lids w" and ok: "functor_ok w l f"
    and uniq: "\<And>c. f = ConnectEstablishedF c \<Longrightarrow> f \<notin> set (funs w l)"
  shows "sys_inv K (X - {f}) (queue_w K t l f w)"
proof (rule sys_inv_moved [OF _ inv])
  note D = sys_invD [OF inv]
  show "loop_moved K l w (queue_w K t l f w)"
    by (rule loop_moved_view [OF inv l]) (simp_all add: queue_view [OF doc])
  show "functor_ok w l g" if "g \<in> set (funs (queue_w K t l f w) l)" for g
    using that D(4) l ok by (auto simp: funs_queue_w functors_ok_def)
  show "count_list (funs (queue_w K t l f w) l) (ConnectEstablishedF c) \<le> 1" for c
    using D(4) l uniq [of c] by (auto simp: funs_queue_w functors_ok_def count_list_0_iff)
  show "owed (X - {f}) (queue_w K t l f w) m g" if "owed X w m g" "life_functor w m g" for m g
    using that ok by (auto simp: owed_def funs_queue_w functor_ok_def life_functor_def)
qed (use sys_invD(6) [OF inv] l in \<open>auto simp: active_ok_def\<close>)

text \<open>Taking a functor off the list to call it.\<close>

lemma pop_running_inv:
  assumes inv: "sys_inv K {} w" and l: "l \<in> lids w" and r: "runningW w l = f # fs"
  defines "w' \<equiv> w\<lparr>runningW := (runningW w)(l := fs)\<rparr>"
  shows "sys_inv K {f} w'" and "functor_ok w' l f"
    and "f = ConnectEstablishedF c \<Longrightarrow> f \<notin> set (funs w' l)"
proof -
  note D = sys_invD [OF inv]
  have sub: "set (funs w' l) \<subseteq> set (funs w l)" using r by (auto simp: funs_def w'_def)
  have cnt: "count_list (funs w l) g = count_list (funs w' l) g + (if g = f then 1 else 0)" for g
    using r by (simp add: funs_def w'_def)
  have one: "count_list (funs w l) (ConnectEstablishedF d) \<le> 1" for d using D(4) l by (simp add: functors_ok_def)
  have "functor_ok w l f" using D(4) l r by (simp add: functors_ok_def funs_def)
  then show "functor_ok w' l f" using functor_ok_cong [of w' w l f] by (simp add: w'_def)
  show "f \<notin> set (funs w' l)" if "f = ConnectEstablishedF c"
    using cnt [of f] one [of c] that by (auto simp: count_list_0_iff)
  show "sys_inv K {f} w'"
  proof (rule sys_inv_moved [OF _ inv])
    show "loop_moved K l w w'" by (rule loop_moved_view [OF inv l]) (simp_all add: w'_def)
    show "functor_ok w l g" if "g \<in> set (funs w' l)" for g using that sub D(4) l by (auto simp: functors_ok_def)
    show "count_list (funs w' l) (ConnectEstablishedF d) \<le> 1" for d
      using cnt [of "ConnectEstablishedF d"] one [of d] by simp
    show "owed {f} w' m g" if "owed {} w m g" for m g
      using that r by (auto simp: owed_def funs_def w'_def split: if_splits)
  qed (use D(6) l r in \<open>auto simp: w'_def active_ok_def\<close>)
qed

lemma sys_inv_mono: "sys_inv K X w \<Longrightarrow> X \<subseteq> Y \<Longrightarrow> sys_inv K Y w"
  by (auto simp: sys_inv_def lives_ok_def life_def owed_def Let_def split: state_e.splits)

text \<open>A functor that was called and is owed to nobody any more.\<close>

lemma sys_inv_drop:
  assumes "sys_inv K {f} w" and "\<And>c cn. functor_conn f = Some c \<Longrightarrow> connsW w c = Some cn \<Longrightarrow>
      f \<noteq> RemoveConnectionInLoopF c \<and> (f = ConnectEstablishedF c \<longrightarrow> stateC cn \<noteq> kConnecting) \<and>
      (f = ConnectDestroyedF c \<longrightarrow> \<not> reg (at cn w) \<and> c \<notin> set (activeW w (loopId cn)))"
  shows "sys_inv K {} w"
proof -
  note D = sys_invD [OF assms(1)]
  have "lives_ok {} w"
    unfolding lives_ok_def
  proof (intro allI impI)
    fix c cn assume c: "connsW w c = Some cn"
    have o: "objId cn = c" using conns_okD(1) [OF D(2) c] .
    show "life {} w cn"
    proof (cases "functor_conn f = Some c")
      case True
      have "life {f} w cn" using D(5) c by (simp add: lives_ok_def)
      then show ?thesis using assms(2) [OF True c] o
        by (auto simp: life_def Let_def owed_def split: state_e.splits)
    next
      case False
      then have "f \<noteq> ConnectEstablishedF c" "f \<noteq> RemoveConnectionInLoopF c" "f \<noteq> ConnectDestroyedF c" by auto
      then show ?thesis using D(5) c o
        by (auto simp: lives_ok_def life_def Let_def owed_def split: state_e.splits)
    qed
  qed
  then show ?thesis using assms(1) by (simp add: sys_inv_def)
qed

end
