(* ===== verification/ServerConns.thy ===== *)
theory ServerConns
  imports ServerSystem
begin

unbundle bit_operations_syntax

text \<open>
  The operations of connections in the running server keep its invariant: the handlers of a
  connection's channel, closing and removing it, and the functors that loops call. They can fail only
  with \<^verbatim>\<open>length_error\<close>, when a buffer would outgrow the largest vector.
\<close>

section \<open>Operations of connections in the system\<close>

lemma loop_frameD:
  assumes "loop_frame K obj p fd L L'"
  shows "threadId L' = threadId L" and "wakeupChannel L' = wakeupChannel L"
    and "callingPendingFunctors L' = callingPendingFunctors L"
    and "q \<noteq> p \<Longrightarrow> chans L' q = chans L q"
    and "\<exists>fs. pendingFunctors L' = pendingFunctors L @ fs \<and> (\<forall>f \<in> set fs. own_functor obj f)"
  using assms by (auto simp: loop_frame_def)

lemma own_functor_conn: "own_functor obj f \<Longrightarrow> functor_conn f = Some obj"
  by (cases f) auto

lemma own_not_life [simp]:
  "own_functor obj f \<Longrightarrow> f \<noteq> ConnectEstablishedF d" "own_functor obj f \<Longrightarrow> f \<noteq> ConnectDestroyedF d"
  "own_functor obj f \<Longrightarrow> f \<noteq> RemoveConnectionInLoopF d"
  by auto

lemma functor_ok_upd:
  assumes ok: "functor_ok w m f" and c: "connsW w c = Some cn"
    and w': "connsW w' = (connsW w)(c \<mapsto> cn')" "srv_base (serverW w') = srv_base (serverW w)"
    and l: "loopId cn' = loopId cn"
    and st: "stateC cn = kDisconnected \<Longrightarrow> stateC cn' = kDisconnected"
      "stateC cn' = kConnecting \<Longrightarrow> stateC cn = kConnecting"
      "f = ConnectEstablishedF c \<Longrightarrow> stateC cn' = stateC cn"
  shows "functor_ok w' m f"
proof (cases "functor_conn f = Some c")
  case False
  with ok show ?thesis unfolding functor_ok_def w' by (auto split: option.splits)
next
  case True
  from ok have "if f = RemoveConnectionInLoopF c then m = srv_base (serverW w) \<and> stateC cn = kDisconnected
      else m = loopId cn \<and> (if f = ConnectEstablishedF c then stateC cn = kConnecting
        else if f = ConnectDestroyedF c then stateC cn = kDisconnected
        else stateC cn \<noteq> kConnecting \<and> own_functor c f)"
    unfolding functor_ok_def True option.case c by simp
  then have "if f = RemoveConnectionInLoopF c then m = srv_base (serverW w) \<and> stateC cn' = kDisconnected
      else m = loopId cn \<and> (if f = ConnectEstablishedF c then stateC cn' = kConnecting
        else if f = ConnectDestroyedF c then stateC cn' = kDisconnected
        else stateC cn' \<noteq> kConnecting \<and> own_functor c f)"
    using st by (auto split: if_splits)
  then show ?thesis unfolding functor_ok_def True w' using l by simp
qed

lemma names_okD:
  assumes "names_ok w"
  shows "connections (serverW w) nm = Some c \<Longrightarrow> \<exists>cn. connsW w c = Some cn \<and> connName cn = nm"
    and "connsW w c = Some cn \<Longrightarrow> \<exists>i < nextConnId (serverW w). connName cn = conn_name (serverW w) i"
    and "connsW w c = Some cn \<Longrightarrow> connsW w d = Some dn \<Longrightarrow> connName cn = connName dn \<Longrightarrow> c = d"
  using assms unfolding names_ok_def by blast+

lemma names_ok_cong:
  assumes "names_ok w" and n: "\<And>x. map_option connName (connsW w' x) = map_option connName (connsW w x)"
    and s: "serverW w' = serverW w"
  shows "names_ok w'"
proof -
  have b: "\<exists>cn. connsW w x = Some cn \<and> connName cn = connName cn'" if "connsW w' x = Some cn'" for x cn'
    using n [of x] that by (cases "connsW w x") simp_all
  have f: "\<exists>cn'. connsW w' x = Some cn' \<and> connName cn' = connName cn" if "connsW w x = Some cn" for x cn
    using n [of x] that by (cases "connsW w' x") simp_all
  show ?thesis
    unfolding names_ok_def s
  proof (intro conjI allI impI)
    fix nm c assume "connections (serverW w) nm = Some c"
    then show "\<exists>cn. connsW w' c = Some cn \<and> connName cn = nm" using names_okD(1) [OF assms(1)] f by metis
  next
    fix c cn assume "connsW w' c = Some cn"
    then show "\<exists>i < nextConnId (serverW w). connName cn = conn_name (serverW w) i"
      using names_okD(2) [OF assms(1)] b by metis
  next
    fix c d cn dn assume "connsW w' c = Some cn \<and> connsW w' d = Some dn \<and> connName cn = connName dn"
    then show "c = d" using names_okD(3) [OF assms(1)] b by metis
  qed
qed

text \<open>The system after an operation of one connection, on the connection and its loop.\<close>

definition put_conn :: "nat \<Rightarrow> tcpconn \<Rightarrow> nat \<Rightarrow> ('k, functor_t) eventloop \<Rightarrow> 'k world \<Rightarrow> 'k world" where
  "put_conn c cn l L w = w\<lparr>connsW := (connsW w)(c \<mapsto> cn), loopsW := (loopsW w)(l := L)\<rparr>"

lemma put_conn_sel [simp]:
  "connsW (put_conn c cn l L w) = (connsW w)(c \<mapsto> cn)" "loopsW (put_conn c cn l L w) = (loopsW w)(l := L)"
  "activeW (put_conn c cn l L w) = activeW w" "runningW (put_conn c cn l L w) = runningW w"
  "serverW (put_conn c cn l L w) = serverW w" "lids (put_conn c cn l L w) = lids w"
  "listed (put_conn c cn l L w) = listed w"
  by (simp_all add: put_conn_def lids_def listed_def fun_eq_iff)

lemma put_conn_special [simp]:
  "wakeupChannel L = wakeupChannel (loopsW w l) \<Longrightarrow> special (put_conn c cn l L w) = special w"
  by (simp add: special_def fun_eq_iff)

lemma put_conn_loop:
  assumes "struct_ok K w" and "connsW w c = Some cn" and "l = loopId cn" and fp: "fixed_part cn' = fixed_part cn"
    and ci: "conn_inv K \<lparr>conn = cn', ioLoop = L'\<rparr>" and fr: "loop_frame K c c (socketFd cn) (loopsW w l) L'"
  shows "loop_ok K L'" and "chans L' p = None \<longleftrightarrow> chans (loopsW w l) p = None"
proof -
  note D = struct_okD [OF assms(1)] and F = fixed_partD [OF fp] and G = loop_frameD [OF fr]
  note d = conns_okD [OF D(2) assms(2)]
  obtain a where a: "chans (loopsW w l) c = Some a" "ch_fd a = socketFd cn"
    using conns_ok_chan [OF D(2) assms(2)] assms(3) by auto
  obtain b where b: "chans L' c = Some b" "ch_fd b = socketFd cn"
    using ci F d(2) by (auto simp: conn_inv_def conn_base_def c_chan_def)
  show dom: "chans L' p = None \<longleftrightarrow> chans (loopsW w l) p = None" for p
    using G(4) [of p] a b by (cases "p = c") simp_all
  show "loop_ok K L'"
  proof (rule loop_ok_same [OF loops_okD(3) [OF D(1)] _ G(2) dom])
    show "l \<in> lids w" using d(4) assms(3) by simp
    show "reactor_wf K L'" using ci by (simp add: conn_inv_def conn_base_def)
    show "ch_fd y = ch_fd x" if "chans (loopsW w l) p = Some x" "chans L' p = Some y" for p x y
      using that G(4) [of p] a b by (cases "p = c") simp_all
  qed
qed

lemma put_conn_other:
  assumes "struct_ok K w" and "loop_ok K L'" and "\<And>q. q \<noteq> c \<Longrightarrow> chans L' q = chans (loopsW w l) q"
    and "connsW w x = Some dn" and "x \<noteq> c"
  shows "conn_inv K (at dn (put_conn c cn' l L' w))" and "reg (at dn (put_conn c cn' l L' w)) = reg (at dn w)"
proof -
  have "loop_ok K (loopsW (put_conn c cn' l L' w) (loopId dn))"
    using assms(2) loops_okD(3) [OF struct_okD(1) [OF assms(1)] conns_okD(4) [OF struct_okD(2) [OF assms(1)] assms(4)]] by simp
  then show "conn_inv K (at dn (put_conn c cn' l L' w))" "reg (at dn (put_conn c cn' l L' w)) = reg (at dn w)"
    using conn_kept [OF struct_okD(2) [OF assms(1)] assms(4), of "put_conn c cn' l L' w"] assms(3) [OF assms(5)] by simp_all
qed

lemma put_conn_struct:
  assumes st: "struct_ok K w" and c: "connsW w c = Some cn" and l: "l = loopId cn" and fp: "fixed_part cn' = fixed_part cn"
    and ci: "conn_inv K \<lparr>conn = cn', ioLoop = L'\<rparr>" and fr: "loop_frame K c c (socketFd cn) (loopsW w l) L'"
  shows "struct_ok K (put_conn c cn' l L' w)" (is "struct_ok K ?w")
proof -
  note D = struct_okD [OF st] and F = fixed_partD [OF fp] and G = loop_frameD [OF fr] and P = put_conn_loop [OF assms]
  note d = conns_okD [OF D(2) c]
  have other: "conn_inv K (at dn ?w)" if "connsW w x = Some dn" "x \<noteq> c" for x dn
    by (rule put_conn_other(1) [OF st P(1) _ that]) (rule G(4))
  have dom: "chans (loopsW ?w m) p = None \<longleftrightarrow> chans (loopsW w m) p = None" for m p
    using P(2) [of p] by (cases "m = l") simp_all
  have thr: "threadId (loopsW ?w m) = threadId (loopsW w m)" "wakeupChannel (loopsW ?w m) = wakeupChannel (loopsW w m)" for m
    by (simp_all add: G)
  have "loop_ok K (loopsW ?w m) \<and> (\<forall>p. chans (loopsW ?w m) p \<noteq> None \<longrightarrow> p < nextObj (serverW ?w) \<and>
      (special ?w m p \<or> (\<exists>cn. connsW ?w p = Some cn \<and> loopId cn = m)))" if m: "m \<in> lids w" for m
  proof (intro conjI allI impI)
    show "loop_ok K (loopsW ?w m)" using P(1) loops_okD(3) [OF D(1) m] by simp
    fix p assume "chans (loopsW ?w m) p \<noteq> None"
    then have p: "chans (loopsW w m) p \<noteq> None" unfolding dom .
    from loops_okD(4) [OF D(1) m p] show "p < nextObj (serverW ?w)" by simp
    from loops_okD(5) [OF D(1) m p] show "special ?w m p \<or> (\<exists>cn. connsW ?w p = Some cn \<and> loopId cn = m)"
      using F(2) c by (auto simp: G(2))
  qed
  then have "loops_ok K ?w" using D(1) unfolding loops_ok_def Let_def put_conn_sel(5,6) thr dom by blast
  moreover have "conns_ok K ?w"
    unfolding conns_ok_def
  proof (intro allI impI)
    fix x xn assume x: "connsW ?w x = Some xn"
    show "objId xn = x \<and> channelP xn = x \<and> x < nextObj (serverW ?w) \<and> loopId xn \<in> lids ?w \<and>
        \<not> special ?w (loopId xn) x \<and> conn_inv K (at xn ?w)"
    proof (cases "x = c")
      case True
      then have "at xn ?w = \<lparr>conn = cn', ioLoop = L'\<rparr>" using x F l by (simp add: at_def)
      then show ?thesis using True x F d ci by (simp add: G(2))
    next
      case False
      then show ?thesis using x conns_okD [OF D(2), of x xn] other [of x xn] by (simp add: G(2))
    qed
  qed
  moreover have "names_ok ?w" by (rule names_ok_cong [OF D(3)]) (use F(3) c in simp_all)
  ultimately show ?thesis by (simp add: struct_ok_def)
qed

lemma put_conn_functors:
  assumes fs: "functors_ok w" and c: "connsW w c = Some cn" and l: "l = loopId cn" and lin: "l \<in> lids w"
    and fp: "fixed_part cn' = fixed_part cn"
    and gs: "pendingFunctors L' = pendingFunctors (loopsW w l) @ gs" "\<forall>f \<in> set gs. own_functor c f"
    and st1: "stateC cn = kDisconnected \<Longrightarrow> stateC cn' = kDisconnected"
    and st2: "stateC cn' = kConnecting \<Longrightarrow> stateC cn = kConnecting \<and> gs = []"
    and st3: "stateC cn = kConnecting \<Longrightarrow> stateC cn' \<noteq> kConnecting \<Longrightarrow> ConnectEstablishedF c \<notin> set (funs w l)"
  shows "functors_ok (put_conn c cn' l L' w)" (is "functors_ok ?w")
  unfolding functors_ok_def put_conn_sel
proof (intro ballI conjI allI)
  note F = fixed_partD [OF fp]
  fix m assume m: "m \<in> lids w"
  have funs: "funs ?w m = funs w m @ (if m = l then gs else [])" using gs(1) by (simp add: funs_def)
  have "count_list gs (ConnectEstablishedF x) = 0" for x using gs(2) by (auto simp: count_list_0_iff)
  then show "count_list (funs ?w m) (ConnectEstablishedF x) \<le> 1" for x using fs m by (auto simp: functors_ok_def funs)
  fix f assume f: "f \<in> set (funs ?w m)"
  show "functor_ok ?w m f"
  proof (cases "f \<in> set (funs w m)")
    case True
    then have ok: "functor_ok w m f" using fs m by (simp add: functors_ok_def)
    have e: "stateC cn' = stateC cn" if "f = ConnectEstablishedF c"
    proof -
      have "m = l \<and> stateC cn = kConnecting" using ok that c l by (simp add: functor_ok_def)
      then show ?thesis using st3 True that by auto
    qed
    show ?thesis by (rule functor_ok_upd [OF ok c, of _ cn']) (use F(2) st1 st2 e in auto)
  next
    case False
    then have own: "own_functor c f" "m = l" "gs \<noteq> []" using f funs gs(2) by (auto split: if_splits)
    then have "stateC cn' \<noteq> kConnecting" using st2 by auto
    moreover have "f \<noteq> ConnectEstablishedF c" "f \<noteq> ConnectDestroyedF c" "f \<noteq> RemoveConnectionInLoopF c"
      using own(1) by auto
    ultimately show ?thesis
      unfolding functor_ok_def own_functor_conn [OF own(1)] using own F(2) l by simp
  qed
qed

lemma put_conn_life:
  assumes lv: "lives_ok X w" and c: "connsW w c = Some cn" and o: "objId cn = c" and l: "l = loopId cn"
    and fp: "fixed_part cn' = fixed_part cn"
    and ow: "\<And>m f. owed X w m f \<Longrightarrow> owed X w' m f"
    and sel: "serverW w' = serverW w" "activeW w' = activeW w"
    and st1: "stateC cn = kDisconnected \<Longrightarrow> stateC cn' = kDisconnected"
    and st2: "stateC cn' = kConnecting \<Longrightarrow> stateC cn = kConnecting \<and> reg (at cn' w') = reg (at cn w)"
    and st4: "stateC cn' = kDisconnected \<Longrightarrow> RemoveConnectionInLoopF c \<in> X \<or>
      stateC cn = kDisconnected \<and> (reg (at cn' w') \<longrightarrow> reg (at cn w))"
  shows "life X w' cn'"
proof -
  note F = fixed_partD [OF fp]
  have e: "listed w' cn' = listed w cn" "objId cn' = c" "loopId cn' = l"
    using F o l sel by (simp_all add: listed_def)
  note lf = lives_okD [OF lv c, unfolded o l [symmetric]]
  show ?thesis
  proof (cases "stateC cn'")
    case kConnecting
    with lf(1,2) st2 ow show ?thesis by (simp add: life_def Let_def e)
  next
    case kDisconnected
    show ?thesis
    proof (cases "RemoveConnectionInLoopF c \<in> X")
      case True
      then show ?thesis using kDisconnected by (simp add: life_def Let_def e owed_def)
    next
      case False
      with st4 [OF kDisconnected] lf(3) kDisconnected ow show ?thesis by (auto simp: life_def Let_def e sel)
    qed
  qed (use st1 lf(2) e in \<open>auto simp: life_def Let_def\<close>)
qed

lemma sys_inv_conn:
  assumes inv: "sys_inv K X w" and c: "connsW w c = Some cn" and l: "l = loopId cn"
    and fp: "fixed_part cn' = fixed_part cn" and ci: "conn_inv K \<lparr>conn = cn', ioLoop = L'\<rparr>"
    and fr: "loop_frame K c c (socketFd cn) (loopsW w l) L'"
    and st1: "stateC cn = kDisconnected \<Longrightarrow> stateC cn' = kDisconnected"
    and st2: "stateC cn' = kConnecting \<Longrightarrow> stateC cn = kConnecting \<and>
      reg \<lparr>conn = cn', ioLoop = L'\<rparr> = reg (at cn w) \<and> pendingFunctors L' = pendingFunctors (loopsW w l)"
    and st3: "stateC cn = kConnecting \<Longrightarrow> stateC cn' \<noteq> kConnecting \<Longrightarrow> ConnectEstablishedF c \<notin> set (funs w l)"
    and st4: "stateC cn' = kDisconnected \<Longrightarrow> RemoveConnectionInLoopF c \<in> X \<or>
      stateC cn = kDisconnected \<and> (reg \<lparr>conn = cn', ioLoop = L'\<rparr> \<longrightarrow> reg (at cn w))"
  shows "sys_inv K X (w\<lparr>connsW := (connsW w)(c \<mapsto> cn'), loopsW := (loopsW w)(l := L')\<rparr>)"
proof -
  let ?w = "put_conn c cn' l L' w"
  note D = sys_invD [OF inv] and F = fixed_partD [OF fp] and G = loop_frameD [OF fr] and S = sys_inv_struct [OF inv]
  note d = conns_okD [OF D(2) c]
  have other: "reg (at dn ?w) = reg (at dn w)" if "connsW w x = Some dn" "x \<noteq> c" for x dn
    by (rule put_conn_other(2) [OF S put_conn_loop(1) [OF S c l fp ci fr] _ that]) (rule G(4))
  from G(5) obtain gs where gs: "pendingFunctors L' = pendingFunctors (loopsW w l) @ gs"
    "\<forall>f \<in> set gs. own_functor c f" by blast
  have atc: "at cn' ?w = \<lparr>conn = cn', ioLoop = L'\<rparr>" using F l by (simp add: at_def)
  have ow: "owed X w m f \<Longrightarrow> owed X ?w m f" for m f using gs by (auto simp: owed_def funs_def)
  have "functors_ok ?w"
    by (rule put_conn_functors [OF D(4) c l _ fp gs st1 _ st3]) (use st2 d(4) l gs(1) in auto)
  moreover have "life X ?w xn" if x: "connsW ?w x = Some xn" for x xn
  proof (cases "x = c")
    case False
    then have xn: "connsW w x = Some xn" using x by simp
    have "life X w xn" using D(5) xn by (simp add: lives_ok_def)
    then show ?thesis using other [OF xn False] ow
      by (auto simp: life_def Let_def split: state_e.splits)
  next
    case True
    have "life X ?w cn'" by (rule put_conn_life [OF D(5) c d(1) l fp ow]) (use st1 st2 st4 atc in auto)
    with True x show ?thesis by simp
  qed
  moreover have "active_ok ?w"
    unfolding active_ok_def put_conn_special [OF G(2)]
  proof (intro ballI conjI impI)
    fix m assume "m \<in> lids ?w" and "activeW ?w m \<noteq> []"
    then show "runningW ?w m = []" using D(6) by (simp add: active_ok_def)
  next
    fix m p assume "m \<in> lids ?w" and "p \<in> set (activeW ?w m)"
    then have "special w m p \<or> (\<exists>xn. connsW w p = Some xn \<and> loopId xn = m \<and> stateC xn \<noteq> kConnecting)"
      using D(6) by (simp add: active_ok_def)
    then show "special w m p \<or> (\<exists>xn. connsW ?w p = Some xn \<and> loopId xn = m \<and> stateC xn \<noteq> kConnecting)"
      using F(2) c st2 by (cases "p = c") auto
  qed
  ultimately have "sys_inv K X ?w"
    using put_conn_struct [OF S c l fp ci fr] by (simp add: sys_inv_def struct_ok_def lives_ok_def)
  then show ?thesis by (simp add: put_conn_def)
qed

text \<open>Results that are fine or a \<^verbatim>\<open>length_error\<close>.\<close>

definition okl :: "('a \<Rightarrow> bool) \<Rightarrow> 'a result \<Rightarrow> bool" where
  "okl P r \<longleftrightarrow> (case r of Inl e \<Rightarrow> e = LengthError | Inr x \<Rightarrow> P x)"

lemma okl_simps [simp]: "okl P (Inr x) = P x" "okl P (Inl e) = (e = LengthError)"
  by (simp_all add: okl_def)

lemma okl_bind: "okl P r \<Longrightarrow> (\<And>x. P x \<Longrightarrow> okl Q (f x)) \<Longrightarrow> okl Q (bind_r r f)"
  by (cases r) simp_all

lemma okl_mono: "okl P r \<Longrightarrow> (\<And>x. P x \<Longrightarrow> Q x) \<Longrightarrow> okl Q r"
  by (cases r) simp_all

lemma view_live [simp]:
  "connsW w c = Some cn \<Longrightarrow> view c w = Inr \<lparr>conn = cn, ioLoop = loopsW w (loopId cn), rest = w\<rparr>"
  by (simp add: view_def)

lemma wview_rest: "tcp.more s' = tcp.more s \<Longrightarrow> rest (s' :: 'k wview) = rest s"
  by (cases s; cases s') simp

lemma unview_view:
  assumes "view c w = Inr s" and "objId (conn s) = c"
  shows "unview s = w"
proof -
  from assms(1) obtain cn where "connsW w c = Some cn" "s = \<lparr>conn = cn, ioLoop = loopsW w (loopId cn), rest = w\<rparr>"
    by (auto simp: view_def split: option.splits)
  with assms(2) show ?thesis by (cases w) (simp add: unview_def fun_upd_idem)
qed

text \<open>
  What a step of another thread leaves alone of a loop: its channels, its table and what its kernel
  watches, its connections, and the functors it holds already. Others may only be added.
\<close>

definition left_alone :: "'k kernel \<Rightarrow> nat \<Rightarrow> 'k world \<Rightarrow> 'k world \<Rightarrow> bool" where
  "left_alone K m w w' \<longleftrightarrow> channelsM (loopsW w' m) = channelsM (loopsW w m) \<and>
     interest K (kst (loopsW w' m)) = interest K (kst (loopsW w m)) \<and>
     (\<forall>p. chans (loopsW w m) p \<noteq> None \<longrightarrow> chans (loopsW w' m) p = chans (loopsW w m) p) \<and>
     (\<exists>fs. pendingFunctors (loopsW w' m) = pendingFunctors (loopsW w m) @ fs) \<and>
     runningW w' m = runningW w m \<and> activeW w' m = activeW w m \<and>
     (\<forall>c cn. connsW w c = Some cn \<and> loopId cn = m \<longrightarrow> connsW w' c = Some cn)"

text \<open>The effect of code that thread \<open>t\<close> runs for loop \<open>l\<close>; the server's map belongs to the base loop.\<close>

definition step_frame :: "'k kernel \<Rightarrow> int \<Rightarrow> nat \<Rightarrow> 'k world \<Rightarrow> 'k world \<Rightarrow> bool" where
  "step_frame K t l w w' \<longleftrightarrow> srv_base (serverW w') = srv_base (serverW w) \<and>
     (\<forall>m. threadId (loopsW w' m) = threadId (loopsW w m)) \<and> (\<forall>m. m \<noteq> l \<longrightarrow> left_alone K m w w') \<and>
     (t \<noteq> threadId (loopsW w (srv_base (serverW w))) \<longrightarrow> connections (serverW w') = connections (serverW w))"

lemma left_alone_refl [simp]: "left_alone K m w w"
  by (simp add: left_alone_def)

lemma left_alone_trans:
  assumes "left_alone K m w1 w2" and "left_alone K m w2 w3"
  shows "left_alone K m w1 w3"
proof -
  from assms obtain fs gs where "pendingFunctors (loopsW w2 m) = pendingFunctors (loopsW w1 m) @ fs"
    "pendingFunctors (loopsW w3 m) = pendingFunctors (loopsW w2 m) @ gs" unfolding left_alone_def by blast
  then have "\<exists>hs. pendingFunctors (loopsW w3 m) = pendingFunctors (loopsW w1 m) @ hs" by simp
  with assms show ?thesis unfolding left_alone_def by simp
qed

lemma step_frame_refl [simp]: "step_frame K t l w w"
  by (simp add: step_frame_def)

lemma step_frame_trans: "step_frame K t l w1 w2 \<Longrightarrow> step_frame K t l w2 w3 \<Longrightarrow> step_frame K t l w1 w3"
  unfolding step_frame_def by (auto intro: left_alone_trans)

lemma queue_left_alone: "eventfd_doc K \<Longrightarrow> left_alone K m w (queue_w K t l f w)"
  by (cases "m = l") (simp_all add: left_alone_def queue_view)

lemma queue_step_frame: "eventfd_doc K \<Longrightarrow> step_frame K t l w (queue_w K t' l' f w)"
  by (auto simp: step_frame_def queue_left_alone) (metis queueInLoop_sel(3) queue_w_sel(5,6))

text \<open>A connection after an operation in the system.\<close>

definition later :: "'k kernel \<Rightarrow> int \<Rightarrow> 'k world \<Rightarrow> 'k world \<Rightarrow> nat \<Rightarrow> tcpconn \<Rightarrow> bool" where
  "later K t w w' c cn \<longleftrightarrow> step_frame K t (loopId cn) w w' \<and>
     (\<exists>cn'. connsW w' c = Some cn' \<and> loopId cn' = loopId cn \<and>
       (stateC cn' = kConnecting \<longleftrightarrow> stateC cn = kConnecting))"

lemma on_conn_frame:
  assumes c: "connsW w c = Some cn" and o: "objId cn = c"
    and fr: "conn_frame K \<lparr>conn = cn, ioLoop = loopsW w (loopId cn), rest = w\<rparr> s'"
  shows "unview s' = w\<lparr>connsW := (connsW w)(c \<mapsto> conn s'), loopsW := (loopsW w)(loopId cn := ioLoop s')\<rparr>"
    and "fixed_part (conn s') = fixed_part cn"
    and "loop_frame K c (channelP cn) (socketFd cn) (loopsW w (loopId cn)) (ioLoop s')"
    and "step_frame K t (loopId cn) w (unview s')"
proof -
  have r: "rest s' = w"
    using fr wview_rest [of s' "\<lparr>conn = cn, ioLoop = loopsW w (loopId cn), rest = w\<rparr>"] by (simp add: conn_frame_def)
  show fp: "fixed_part (conn s') = fixed_part cn"
    and lf: "loop_frame K c (channelP cn) (socketFd cn) (loopsW w (loopId cn)) (ioLoop s')"
    using fr o by (simp_all add: conn_frame_def)
  from fp show u: "unview s' = w\<lparr>connsW := (connsW w)(c \<mapsto> conn s'), loopsW := (loopsW w)(loopId cn := ioLoop s')\<rparr>"
    using o fixed_partD(1,2) [of "conn s'" cn] by (simp add: unview_def r)
  show "step_frame K t (loopId cn) w (unview s')"
    unfolding u using loop_frameD(1) [OF lf] c by (auto simp: step_frame_def left_alone_def)
qed

lemma view_inv:
  assumes inv: "sys_inv K X w" and c: "connsW w c = Some cn"
  shows "conn_inv K \<lparr>conn = cn, ioLoop = loopsW w (loopId cn), rest = w\<rparr>" (is "conn_inv K ?s")
  unfolding tcp_scheme_view(1) [of K ?s] using conns_okD(6) [OF sys_invD(2) [OF inv] c] by (simp add: at_def)

lemma on_conn_safe_at:
  assumes inv: "sys_inv K X w" and c: "connsW w c = Some cn"
    and f: "safe K f \<lparr>conn = cn, ioLoop = loopsW w (loopId cn), rest = w\<rparr>"
  shows "okl (\<lambda>w'. sys_inv K X w' \<and> later K t w w' c cn) (on_conn c f w)"
proof -
  note D = sys_invD [OF inv] and d = conns_okD [OF sys_invD(2) [OF inv] c]
  define s where "s = \<lparr>conn = cn, ioLoop = loopsW w (loopId cn), rest = w\<rparr>"
  have "safe K f s" using f by (simp add: s_def)
  then show ?thesis
  proof (cases "f s")
    case (Inl e)
    with \<open>safe K f s\<close> show ?thesis using c by (simp add: on_conn_def safe_def s_def)
  next
    case (Inr s')
    then have g: "good K s s'" using \<open>safe K f s\<close> by (simp add: safe_def)
    then have "conn_frame K s s'" by (simp add: good_def)
    note u = on_conn_frame [OF c d(1) this [unfolded s_def]]
    have g': "stateC (conn s') = kDisconnected \<longleftrightarrow> stateC cn = kDisconnected"
      "stateC (conn s') = kConnecting \<longleftrightarrow> stateC cn = kConnecting"
      "stateC cn = kConnecting \<Longrightarrow> reg s' = reg s \<and> pendingFunctors (ioLoop s') = pendingFunctors (loopsW w (loopId cn))"
      "reg s' \<Longrightarrow> reg s \<or> stateC cn \<noteq> kDisconnected"
      using g by (simp_all add: good_def s_def)
    have reg: "reg s = reg (at cn w)" "reg s' = reg \<lparr>conn = conn s', ioLoop = ioLoop s'\<rparr>"
      by (simp_all only: tcp_scheme_view(2) [of s] tcp_scheme_view(2) [of s'] at_def) (simp add: s_def)
    have disc: "stateC (conn s') = kDisconnected \<Longrightarrow> RemoveConnectionInLoopF c \<in> X \<or>
        stateC cn = kDisconnected \<and> (reg \<lparr>conn = conn s', ioLoop = ioLoop s'\<rparr> \<longrightarrow> reg (at cn w))"
      using g' reg by auto
    have "sys_inv K X (unview s')"
      unfolding u(1)
    proof (rule sys_inv_conn [OF inv c refl u(2) _ u(3) [unfolded d(2)]])
      show "conn_inv K \<lparr>conn = conn s', ioLoop = ioLoop s'\<rparr>"
        using g unfolding good_def tcp_scheme_view(1) [of K s'] by blast
    qed (use g' reg disc in auto)
    moreover have "later K t w (unview s') c cn" using g' fixed_partD(2) [OF u(2)] u(4) [of t] by (simp add: later_def u(1))
    moreover have "on_conn c f w = Inr (unview s')" using Inr c by (simp add: on_conn_def s_def)
    ultimately show ?thesis by simp
  qed
qed

lemma on_conn_safe:
  assumes inv: "sys_inv K X w" and c: "connsW w c = Some cn"
    and f: "\<And>s :: 'k wview. conn_inv K s \<Longrightarrow> conn s = cn \<Longrightarrow> safe K f s"
  shows "okl (\<lambda>w'. sys_inv K X w' \<and> later K t w w' c cn) (on_conn c f w)"
  by (rule on_conn_safe_at [OF inv c f [OF view_inv [OF inv c]]]) simp

section \<open>Removing connections\<close>

definition erase_name :: "string \<Rightarrow> 'k world \<Rightarrow> 'k world" where
  "erase_name nm w = w\<lparr>serverW := (serverW w)\<lparr>connections := (connections (serverW w))(nm := None)\<rparr>\<rparr>"

lemma erase_name_sel [simp]:
  "connsW (erase_name nm w) = connsW w" "loopsW (erase_name nm w) = loopsW w"
  "activeW (erase_name nm w) = activeW w" "runningW (erase_name nm w) = runningW w"
  "lids (erase_name nm w) = lids w" "funs (erase_name nm w) = funs w"
  "srv_base (serverW (erase_name nm w)) = srv_base (serverW w)"
  "srv_pool (serverW (erase_name nm w)) = srv_pool (serverW w)"
  "srv_acceptor (serverW (erase_name nm w)) = srv_acceptor (serverW w)"
  "nextObj (serverW (erase_name nm w)) = nextObj (serverW w)"
  "nextConnId (serverW (erase_name nm w)) = nextConnId (serverW w)"
  "conn_name (serverW (erase_name nm w)) i = conn_name (serverW w) i"
  "special (erase_name nm w) = special w" "at cn (erase_name nm w) = at cn w"
  "connections (serverW (erase_name nm w)) = (connections (serverW w))(nm := None)"
  by (simp_all add: erase_name_def lids_def funs_def special_def conn_name_def at_def fun_eq_iff)

lemma functor_ok_erase [simp]: "functor_ok (erase_name nm w) l f = functor_ok w l f"
  by (rule functor_ok_cong) simp_all

text \<open>Taking a closed connection off the map: its destruction is owed instead.\<close>

lemma sys_inv_erase:
  assumes inv: "sys_inv K {RemoveConnectionInLoopF c} w" and c: "connsW w c = Some cn"
    and st: "stateC cn = kDisconnected"
  shows "sys_inv K {ConnectDestroyedF c} (erase_name (connName cn) w)" (is "sys_inv K ?X ?w")
proof -
  note D = sys_invD [OF inv]
  have "loops_ok K ?w" using D(1) by (simp add: loops_ok_def)
  moreover have "conns_ok K ?w" using D(2) by (simp add: conns_ok_def)
  moreover have "names_ok ?w" using D(3) by (simp add: names_ok_def)
  moreover have "functors_ok ?w" using D(4) by (simp add: functors_ok_def)
  moreover have "active_ok ?w" using D(6) by (simp add: active_ok_def)
  moreover have "lives_ok ?X ?w"
    unfolding lives_ok_def
  proof (intro allI impI)
    fix x xn assume "connsW ?w x = Some xn"
    then have x: "connsW w x = Some xn" by simp
    have o: "objId xn = x" using conns_okD(1) [OF D(2) x] .
    show "life ?X ?w xn"
    proof (cases "x = c")
      case True
      then show ?thesis using x c st o by (simp add: life_def Let_def listed_def owed_def)
    next
      case False
      then have "connName xn \<noteq> connName cn" using names_okD(3) [OF D(3) x c] by blast
      moreover have "life {RemoveConnectionInLoopF c} w xn" using D(5) x by (simp add: lives_ok_def)
      ultimately show ?thesis using False o
        by (auto simp: life_def Let_def listed_def owed_def split: state_e.splits)
    qed
  qed
  ultimately show ?thesis by (simp add: sys_inv_def)
qed

lemma removeConnectionInLoop_inv:
  assumes doc: "kernel_doc K" and inv: "sys_inv K {RemoveConnectionInLoopF c} w" and c: "connsW w c = Some cn"
    and st: "stateC cn = kDisconnected"
  shows "\<exists>w'. removeConnectionInLoop K t c w = Inr w' \<and> sys_inv K {} w' \<and> connsW w' = connsW w \<and>
    (t' = threadId (loopsW w (srv_base (serverW w))) \<longrightarrow> step_frame K t' l w w')"
proof -
  let ?f = "ConnectDestroyedF c" and ?w = "erase_name (connName cn) w"
  have l: "loopId cn \<in> lids ?w" using conns_okD(4) [OF sys_invD(2) [OF inv] c] by simp
  have "functor_ok ?w (loopId cn) ?f" using c st by (simp add: functor_ok_def)
  from sys_inv_queue [OF kernel_docD(3) [OF doc] sys_inv_erase [OF inv c st] l this, of t]
  have "sys_inv K {} (queue_w K t (loopId cn) ?f ?w)" by simp
  moreover have "step_frame K t' l w (queue_w K t (loopId cn) ?f ?w)"
    if "t' = threadId (loopsW w (srv_base (serverW w)))"
  proof (rule step_frame_trans [OF _ queue_step_frame [OF kernel_docD(3) [OF doc]]])
    show "step_frame K t' l w ?w" using that by (simp add: step_frame_def left_alone_def)
  qed
  ultimately show ?thesis using c by (simp add: removeConnectionInLoop_def Let_def erase_name_def [symmetric])
qed

lemma removeConnection_inv:
  assumes doc: "kernel_doc K" and inv: "sys_inv K {RemoveConnectionInLoopF c} w" and c: "connsW w c = Some cn"
    and st: "stateC cn = kDisconnected"
  shows "\<exists>w'. removeConnection K t c w = Inr w' \<and> sys_inv K {} w' \<and> connsW w' = connsW w \<and> step_frame K t l w w'"
proof -
  let ?f = "RemoveConnectionInLoopF c" and ?b = "srv_base (serverW w)"
  have b: "?b \<in> lids w" by (simp add: lids_def)
  have "functor_ok w ?b ?f" using c st by (simp add: functor_ok_def)
  from sys_inv_queue [OF kernel_docD(3) [OF doc] inv b this, of t]
  have "sys_inv K {} (queue_w K t ?b ?f w)" by simp
  then show ?thesis using removeConnectionInLoop_inv [OF assms, of t t l] queue_step_frame [OF kernel_docD(3) [OF doc]]
    by (auto simp: removeConnection_def runInLoop_w_def isInLoopThread_def)
qed

lemma removeConnection_conns:
  "removeConnection K t c w = Inr w' \<Longrightarrow> connsW w' = connsW w"
  by (auto simp: removeConnection_def runInLoop_w_def removeConnectionInLoop_def Let_def
      split: if_splits option.splits)

text \<open>The close callback of a connection is the server's \<^verbatim>\<open>removeConnection\<close>.\<close>

lemma on_conn_close:
  assumes o: "\<And>s s'. view c w = Inr s \<Longrightarrow> g s = Inr s' \<Longrightarrow> objId (conn s') = c"
  shows "on_conn c (\<lambda>s. bind_r (g s) (close_cb K t)) w = bind_r (on_conn c g w) (removeConnection K t c)"
proof (cases "view c w")
  case (Inr s)
  show ?thesis
  proof (cases "g s")
    case g: (Inr s')
    have c: "objId (conn s') = c" by (rule o [OF Inr g])
    show ?thesis
    proof (cases "removeConnection K t c (unview s')")
      case r: (Inr w')
      have "connsW w' c = Some (conn s')" using removeConnection_conns [OF r] c by (simp add: unview_def)
      then obtain s2 where s2: "view c w' = Inr s2" "objId (conn s2) = c" using c by simp
      then show ?thesis using Inr g c r unview_view [OF s2] by (simp add: on_conn_def close_cb_def)
    qed (use Inr g c in \<open>simp add: on_conn_def close_cb_def\<close>)
  qed (use Inr in \<open>simp add: on_conn_def\<close>)
qed (simp add: on_conn_def)

section \<open>Handlers of channels\<close>

lemma on_conn_eq: "view c w = Inr s \<Longrightarrow> f s = f' s \<Longrightarrow> on_conn c f w = on_conn c f' w"
  by (simp add: on_conn_def)

text \<open>A handler that ends by closing the connection.\<close>

lemma closing_inv:
  assumes doc: "kernel_doc K" and inv: "sys_inv K {} w" and c: "connsW w c = Some cn"
    and st: "stateC cn \<noteq> kConnecting" and s: "view c w = Inr s"
    and f: "f s = bind_r r (close_cb K t)"
    and r: "okl (\<lambda>s'. conn_inv K s' \<and> conn_frame K s s' \<and> stateC (conn s') = kDisconnected) r"
  shows "okl (\<lambda>w'. sys_inv K {} w' \<and> later K t w w' c cn) (on_conn c f w)"
proof -
  let ?s = "\<lparr>conn = cn, ioLoop = loopsW w (loopId cn), rest = w\<rparr>"
  have se: "s = ?s" using s c by simp
  note d = conns_okD [OF sys_invD(2) [OF inv] c]
  have e: "on_conn c f w = bind_r (on_conn c (\<lambda>_. r) w) (removeConnection K t c)"
  proof -
    have "on_conn c f w = on_conn c (\<lambda>s. bind_r ((\<lambda>_. r) s) (close_cb K t)) w"
      by (rule on_conn_eq [OF s]) (simp add: f)
    also have "\<dots> = bind_r (on_conn c (\<lambda>_. r) w) (removeConnection K t c)"
    proof (rule on_conn_close)
      show "objId (conn s') = c" if "r = Inr s'" for s'
        using r that d(1) conn_frameD(1) [of K s s'] by (simp add: se)
    qed
    finally show ?thesis .
  qed
  show ?thesis
  proof (cases r)
    case (Inl x)
    then show ?thesis using e r s by (simp add: on_conn_def)
  next
    case (Inr s')
    with r have s': "conn_inv K s'" "conn_frame K ?s s'" "stateC (conn s') = kDisconnected" by (simp_all add: se)
    note u = on_conn_frame [OF c d(1) s'(2)]
    have "sys_inv K {RemoveConnectionInLoopF c} (unview s')"
      unfolding u(1)
    proof (rule sys_inv_conn [OF sys_inv_mono [OF inv] c refl u(2) _ u(3) [unfolded d(2)]])
      show "conn_inv K \<lparr>conn = conn s', ioLoop = ioLoop s'\<rparr>"
        using s'(1) unfolding tcp_scheme_view(1) [of K s'] .
    qed (use s'(3) st in auto)
    moreover have c': "connsW (unview s') c = Some (conn s')" by (simp add: u(1))
    ultimately obtain w' where "removeConnection K t c (unview s') = Inr w'" "sys_inv K {} w'"
      "connsW w' = connsW (unview s')" "step_frame K t (loopId cn) (unview s') w'"
      using removeConnection_inv [OF doc _ _ s'(3), where l = "loopId cn"] by blast
    then show ?thesis using e Inr s c' s'(3) st fixed_partD(2) [OF u(2)] step_frame_trans [OF u(4)]
      by (simp add: on_conn_def later_def)
  qed
qed

lemma handleClose_inv:
  assumes doc: "kernel_doc K" and U: "user_small U" and inv: "sys_inv K {} w" and c: "connsW w c = Some cn"
    and st: "stateC cn \<noteq> kConnecting"
  shows "okl (\<lambda>w'. sys_inv K {} w' \<and> later K t w w' c cn) (on_conn c (handleClose K t U (close_cb K t)) w)"
proof (rule closing_inv [OF doc inv c st view_live [OF c]])
  let ?s = "\<lparr>conn = cn, ioLoop = loopsW w (loopId cn), rest = w\<rparr>"
  show "handleClose K t U (close_cb K t) ?s = bind_r (bind_r (on_loop (disableAll K (channelP (conn ?s)))
      (setState kDisconnected ?s)) (user K t (onConnection U))) (close_cb K t)"
    by (simp add: handleClose_def bind_r_assoc)
  show "okl (\<lambda>s'. conn_inv K s' \<and> conn_frame K ?s s' \<and> stateC (conn s') = kDisconnected)
      (bind_r (on_loop (disableAll K (channelP (conn ?s))) (setState kDisconnected ?s)) (user K t (onConnection U)))"
    using close_part_ok [OF doc view_inv [OF inv c] U, of t] by (simp add: okl_def)
qed

lemma handleRead_inv:
  assumes doc: "kernel_doc K" and U: "user_small U" and inv: "sys_inv K {} w" and c: "connsW w c = Some cn"
    and st: "stateC cn \<noteq> kConnecting"
  shows "okl (\<lambda>w'. sys_inv K {} w' \<and> later K t w w' c cn) (on_conn c (handleRead K t U (close_cb K t)) w)"
proof -
  let ?s = "\<lparr>conn = cn, ioLoop = loopsW w (loopId cn), rest = w\<rparr>"
  let ?h = "handleRead K t U (close_cb K t)"
  note safe = on_conn_safe_at [OF inv c, of ?h]
  from handleRead_parts [OF doc view_inv [OF inv c], of t U "close_cb K t"] show ?thesis
  proof (elim disjE exE conjE)
    assume "?h ?s = Inl LengthError"
    then show ?thesis by (intro safe) (simp add: safe_def)
  next
    fix s1 assume "good K ?s s1" and "?h ?s = Inr s1"
    then show ?thesis by (intro safe) (simp add: safe_def)
  next
    fix s1 assume g: "good K ?s s1" and h: "?h ?s = user K t (onMessage U) s1"
    have "safe K (user K t (onMessage U)) s1"
      by (rule user_safe [OF doc good_inv [OF g]]) (use U in \<open>simp add: user_small_def\<close>)
    then show ?thesis using g h by (intro safe) (auto simp: safe_def split: sum.splits intro: good_trans)
  next
    fix s1 assume g: "good K ?s s1" and h: "?h ?s = handleClose K t U (close_cb K t) s1"
    let ?r = "bind_r (on_loop (disableAll K (channelP (conn s1))) (setState kDisconnected s1)) (user K t (onConnection U))"
    show ?thesis
    proof (rule closing_inv [OF doc inv c st view_live [OF c]])
      show "?h ?s = bind_r ?r (close_cb K t)" by (simp add: h handleClose_def bind_r_assoc)
      have "conn_frame K ?s s1" using g by (simp add: good_def)
      then show "okl (\<lambda>s'. conn_inv K s' \<and> conn_frame K ?s s' \<and> stateC (conn s') = kDisconnected) ?r"
        using close_part_ok [OF doc good_inv [OF g] U, of t]
        by (auto simp: okl_def split: sum.splits intro: conn_frame_trans)
    qed
  qed
qed

lemma run_callback_inv:
  assumes doc: "kernel_doc K" and U: "user_small U" and inv: "sys_inv K {} w" and c: "connsW w c = Some cn"
    and st: "stateC cn \<noteq> kConnecting"
  shows "okl (\<lambda>w'. sys_inv K {} w' \<and> later K t w w' c cn) (on_conn c (run_callback K t U (close_cb K t) cb) w)"
proof (cases cb)
  case CloseCallback
  have "on_conn c (run_callback K t U (close_cb K t) cb) w = on_conn c (handleClose K t U (close_cb K t)) w"
    by (rule on_conn_eq [OF view_live [OF c]]) (simp add: run_callback_def CloseCallback)
  then show ?thesis using handleClose_inv [OF assms, of t] by simp
next
  case ReadCallback
  have "on_conn c (run_callback K t U (close_cb K t) cb) w = on_conn c (handleRead K t U (close_cb K t)) w"
    by (rule on_conn_eq [OF view_live [OF c]]) (simp add: run_callback_def ReadCallback)
  then show ?thesis using handleRead_inv [OF assms, of t] by simp
next
  case ErrorCallback
  show ?thesis
    by (rule on_conn_safe [OF inv c]) (simp add: run_callback_def ErrorCallback safe_def handleError_def good_refl)
next
  case WriteCallback
  show ?thesis
  proof (rule on_conn_safe [OF inv c])
    fix s :: "'a wview" assume "conn_inv K s" and "conn s = cn"
    then show "safe K (run_callback K t U (close_cb K t) cb) s"
      using handleWrite_safe [OF doc, of s t] st by (simp add: safe_def run_callback_def WriteCallback)
  qed
qed

lemma run_callbacks_inv:
  assumes doc: "kernel_doc K" and U: "user_small U" and inv: "sys_inv K {} w" and c: "connsW w c = Some cn"
    and st: "stateC cn \<noteq> kConnecting"
  shows "okl (\<lambda>w'. sys_inv K {} w' \<and> step_frame K t (loopId cn) w w') (run_each (\<lambda>cb. on_conn c (run_callback K t U (close_cb K t) cb)) cbs w)"
  using inv c st
proof (induction cbs arbitrary: w cn)
  case (Cons cb cbs)
  show ?case
    unfolding run_each.simps
  proof (rule okl_bind [OF run_callback_inv [OF doc U Cons.prems, of t]])
    fix w' assume w': "sys_inv K {} w' \<and> later K t w w' c cn"
    then obtain cn' where c': "connsW w' c = Some cn'" "loopId cn' = loopId cn" "stateC cn' \<noteq> kConnecting"
      and fr: "step_frame K t (loopId cn) w w'" using Cons.prems(3) by (auto simp: later_def)
    have "okl (\<lambda>x. sys_inv K {} x \<and> step_frame K t (loopId cn) w' x)
        (run_each (\<lambda>cb. on_conn c (run_callback K t U (close_cb K t) cb)) cbs w')"
      using Cons.IH [of w' cn'] w' c' by simp
    then show "okl (\<lambda>x. sys_inv K {} x \<and> step_frame K t (loopId cn) w x)
        (run_each (\<lambda>cb. on_conn c (run_callback K t U (close_cb K t) cb)) cbs w')"
      by (rule okl_mono) (use step_frame_trans [OF fr] in blast)
  qed
qed simp

section \<open>Calling functors\<close>

lemma sys_inv_acceptor:
  assumes "sys_inv K X w" and "acceptChannel a = acceptChannel (srv_acceptor (serverW w))"
  shows "sys_inv K X (w\<lparr>serverW := (serverW w)\<lparr>srv_acceptor := a\<rparr>\<rparr>)" (is "sys_inv K X ?w")
proof -
  note D = sys_invD [OF assms(1)]
  have e: "lids ?w = lids w" "special ?w = special w" "funs ?w = funs w" "listed ?w = listed w"
    "\<And>cn. at cn ?w = at cn w" "\<And>m f. owed X ?w m f = owed X w m f"
    "\<And>i. conn_name (serverW ?w) i = conn_name (serverW w) i" "\<And>m f. functor_ok ?w m f = functor_ok w m f"
    "connsW ?w = connsW w" "activeW ?w = activeW w" "srv_base (serverW ?w) = srv_base (serverW w)"
    using assms(2) functor_ok_cong [of ?w w]
    by (simp_all add: lids_def special_def fun_eq_iff funs_def listed_def at_def owed_def conn_name_def)
  have "loops_ok K ?w" using D(1) assms(2) unfolding loops_ok_def e by simp
  moreover have "conns_ok K ?w" using D(2) unfolding conns_ok_def e by simp
  moreover have "names_ok ?w" using D(3) unfolding names_ok_def e by simp
  moreover have "functors_ok ?w" using D(4) unfolding functors_ok_def e .
  moreover have "lives_ok X ?w" using D(5) unfolding lives_ok_def life_def e .
  moreover have "active_ok ?w" using D(6) unfolding active_ok_def e by simp
  ultimately show ?thesis by (simp add: sys_inv_def)
qed

lemma server_listen_inv:
  assumes doc: "kernel_doc K" and inv: "sys_inv K X w"
  shows "\<exists>w'. server_listen K w = Inr w' \<and> sys_inv K X w' \<and> step_frame K t (srv_base (serverW w)) w w' \<and>
    activeW w' = activeW w \<and> runningW w' = runningW w \<and> connsW w' = connsW w \<and>
    (\<forall>m. callingPendingFunctors (loopsW w' m) = callingPendingFunctors (loopsW w m)) \<and>
    serverW w' = (serverW w)\<lparr>srv_acceptor := (srv_acceptor (serverW w))\<lparr>listenning := True\<rparr>\<rparr> \<and>
    (\<exists>ch. chans (loopsW w' (srv_base (serverW w))) (acceptChannel (srv_acceptor (serverW w))) = Some ch \<and>
      ch_index ch = kAdded \<and> ch_events ch AND kReadEvent \<noteq> 0)"
proof -
  let ?b = "srv_base (serverW w)" and ?a = "srv_acceptor (serverW w)"
  let ?p = "acceptChannel ?a" and ?L = "loopsW w (srv_base (serverW w))"
  note D = sys_invD [OF inv]
  have b: "?b \<in> lids w" by (simp add: lids_def)
  obtain ch where ch: "chans ?L ?p = Some ch" using loops_okD(6) [OF D(1)] by blast
  obtain k r where k: "sock_listen K (kst ?L) (sockfd (acceptSocket ?a)) = (k, r)" by force
  note d = listen_docD [OF kernel_docD(8) [OF doc] k]
  define w1 where "w1 = w\<lparr>loopsW := (loopsW w)(?b := ?L\<lparr>kst := k\<rparr>)\<rparr>"
  have inv1: "sys_inv K X w1" unfolding w1_def by (rule sys_inv_kst [OF inv b d(2)])
  have b1: "?b \<in> lids w1" using b by (simp add: w1_def lids_def)
  let ?L1 = "loopsW w1 ?b"
  have L1: "?L1 = ?L\<lparr>kst := k\<rparr>" by (simp add: w1_def)
  have ch1: "chans ?L1 ?p = Some ch" using ch by (simp add: L1)
  note ok = loops_okD(3) [OF sys_invD(1) [OF inv1] b1]
  from set_events_ok [OF kernel_docD(1) [OF doc] loop_okD(1) [OF ok] ch1 loop_ok_free [OF ok ch1], of "enableReading_ev ch"]
  obtain k' where se: "set_events K (enableReading_ev ch) ?p ?L1 = Inr (?L1\<lparr>
      chans := (chans ?L1)(?p \<mapsto> ch\<lparr>ch_events := enableReading_ev ch, ch_index := index_after (enableReading_ev ch) ch\<rparr>),
      channelsM := (channelsM ?L1)(ch_fd ch \<mapsto> ?p), kst := k'\<rparr>)" (is "_ = Inr ?L2") by blast
  have wf2: "reactor_wf K ?L2"
    using set_events_contract [OF kernel_docD(1) [OF doc] loop_okD(1) [OF ok] loop_ok_free [OF ok ch1], of "enableReading_ev ch"] se
    by auto
  define w2 where "w2 = w1\<lparr>loopsW := (loopsW w1)(?b := ?L2)\<rparr>"
  have ok2: "loop_ok K ?L2" by (rule loop_ok_same [OF ok wf2]) (use ch1 in \<open>auto split: if_splits\<close>)
  have "loop_moved K ?b w1 w2"
    by (rule loop_movedI) (use ok2 ch1 in \<open>auto simp: w2_def w1_def special_def split: if_splits\<close>)
  then have "sys_inv K X w2"
    by (rule sys_inv_loop [OF _ inv1 b1]) (use sys_invD(6) [OF inv1] b1 in \<open>auto simp: w2_def funs_def active_ok_def\<close>)
  from sys_inv_acceptor [OF this, of "?a\<lparr>listenning := True\<rparr>"]
  have i: "sys_inv K X (w2\<lparr>serverW := (serverW w2)\<lparr>srv_acceptor := ?a\<lparr>listenning := True\<rparr>\<rparr>\<rparr>)"
    by (simp add: w2_def w1_def)
  have "acceptor_listen K ?a ?L = Inr (?a\<lparr>listenning := True\<rparr>, ?L2)"
    using se ch k d(1) by (simp add: acceptor_listen_def listen_socket_def enableReading_def L1)
  then have "server_listen K w = Inr (w2\<lparr>serverW := (serverW w2)\<lparr>srv_acceptor := ?a\<lparr>listenning := True\<rparr>\<rparr>\<rparr>)"
    by (simp add: server_listen_def Let_def w2_def w1_def)
  moreover have "step_frame K t ?b w (w2\<lparr>serverW := (serverW w2)\<lparr>srv_acceptor := ?a\<lparr>listenning := True\<rparr>\<rparr>\<rparr>)"
    by (simp add: step_frame_def left_alone_def w2_def w1_def)
  moreover have rd: "enableReading_ev ch AND kReadEvent \<noteq> 0"
    using mask_or_not_zero [of kReadEvent "ch_events ch"] by (simp add: enableReading_ev_def)
  moreover have "enableReading_ev ch \<noteq> 0" using rd by (cases "enableReading_ev ch = 0") simp_all
  ultimately show ?thesis using i by (simp add: w2_def w1_def index_after_def)
qed

lemma on_conn_established:
  assumes doc: "kernel_doc K" and U: "user_small U" and inv: "sys_inv K X w" and c: "connsW w c = Some cn"
    and st: "stateC cn = kConnecting" and new: "ConnectEstablishedF c \<notin> set (funs w (loopId cn))"
  shows "okl (\<lambda>w'. sys_inv K X w' \<and> step_frame K t' (loopId cn) w w' \<and>
      (\<exists>cn'. connsW w' c = Some cn' \<and> stateC cn' \<noteq> kConnecting))
    (on_conn c (connectEstablished K t U) w)"
proof -
  let ?s = "\<lparr>conn = cn, ioLoop = loopsW w (loopId cn), rest = w\<rparr>"
  note d = conns_okD [OF sys_invD(2) [OF inv] c]
  have e: "okl (\<lambda>s'. conn_inv K s' \<and> conn_frame K ?s s' \<and> stateC (conn s') \<noteq> kConnecting \<and> stateC (conn s') \<noteq> kDisconnected)
      (connectEstablished K t U ?s)"
    using connectEstablished_ok [OF doc view_inv [OF inv c] _ U, of t] st by (simp add: okl_def)
  show ?thesis
  proof (cases "connectEstablished K t U ?s")
    case (Inl x)
    then show ?thesis using e c by (simp add: on_conn_def)
  next
    case (Inr s')
    with e have s': "conn_inv K s'" "conn_frame K ?s s'" "stateC (conn s') \<noteq> kConnecting"
      "stateC (conn s') \<noteq> kDisconnected" by simp_all
    note u = on_conn_frame [OF c d(1) s'(2)]
    have "sys_inv K X (unview s')"
      unfolding u(1)
    proof (rule sys_inv_conn [OF inv c refl u(2) _ u(3) [unfolded d(2)]])
      show "conn_inv K \<lparr>conn = conn s', ioLoop = ioLoop s'\<rparr>" using s'(1) unfolding tcp_scheme_view(1) [of K s'] .
    qed (use s'(3,4) st new in auto)
    then show ?thesis using Inr c s'(3) u(1) u(4) [of t'] by (simp add: on_conn_def)
  qed
qed

lemma on_conn_destroyed:
  assumes doc: "kernel_doc K" and inv: "sys_inv K X w" and c: "connsW w c = Some cn" and st: "stateC cn = kDisconnected"
  shows "\<exists>w'. on_conn c (connectDestroyed K t U) w = Inr w' \<and> sys_inv K X w' \<and> connsW w' c = Some cn \<and>
    \<not> reg (at cn w') \<and> activeW w' = activeW w \<and> step_frame K t' (loopId cn) w w' \<and>
    connsW w' = connsW w \<and> serverW w' = serverW w"
proof -
  let ?s = "\<lparr>conn = cn, ioLoop = loopsW w (loopId cn), rest = w\<rparr>"
  note d = conns_okD [OF sys_invD(2) [OF inv] c]
  from connectDestroyed_closed [OF doc view_inv [OF inv c], of t U] st obtain s' where
    s': "connectDestroyed K t U ?s = Inr s'" "conn_inv K s'" "conn_frame K ?s s'" "conn s' = cn" "\<not> reg s'" by auto
  note u = on_conn_frame [OF c d(1) s'(3)]
  have r: "\<not> reg \<lparr>conn = conn s', ioLoop = ioLoop s'\<rparr>" using s'(5) unfolding tcp_scheme_view(2) [of s'] .
  have "sys_inv K X (unview s')"
    unfolding u(1)
  proof (rule sys_inv_conn [OF inv c refl u(2) _ u(3) [unfolded d(2)]])
    show "conn_inv K \<lparr>conn = conn s', ioLoop = ioLoop s'\<rparr>" using s'(2) unfolding tcp_scheme_view(1) [of K s'] .
  qed (use s'(4) st r in auto)
  moreover have "\<not> reg (at cn (unview s'))" using r s'(4) by (simp add: at_def u(1))
  moreover have "connsW (unview s') = connsW w" using s'(4) c u(1) by (simp add: fun_upd_idem)
  ultimately show ?thesis using s'(1,4) c u(1) u(4) [of t'] by (simp add: on_conn_def)
qed

text \<open>
  Calling a functor that was taken off the list, when the loop has no active channel left: a
  functor of no connection, the three that mark the stages of a connection's life, and the others.
\<close>

lemma run_free_inv:
  assumes doc: "kernel_doc K" and inv: "sys_inv K {f} w" and ok: "functor_ok w l f" and f: "functor_conn f = None"
  shows "okl (\<lambda>w'. sys_inv K {} w' \<and> step_frame K t l w w') (run_functor_w K t U f w)"
proof -
  have fs: "f = AcceptorListenF \<or> (\<exists>n. f = UserFunctor n)" using f by (cases f) simp_all
  have drop: "sys_inv K {} w'" if "sys_inv K {f} w'" for w' by (rule sys_inv_drop [OF that]) (simp add: f)
  have b: "l = srv_base (serverW w)" if "f = AcceptorListenF" using ok that by (simp add: functor_ok_def)
  show ?thesis using fs server_listen_inv [OF doc inv, of t] drop drop [OF inv] b
    by (auto simp: run_functor_w_def)
qed

lemma run_established_inv:
  assumes doc: "kernel_doc K" and U: "user_small U" and f: "f = ConnectEstablishedF c" and inv: "sys_inv K {f} w"
    and c: "connsW w c = Some cn" and ok: "functor_ok w l f" and new: "f \<notin> set (funs w l)"
  shows "okl (\<lambda>w'. sys_inv K {} w' \<and> step_frame K t l w w') (run_functor_w K t U f w)"
proof -
  have s: "stateC cn = kConnecting" "l = loopId cn" using ok c f by (simp_all add: functor_ok_def)
  have "ConnectEstablishedF c \<notin> set (funs w (loopId cn))" using new f s(2) by simp
  from on_conn_established [OF doc U inv c s(1) this, of t t]
  have "okl (\<lambda>w'. sys_inv K {} w' \<and> step_frame K t l w w') (on_conn c (connectEstablished K t U) w)"
    by (rule okl_mono) (auto simp: f s(2) intro!: sys_inv_drop [of K f])
  moreover have "on_conn c (run_functor K t U f) w = on_conn c (connectEstablished K t U) w"
    by (rule on_conn_eq [OF view_live [OF c]]) (simp add: f run_functor_def)
  ultimately show ?thesis by (simp add: f run_functor_w_def)
qed

lemma run_destroyed_inv:
  assumes doc: "kernel_doc K" and f: "f = ConnectDestroyedF c" and inv: "sys_inv K {f} w"
    and c: "connsW w c = Some cn" and ok: "functor_ok w l f" and act: "activeW w l = []"
  shows "okl (\<lambda>w'. sys_inv K {} w' \<and> step_frame K t l w w') (run_functor_w K t U f w)"
proof -
  have s: "stateC cn = kDisconnected" "l = loopId cn" using ok c f by (simp_all add: functor_ok_def)
  from on_conn_destroyed [OF doc inv c s(1), of t U t] obtain w' where
    w': "on_conn c (connectDestroyed K t U) w = Inr w'" "sys_inv K {f} w'" "connsW w' c = Some cn"
      "\<not> reg (at cn w')" "activeW w' = activeW w" "step_frame K t (loopId cn) w w'" by blast
  have "sys_inv K {} w'" by (rule sys_inv_drop [OF w'(2)]) (use f w' act s(2) in auto)
  moreover have "on_conn c (run_functor K t U f) w = on_conn c (connectDestroyed K t U) w"
    by (rule on_conn_eq [OF view_live [OF c]]) (simp add: f run_functor_def)
  ultimately show ?thesis using w'(1,6) s(2) by (simp add: f run_functor_w_def)
qed

lemma run_own_inv:
  assumes doc: "kernel_doc K" and U: "user_small U" and own: "own_functor c f" and inv: "sys_inv K {f} w"
    and c: "connsW w c = Some cn" and st: "stateC cn \<noteq> kConnecting" and l: "l = loopId cn"
  shows "okl (\<lambda>w'. sys_inv K {} w' \<and> step_frame K t l w w') (run_functor_w K t U f w)"
proof -
  have "okl (\<lambda>w'. sys_inv K {f} w' \<and> later K t w w' c cn) (on_conn c (run_functor K t U f) w)"
  proof (rule on_conn_safe [OF inv c])
    fix s :: "'a wview" assume "conn_inv K s" and "conn s = cn"
    then show "safe K (run_functor K t U f) s"
      using run_own_safe [OF doc, of s f U t] own st U conns_okD(1) [OF sys_invD(2) [OF inv] c] by simp
  qed
  then have "okl (\<lambda>w'. sys_inv K {} w' \<and> step_frame K t l w w') (on_conn c (run_functor K t U f) w)"
    by (rule okl_mono) (use own l in \<open>auto simp: later_def own_functor_conn intro!: sys_inv_drop [of K f]\<close>)
  moreover have "run_functor_w K t U f w = on_conn c (run_functor K t U f) w"
    using own by (cases f) (simp_all add: run_functor_w_def)
  ultimately show ?thesis by simp
qed

lemma run_functor_w_inv:
  assumes doc: "kernel_doc K" and U: "user_small U" and inv: "sys_inv K {f} w" and l: "l \<in> lids w"
    and ok: "functor_ok w l f" and new: "\<And>c. f = ConnectEstablishedF c \<Longrightarrow> f \<notin> set (funs w l)"
    and act: "activeW w l = []" and t: "t = threadId (loopsW w l)"
  shows "okl (\<lambda>w'. sys_inv K {} w' \<and> step_frame K t l w w') (run_functor_w K t U f w)"
proof (cases "functor_conn f")
  case None
  then show ?thesis by (rule run_free_inv [OF doc inv ok])
next
  case (Some c)
  then obtain cn where c: "connsW w c = Some cn" using ok by (auto simp: functor_ok_def split: option.splits)
  consider "f = RemoveConnectionInLoopF c" | "f = ConnectEstablishedF c" | "f = ConnectDestroyedF c"
    | "f \<noteq> RemoveConnectionInLoopF c" "f \<noteq> ConnectEstablishedF c" "f \<noteq> ConnectDestroyedF c" by blast
  then show ?thesis
  proof cases
    case 1
    then have s: "stateC cn = kDisconnected" "l = srv_base (serverW w)" using ok c by (simp_all add: functor_ok_def)
    from removeConnectionInLoop_inv [OF doc inv [unfolded 1] c s(1), of t t l] show ?thesis
      using t s(2) by (auto simp: 1 run_functor_w_def)
  next
    case 2
    show ?thesis by (rule run_established_inv [OF doc U 2 inv c ok new [OF 2]])
  next
    case 3
    then show ?thesis by (rule run_destroyed_inv [OF doc _ inv c ok act])
  next
    case 4
    then have "own_functor c f" "stateC cn \<noteq> kConnecting" "l = loopId cn"
      using ok c Some unfolding functor_ok_def by simp_all
    then show ?thesis by (rule run_own_inv [OF doc U _ inv c])
  qed
qed

end
