(* ===== verification/ServerObjects.thy ===== *)
theory ServerObjects
  imports ServerConns
begin

text \<open>
  Connection objects come and go: \<^verbatim>\<open>TcpServer::newConnection\<close> builds one and enters it in the map, and an
  object nothing refers to is destroyed. Both keep the invariant of the running server.
\<close>

section \<open>New connections\<close>

lemma loop_ok_new:
  assumes ok: "loop_ok K L" and p: "chans L p = None" and i: "ch_index ch = kNew"
    and fd: "\<And>q c. chans L q = Some c \<Longrightarrow> ch_fd c \<noteq> ch_fd ch"
  shows "loop_ok K (set_chan p ch L)"
proof -
  have wk: "wakeupChannel (set_chan p ch L) = wakeupChannel L" by (simp add: set_chan_def)
  show ?thesis
    unfolding loop_ok_def wk
  proof (intro conjI allI impI)
    show "reactor_wf K (set_chan p ch L)" by (rule reactor_wf_new [OF loop_okD(1) [OF ok] p i])
    show "chans (set_chan p ch L) (wakeupChannel L) \<noteq> None" using loop_okD(2) [OF ok] p by auto
    fix x y a b
    assume h: "chans (set_chan p ch L) x = Some a \<and> chans (set_chan p ch L) y = Some b \<and> ch_fd a = ch_fd b"
    then show "x = y" using fd [of x a] fd [of y b] loop_okD(3) [OF ok, of x a y b]
      by (cases "x = p"; cases "y = p") auto
  qed
qed

lemma conn_name_inject [simp]: "conn_name sv i = conn_name sv j \<longleftrightarrow> i = j"
  by (simp add: conn_name_def)

text \<open>The system after a new connection object was built and entered in the map.\<close>

definition add_conn :: "pool \<Rightarrow> tcpconn \<Rightarrow> channel \<Rightarrow> 'k world \<Rightarrow> 'k world" where
  "add_conn po cn ch w = w\<lparr>
     loopsW := (loopsW w)(loopId cn := set_chan (objId cn) ch (loopsW w (loopId cn))),
     connsW := (connsW w)(objId cn \<mapsto> cn),
     serverW := (serverW w)\<lparr>srv_pool := po, nextConnId := nextConnId (serverW w) + 1, nextObj := objId cn + 1,
       connections := (connections (serverW w))(connName cn \<mapsto> objId cn)\<rparr>\<rparr>"

text \<open>An object as \<^verbatim>\<open>newConnection\<close> builds it: a new address, the next name, and a descriptor no channel has.\<close>

definition new_conn :: "'k world \<Rightarrow> pool \<Rightarrow> tcpconn \<Rightarrow> channel \<Rightarrow> bool" where
  "new_conn w po cn ch \<longleftrightarrow> loopId cn \<in> lids w \<and>
     pool_wf po \<and> baseLoop po = srv_base (serverW w) \<and> loops po = loops (srv_pool (serverW w)) \<and>
     objId cn = nextObj (serverW w) \<and> channelP cn = objId cn \<and> connName cn = conn_name (serverW w) (nextConnId (serverW w)) \<and>
     stateC cn = kConnecting \<and> socketFd cn = ch_fd ch \<and> buffer_wf (inputBuffer cn) \<and> buffer_wf (outputBuffer cn) \<and>
     content (outputBuffer cn) = [] \<and> ch_index ch = kNew \<and> ch_events ch = 0 \<and> fresh_fd w (ch_fd ch)"

lemma new_connD:
  assumes "new_conn w po cn ch"
  shows "loopId cn \<in> lids w" and "objId cn = nextObj (serverW w)" and "channelP cn = objId cn"
    and "connName cn = conn_name (serverW w) (nextConnId (serverW w))" and "stateC cn = kConnecting"
    and "loops po = loops (srv_pool (serverW w))" and "pool_wf po" and "baseLoop po = srv_base (serverW w)"
  using assms by (simp_all add: new_conn_def)

lemma add_conn_sel [simp]:
  "loopsW (add_conn po cn ch w) = (loopsW w)(loopId cn := set_chan (objId cn) ch (loopsW w (loopId cn)))"
  "connsW (add_conn po cn ch w) = (connsW w)(objId cn \<mapsto> cn)"
  "activeW (add_conn po cn ch w) = activeW w" "runningW (add_conn po cn ch w) = runningW w"
  "srv_base (serverW (add_conn po cn ch w)) = srv_base (serverW w)" "srv_pool (serverW (add_conn po cn ch w)) = po"
  "srv_acceptor (serverW (add_conn po cn ch w)) = srv_acceptor (serverW w)"
  "nextConnId (serverW (add_conn po cn ch w)) = nextConnId (serverW w) + 1"
  "nextObj (serverW (add_conn po cn ch w)) = objId cn + 1"
  "connections (serverW (add_conn po cn ch w)) = (connections (serverW w))(connName cn \<mapsto> objId cn)"
  "conn_name (serverW (add_conn po cn ch w)) i = conn_name (serverW w) i"
  by (simp_all add: add_conn_def conn_name_def)

lemma set_chan_loop [simp]:
  fixes L :: "('k, 'f) eventloop"
  shows "threadId (set_chan p ch L) = threadId L" and "wakeupChannel (set_chan p ch L) = wakeupChannel L"
    and "pendingFunctors (set_chan p ch L) = pendingFunctors L"
  by (simp_all add: set_chan_def)

lemma add_conn_view:
  "threadId (loopsW (add_conn po cn ch w) m) = threadId (loopsW w m)"
  "wakeupChannel (loopsW (add_conn po cn ch w) m) = wakeupChannel (loopsW w m)"
  "funs (add_conn po cn ch w) m = funs w m" "special (add_conn po cn ch w) m p = special w m p"
  by (simp_all add: funs_def special_def)

lemma add_conn_lids: "new_conn w po cn ch \<Longrightarrow> lids (add_conn po cn ch w) = lids w"
  by (simp add: lids_def new_connD)

text \<open>Nothing has the address or the name of the new object.\<close>

lemma new_conn_fresh:
  assumes st: "struct_ok K w" and n: "new_conn w po cn ch"
  shows "m \<in> lids w \<Longrightarrow> chans (loopsW w m) (objId cn) = None" and "connsW w (objId cn) = None"
    and "connsW w d = Some dn \<Longrightarrow> d \<noteq> objId cn \<and> connName dn \<noteq> connName cn"
    and "m \<in> lids w \<Longrightarrow> \<not> special w m (objId cn)"
proof -
  note D = struct_okD [OF st] and N = new_connD [OF n]
  show nochan: "chans (loopsW w m) (objId cn) = None" if "m \<in> lids w" for m
    using loops_okD(4) [OF D(1) that, of "objId cn"] N(2) by (cases "chans (loopsW w m) (objId cn)") auto
  show noconn: "connsW w (objId cn) = None"
    using conns_okD(3) [OF D(2), of "objId cn"] N(2) by (cases "connsW w (objId cn)") auto
  show "d \<noteq> objId cn \<and> connName dn \<noteq> connName cn" if d: "connsW w d = Some dn"
    using names_okD(2) [OF D(3) d] noconn d by (auto simp: N(4))
  have "acceptChannel (srv_acceptor (serverW w)) \<noteq> objId cn"
    using loops_okD(6) [OF D(1)] nochan [of "srv_base (serverW w)"] by (auto simp: lids_def)
  moreover have "wakeupChannel (loopsW w m) \<noteq> objId cn" if "m \<in> lids w" for m
    using loop_okD(2) [OF loops_okD(3) [OF D(1) that]] nochan [OF that] by auto
  ultimately show "\<not> special w m (objId cn)" if "m \<in> lids w" using that unfolding special_def by metis
qed

lemma add_conn_loop:
  assumes st: "struct_ok K w" and n: "new_conn w po cn ch" and m: "m \<in> lids w"
  shows "loop_ok K (loopsW (add_conn po cn ch w) m)"
proof -
  note D = struct_okD [OF st] and N = new_connD [OF n]
  have "loop_ok K (set_chan (objId cn) ch (loopsW w (loopId cn)))"
    by (rule loop_ok_new [OF loops_okD(3) [OF D(1) N(1)] new_conn_fresh(1) [OF st n N(1)]])
      (use n in \<open>auto simp: new_conn_def fresh_fd_def\<close>)
  then show ?thesis using loops_okD(3) [OF D(1) m] by simp
qed

lemma add_conn_other:
  assumes st: "struct_ok K w" and n: "new_conn w po cn ch" and x: "connsW w x = Some dn"
  shows "conn_inv K (at dn (add_conn po cn ch w))" and "reg (at dn (add_conn po cn ch w)) = reg (at dn w)"
  using conn_kept [OF struct_okD(2) [OF st] x, of "add_conn po cn ch w"] new_conn_fresh(3) [OF st n x]
    add_conn_loop [OF st n conns_okD(4) [OF struct_okD(2) [OF st] x]] by simp_all

lemma add_conn_self:
  assumes st: "struct_ok K w" and n: "new_conn w po cn ch"
  shows "conn_inv K (at cn (add_conn po cn ch w))" and "\<not> reg (at cn (add_conn po cn ch w))"
proof -
  let ?L = "set_chan (objId cn) ch (loopsW w (loopId cn))"
  have ok: "loop_ok K ?L" using add_conn_loop [OF st n new_connD(1) [OF n]] by simp
  then have "fd_free ?L (objId cn)" using loop_ok_free [of K ?L "objId cn" ch] by simp
  then show "conn_inv K (at cn (add_conn po cn ch w))" "\<not> reg (at cn (add_conn po cn ch w))"
    using n loop_okD(1) [OF ok]
    by (simp_all add: at_def new_conn_def conn_inv_def conn_base_def c_chan_def writing_def isWriting_def reg_def)
qed

lemma add_conn_loops:
  assumes st: "struct_ok K w" and n: "new_conn w po cn ch"
  shows "loops_ok K (add_conn po cn ch w)" (is "loops_ok K ?w")
  unfolding loops_ok_def add_conn_lids [OF n] add_conn_view
proof (intro conjI ballI allI impI)
  note D = struct_okD [OF st] and N = new_connD [OF n]
  show "inj_on (\<lambda>l. threadId (loopsW w l)) (lids w)" using D(1) by (simp add: loops_ok_def)
  show "let b = srv_base (serverW ?w); a = acceptChannel (srv_acceptor (serverW ?w)) in
      chans (loopsW ?w b) a \<noteq> None \<and> wakeupChannel (loopsW w b) \<noteq> a"
    using D(1) by (auto simp: loops_ok_def Let_def)
  fix m assume m: "m \<in> lids w"
  show "loop_ok K (loopsW ?w m)" by (rule add_conn_loop [OF st n m])
  fix p assume "chans (loopsW ?w m) p \<noteq> None"
  then have "p = objId cn \<and> m = loopId cn \<or> p \<noteq> objId cn \<and> chans (loopsW w m) p \<noteq> None"
    using new_conn_fresh(1) [OF st n m] by (auto split: if_splits)
  then show "p < nextObj (serverW ?w)" "special w m p \<or> (\<exists>xn. connsW ?w p = Some xn \<and> loopId xn = m)"
    using loops_okD(4,5) [OF D(1) m, of p] N(2) by auto
qed (use n in \<open>simp_all add: new_conn_def\<close>)

lemma add_conn_conns:
  assumes st: "struct_ok K w" and n: "new_conn w po cn ch"
  shows "conns_ok K (add_conn po cn ch w)" (is "conns_ok K ?w")
  unfolding conns_ok_def add_conn_lids [OF n] add_conn_view
proof (intro allI impI)
  note D = struct_okD [OF st] and N = new_connD [OF n]
  fix x xn assume x: "connsW ?w x = Some xn"
  show "objId xn = x \<and> channelP xn = x \<and> x < nextObj (serverW ?w) \<and> loopId xn \<in> lids w \<and>
      \<not> special w (loopId xn) x \<and> conn_inv K (at xn ?w)"
  proof (cases "x = objId cn")
    case True
    then show ?thesis using x N(1,3) new_conn_fresh(4) [OF st n] add_conn_self(1) [OF st n] by auto
  next
    case False
    then have xn: "connsW w x = Some xn" using x by simp
    then show ?thesis using conns_okD [OF D(2) xn] add_conn_other(1) [OF st n xn] N(2) by auto
  qed
qed

lemma add_conn_names:
  assumes st: "struct_ok K w" and n: "new_conn w po cn ch"
  shows "names_ok (add_conn po cn ch w)" (is "names_ok ?w")
  unfolding names_ok_def
proof (intro conjI allI impI)
  note D = struct_okD(3) [OF st] and N = new_connD(4) [OF n] and fresh = new_conn_fresh(2,3) [OF st n]
  fix nm c assume "connections (serverW ?w) nm = Some c"
  then show "\<exists>cn. connsW ?w c = Some cn \<and> connName cn = nm"
    using names_okD(1) [OF D, of nm c] fresh by (auto split: if_splits)
next
  note D = struct_okD(3) [OF st] and N = new_connD(4) [OF n]
  fix c xn assume "connsW ?w c = Some xn"
  then have "c = objId cn \<and> xn = cn \<or> connsW w c = Some xn" by (auto split: if_splits)
  then show "\<exists>i < nextConnId (serverW ?w). connName xn = conn_name (serverW ?w) i"
    using names_okD(2) [OF D, of c xn] N by (fastforce intro: less_trans)
next
  note D = struct_okD(3) [OF st] and fresh = new_conn_fresh(3) [OF st n]
  fix c d xn dn assume "connsW ?w c = Some xn \<and> connsW ?w d = Some dn \<and> connName xn = connName dn"
  then show "c = d" using names_okD(3) [OF D, of c xn d dn] fresh [of c xn] fresh [of d dn] by (auto split: if_splits)
qed

lemma add_conn_functors:
  assumes st: "struct_ok K w" and n: "new_conn w po cn ch" and fs: "functors_ok w"
  shows "functors_ok (add_conn po cn ch w)" (is "functors_ok ?w")
  unfolding functors_ok_def add_conn_lids [OF n] add_conn_view
proof (intro ballI conjI allI)
  fix m f assume "m \<in> lids w" "f \<in> set (funs w m)"
  then have "functor_ok w m f" using fs by (simp add: functors_ok_def)
  then show "functor_ok ?w m f" using new_conn_fresh(2) [OF st n]
    unfolding functor_ok_def add_conn_sel(2,5) by (auto split: option.splits)
qed (use fs in \<open>simp add: functors_ok_def\<close>)

lemma add_conn_lives:
  assumes st: "struct_ok K w" and n: "new_conn w po cn ch" and lv: "lives_ok {} w"
  shows "lives_ok {ConnectEstablishedF (objId cn)} (add_conn po cn ch w)" (is "lives_ok ?X ?w")
  unfolding lives_ok_def
proof (intro allI impI)
  fix x xn assume x: "connsW ?w x = Some xn"
  show "life ?X ?w xn"
  proof (cases "x = objId cn")
    case True
    then show ?thesis using x new_connD(5) [OF n] add_conn_self(2) [OF st n]
      by (auto simp: life_def Let_def listed_def owed_def)
  next
    case False
    then have xn: "connsW w x = Some xn" using x by simp
    have o: "objId xn = x" using conns_okD(1) [OF struct_okD(2) [OF st] xn] .
    have "life {} w xn" using lv xn by (simp add: lives_ok_def)
    then show ?thesis using new_conn_fresh(3) [OF st n xn] add_conn_other(2) [OF st n xn] o
      by (auto simp: life_def Let_def listed_def owed_def add_conn_view split: state_e.splits)
  qed
qed

lemma sys_inv_add:
  assumes inv: "sys_inv K {} w" and n: "new_conn w po cn ch"
  shows "sys_inv K {ConnectEstablishedF (objId cn)} (add_conn po cn ch w)" (is "sys_inv K ?X ?w")
proof -
  note D = sys_invD [OF inv] and st = sys_inv_struct [OF inv]
  have "active_ok ?w"
    using D(6) new_conn_fresh(2) [OF st n] unfolding active_ok_def add_conn_lids [OF n] add_conn_view
    by (fastforce split: if_splits)
  then show ?thesis
    using add_conn_loops [OF st n] add_conn_conns [OF st n] add_conn_names [OF st n] add_conn_functors [OF st n D(4)]
      add_conn_lives [OF st n D(5)] by (simp add: sys_inv_def)
qed

lemma getNextLoop_sel:
  assumes "pool_wf p"
  shows "pool_wf (snd (getNextLoop p))" and "baseLoop (snd (getNextLoop p)) = baseLoop p"
    and "loops (snd (getNextLoop p)) = loops p" and "fst (getNextLoop p) \<in> insert (baseLoop p) (set (loops p))"
  using getNextLoop_wf [OF assms] assms by (auto simp: getNextLoop_def pool_wf_def)

text \<open>What \<^verbatim>\<open>newConnection\<close> does before it hands the connection to its loop.\<close>

definition built_channel :: "int \<Rightarrow> channel" where
  "built_channel fd = setErrorCallback (setCloseCallback (setWriteCallback (setReadCallback (mk_channel fd))))"

definition built_conn :: "server \<Rightarrow> nat \<Rightarrow> inet_address option \<Rightarrow> int \<Rightarrow> inet_address \<Rightarrow> buffer \<Rightarrow> tcpconn" where
  "built_conn sv l lo fd peer b = \<lparr>objId = nextObj sv, loopId = l, connName = conn_name sv (nextConnId sv),
     stateC = kConnecting, reading = True, socketC = setKeepAlive True (mk_socket fd), channelP = nextObj sv,
     localAddr = (case lo of None \<Rightarrow> \<lparr>sin_port = 0, sin_addr = [0, 0, 0, 0]\<rparr> | Some a \<Rightarrow> a), peerAddr = peer,
     hasWriteComplete = srv_writeComplete sv, hasHighWaterMark = False, highWaterMark = 64 * 1024 * 1024,
     inputBuffer = b, outputBuffer = b\<rparr>"

lemma built_channel_sel [simp]:
  "ch_fd (built_channel fd) = fd" "ch_index (built_channel fd) = kNew" "ch_events (built_channel fd) = 0"
  by (simp_all add: built_channel_def setErrorCallback_def setCloseCallback_def setWriteCallback_def setReadCallback_def
      mk_channel_def kNew_def)

lemma newConnection_run:
  assumes "getNextLoop (srv_pool (serverW w)) = (l, po)" and "nextConnId (serverW w) < int_max"
  obtains b where "buffer_wf b" and "content b = []"
    and "\<And>cn. cn = built_conn (serverW w) l lo fd peer b \<Longrightarrow> newConnection K t U lo fd peer w =
      runInLoop_w K t l (ConnectEstablishedF (objId cn)) (on_conn (objId cn) (connectEstablished K t U))
        (add_conn po cn (built_channel fd) w)"
proof -
  obtain b where b: "mk_buffer kInitialSize = Inr b" "buffer_wf b" "content b = []"
    using mk_buffer_ok [of kInitialSize] by (auto simp: kInitialSize_def kCheapPrepend_def vec_max_size_less)
  show thesis
    by (rule that [OF b(2,3)])
      (use assms b(1) in \<open>simp add: newConnection_def Let_def mk_tcpconn_def CheckLoopNotNull_def setWriteCompleteCallback_def
        built_channel_def [symmetric] built_conn_def add_conn_def\<close>)
qed

lemma newConnection_adds:
  assumes inv: "sys_inv K {} w" and fresh: "fresh_fd w fd" and left: "nextConnId (serverW w) < int_max"
  obtains po cn ch where "new_conn w po cn ch"
    and "newConnection K t U lo fd peer w = runInLoop_w K t (loopId cn) (ConnectEstablishedF (objId cn))
      (on_conn (objId cn) (connectEstablished K t U)) (add_conn po cn ch w)"
proof -
  note D = sys_invD [OF inv]
  obtain l po where g: "getNextLoop (srv_pool (serverW w)) = (l, po)" by force
  note gn = getNextLoop_sel [OF loops_okD(1) [OF D(1)], unfolded g, simplified]
  obtain b where b: "buffer_wf b" "content b = []" and run: "\<And>cn. cn = built_conn (serverW w) l lo fd peer b \<Longrightarrow>
      newConnection K t U lo fd peer w = runInLoop_w K t l (ConnectEstablishedF (objId cn))
        (on_conn (objId cn) (connectEstablished K t U)) (add_conn po cn (built_channel fd) w)"
    using newConnection_run [OF g left] by metis
  define cn where "cn = built_conn (serverW w) l lo fd peer b"
  have l: "loopId cn = l" by (simp add: cn_def built_conn_def)
  have "l \<in> lids w" using gn(4) loops_okD(2) [OF D(1)] by (auto simp: lids_def)
  then have "new_conn w po cn (built_channel fd)"
    using gn loops_okD(2) [OF D(1)] b fresh by (simp add: new_conn_def cn_def built_conn_def)
  then show thesis using that run [OF cn_def] l by simp
qed

lemma add_conn_frame:
  assumes inv: "sys_inv K {} w" and n: "new_conn w po cn ch" and t: "t = threadId (loopsW w (srv_base (serverW w)))"
  shows "step_frame K t l w (add_conn po cn ch w)"
proof -
  note fresh = new_conn_fresh [OF sys_inv_struct [OF inv] n]
  have "left_alone K m w (add_conn po cn ch w)" for m
    using fresh(1) [OF new_connD(1) [OF n]] fresh(2) by (auto simp: left_alone_def set_chan_def)
  then show ?thesis using t by (simp add: step_frame_def)
qed

lemma newConnection_inv:
  assumes doc: "kernel_doc K" and U: "user_small U" and inv: "sys_inv K {} w" and fresh: "fresh_fd w connfd"
    and left: "nextConnId (serverW w) < int_max" and t: "t = threadId (loopsW w (srv_base (serverW w)))"
  shows "okl (\<lambda>w'. sys_inv K {} w' \<and> step_frame K t (srv_base (serverW w)) w w') (newConnection K t U lo connfd peer w)"
proof -
  from newConnection_adds [OF inv fresh left] obtain po cn ch where n: "new_conn w po cn ch"
    and run: "newConnection K t U lo connfd peer w =
      runInLoop_w K t (loopId cn) (ConnectEstablishedF (objId cn)) (on_conn (objId cn) (connectEstablished K t U)) (add_conn po cn ch w)"
    by blast
  let ?w = "add_conn po cn ch w" and ?f = "ConnectEstablishedF (objId cn)" and ?b = "srv_base (serverW w)"
  note D = sys_invD [OF inv] and N = new_connD [OF n] and fr = add_conn_frame [OF inv n t]
  have inv1: "sys_inv K {?f} ?w" by (rule sys_inv_add [OF inv n])
  have "?f \<notin> set (funs w (loopId cn))"
    using D(4) N(1) new_conn_fresh(2) [OF sys_inv_struct [OF inv] n]
    by (auto simp: functors_ok_def functor_ok_def dest!: bspec)
  then have new: "?f \<notin> set (funs ?w (loopId cn))" by (simp add: add_conn_view)
  have c: "connsW ?w (objId cn) = Some cn" by simp
  show ?thesis
  proof (cases "isInLoopThread t (loopsW ?w (loopId cn))")
    case True
    have "inj_on (\<lambda>l. threadId (loopsW w l)) (lids w)" using D(1) by (simp add: loops_ok_def)
    from inj_onD [OF this _ N(1), of ?b] have "loopId cn = ?b"
      using True t by (simp add: isInLoopThread_def lids_def)
    then have "okl (\<lambda>w'. sys_inv K {} w' \<and> step_frame K t ?b w w') (on_conn (objId cn) (connectEstablished K t U) ?w)"
      by (intro okl_mono [OF on_conn_established [OF doc U inv1 c N(5) new, of t t]])
        (auto intro!: sys_inv_drop [of K ?f] intro: step_frame_trans [OF fr])
    then show ?thesis using True by (simp add: run runInLoop_w_def)
  next
    case False
    have "functor_ok ?w (loopId cn) ?f" using N(5) by (simp add: functor_ok_def)
    then have "sys_inv K {} (queue_w K t (loopId cn) ?f ?w)"
      using sys_inv_queue [OF kernel_docD(3) [OF doc] inv1, of "loopId cn" ?f t] new N(1) by (simp add: add_conn_lids [OF n])
    then show ?thesis using False step_frame_trans [OF fr queue_step_frame [OF kernel_docD(3) [OF doc]]]
      by (simp add: run runInLoop_w_def)
  qed
qed

section \<open>Destroying connections\<close>

text \<open>
  Nothing refers to a connection: then it is closed, its channel is out of the poller, and the loop
  has no active channel of it left to handle.
\<close>

lemma unreferenced_closed:
  assumes inv: "sys_inv K {} w" and c: "connsW w c = Some cn" and un: "unreferenced w c"
  shows "stateC cn = kDisconnected" and "\<not> reg (at cn w)" and "c \<notin> set (activeW w (loopId cn))"
proof -
  note D = sys_invD [OF inv] and d = conns_okD [OF sys_invD(2) [OF inv] c]
  have nl: "\<not> listed w cn" using un d(1) by (auto simp: listed_def unreferenced_def)
  then show s: "stateC cn = kDisconnected" using lives_okD(2) [OF D(5) c] by blast
  have "\<not> owed {} w m f" if "functor_conn f = Some c" "m \<in> lids w" for m f
    using un that by (auto simp: owed_def unreferenced_def)
  then have "\<not> owed {} w (srv_base (serverW w)) (RemoveConnectionInLoopF c)" "\<not> owed {} w (loopId cn) (ConnectDestroyedF c)"
    using d(4) by (simp_all add: lids_def)
  then show "\<not> reg (at cn w)" "c \<notin> set (activeW w (loopId cn))"
    using lives_okD(3) [OF D(5) c s] d(1) by auto
qed

lemma release_w_sel:
  assumes "channelP cn = c"
  shows "loopsW (release_w c cn w) = (loopsW w)(loopId cn := (loopsW w (loopId cn))\<lparr>chans := (chans (loopsW w (loopId cn)))(c := None)\<rparr>)"
    and "connsW (release_w c cn w) = (connsW w)(c := None)" and "activeW (release_w c cn w) = activeW w"
    and "runningW (release_w c cn w) = runningW w" and "serverW (release_w c cn w) = serverW w"
    and "lids (release_w c cn w) = lids w" and "funs (release_w c cn w) m = funs w m"
    and "threadId (loopsW (release_w c cn w) m) = threadId (loopsW w m)" and "special (release_w c cn w) m p = special w m p"
    and "wakeupChannel (loopsW (release_w c cn w) m) = wakeupChannel (loopsW w m)" and "listed (release_w c cn w) x = listed w x"
    and "chans (loopsW (release_w c cn w) m) p = (if m = loopId cn \<and> p = c then None else chans (loopsW w m) p)"
  using assms by (simp_all add: release_w_def Let_def lids_def funs_def special_def listed_def)

text \<open>A closed connection whose channel is out of the poller, and that is in no map.\<close>

definition dead :: "'k world \<Rightarrow> nat \<Rightarrow> tcpconn \<Rightarrow> bool" where
  "dead w c cn \<longleftrightarrow> connsW w c = Some cn \<and> \<not> reg (at cn w) \<and> unreferenced w c"

lemma release_w_loop:
  assumes st: "struct_ok K w" and "dead w c cn" and m: "m \<in> lids w"
  shows "loop_ok K (loopsW (release_w c cn w) m)"
proof -
  note D = struct_okD [OF st]
  have c: "connsW w c = Some cn" and r: "\<not> reg (at cn w)" using assms(2) by (simp_all add: dead_def)
  note d = conns_okD [OF D(2) c]
  obtain ch where ch: "chans (loopsW w (loopId cn)) c = Some ch" using conns_ok_chan [OF D(2) c] .
  then have new: "ch_index ch = kNew" using r d(2) by (simp add: reg_def at_def c_chan_def)
  have ok: "loop_ok K (loopsW w (loopId cn))" using loops_okD(3) [OF D(1) d(4)] .
  have "loop_ok K ((loopsW w (loopId cn))\<lparr>chans := (chans (loopsW w (loopId cn)))(c := None)\<rparr>)"
    using reactor_wf_delete [OF loop_okD(1) [OF ok] ch new] loop_okD(2) [OF ok] d(5) loop_okD(3) [OF ok]
    unfolding loop_ok_def by (auto simp: special_def)
  then show ?thesis using loops_okD(3) [OF D(1) m] by (simp add: release_w_sel(1) [OF d(2)])
qed

lemma release_w_other:
  assumes st: "struct_ok K w" and dd: "dead w c cn" and x: "connsW w x = Some dn" and ne: "x \<noteq> c"
  shows "conn_inv K (at dn (release_w c cn w))" and "reg (at dn (release_w c cn w)) = reg (at dn w)"
proof -
  have "channelP cn = c" using conns_okD(2) [OF struct_okD(2) [OF st]] dd by (simp add: dead_def)
  with conn_kept [OF struct_okD(2) [OF st] x, of "release_w c cn w"] ne
    release_w_loop [OF st dd conns_okD(4) [OF struct_okD(2) [OF st] x]]
  show "conn_inv K (at dn (release_w c cn w))" "reg (at dn (release_w c cn w)) = reg (at dn w)"
    by (simp_all add: release_w_sel(12))
qed

lemma release_w_struct:
  assumes st: "struct_ok K w" and dd: "dead w c cn"
  shows "struct_ok K (release_w c cn w)" (is "struct_ok K ?w")
proof -
  note D = struct_okD [OF st]
  have c: "connsW w c = Some cn" and un: "unreferenced w c" using dd by (simp_all add: dead_def)
  note d = conns_okD [OF D(2) c] and sel = release_w_sel [OF conns_okD(2) [OF D(2) c]]
  have "loops_ok K ?w"
    unfolding loops_ok_def sel(5,6,8,9,10)
  proof (intro conjI ballI allI impI)
    show "let b = srv_base (serverW w); a = acceptChannel (srv_acceptor (serverW w)) in
        chans (loopsW ?w b) a \<noteq> None \<and> wakeupChannel (loopsW w b) \<noteq> a"
      using D(1) d(5) unfolding loops_ok_def Let_def sel(12) by (auto simp: special_def)
    fix m assume m: "m \<in> lids w"
    show "loop_ok K (loopsW ?w m)" by (rule release_w_loop [OF st dd m])
    fix p assume "chans (loopsW ?w m) p \<noteq> None"
    then have a: "chans (loopsW w m) p \<noteq> None" "\<not> (m = loopId cn \<and> p = c)" by (auto simp: sel(12) split: if_splits)
    show "p < nextObj (serverW w)" by (rule loops_okD(4) [OF D(1) m a(1)])
    show "special w m p \<or> (\<exists>cn. connsW ?w p = Some cn \<and> loopId cn = m)"
      using loops_okD(5) [OF D(1) m a(1)] a(2) c unfolding sel(2) by auto
  qed (use D(1) in \<open>simp_all add: loops_ok_def\<close>)
  moreover have "conns_ok K ?w"
    unfolding conns_ok_def sel(2,5,6,9) using conns_okD [OF D(2)] release_w_other(1) [OF st dd] by (auto split: if_splits)
  moreover have "names_ok ?w"
    using D(3) un unfolding names_ok_def sel(2,5) by (fastforce simp: unreferenced_def split: if_splits)
  ultimately show ?thesis by (simp add: struct_ok_def)
qed

lemma release_w_inv:
  assumes inv: "sys_inv K {} w" and c: "connsW w c = Some cn" and un: "unreferenced w c"
  shows "sys_inv K {} (release_w c cn w)" (is "sys_inv K {} ?w")
proof -
  note D = sys_invD [OF inv] and st = sys_inv_struct [OF inv] and cl = unreferenced_closed [OF assms]
  note sel = release_w_sel [OF conns_okD(2) [OF D(2) c]]
  have dd: "dead w c cn" using c un cl(2) by (simp add: dead_def)
  have "functors_ok ?w"
    unfolding functors_ok_def sel(6,7)
  proof (intro ballI conjI allI)
    fix m f assume m: "m \<in> lids w" and f: "f \<in> set (funs w m)"
    then have "functor_ok w m f" using D(4) by (simp add: functors_ok_def)
    moreover have "functor_conn f \<noteq> Some c" using un m f by (auto simp: unreferenced_def)
    ultimately show "functor_ok ?w m f" unfolding functor_ok_def sel(2,5) by (auto split: option.splits)
  qed (use D(4) in \<open>simp add: functors_ok_def\<close>)
  moreover have "life {} ?w xn" if "connsW ?w x = Some xn" for x xn
  proof -
    have x: "x \<noteq> c" "connsW w x = Some xn" using that by (auto simp: sel split: if_splits)
    have "life {} w xn" using D(5) x by (simp add: lives_ok_def)
    then show "life {} ?w xn" unfolding life_def sel(3,5,11) release_w_other(2) [OF st dd x(2,1)] owed_def sel(7) .
  qed
  moreover have "active_ok ?w"
    unfolding active_ok_def sel(3,4,6,9)
  proof (intro ballI conjI impI)
    fix m p assume "m \<in> lids w" and p: "p \<in> set (activeW w m)"
    then have "special w m p \<or> (\<exists>xn. connsW w p = Some xn \<and> loopId xn = m \<and> stateC xn \<noteq> kConnecting)"
      using D(6) by (simp add: active_ok_def)
    then show "special w m p \<or> (\<exists>xn. connsW ?w p = Some xn \<and> loopId xn = m \<and> stateC xn \<noteq> kConnecting)"
      using cl(3) p c by (auto simp: sel(2))
  qed (use D(6) in \<open>simp add: active_ok_def\<close>)
  ultimately show ?thesis using release_w_struct [OF st dd] by (simp add: sys_inv_def struct_ok_def lives_ok_def)
qed

end
