(* ===== verification/ServerSteps.thy ===== *)
theory ServerSteps
  imports ServerObjects
begin

text \<open>
  Every step of the running server keeps its invariant, and changes only what belongs to the loop
  whose thread takes it.
\<close>

lemma special_alive:
  assumes inv: "sys_inv K X w" and l: "l \<in> lids w" and p: "special w l p"
  obtains ch where "chans (loopsW w l) p = Some ch"
  using p loops_okD(6) [OF sys_invD(1) [OF inv]] loop_okD(2) [OF loops_okD(3) [OF sys_invD(1) [OF inv] l]]
  by (auto simp: special_def)

text \<open>The one failure beside \<^verbatim>\<open>length_error\<close>: the numbers for connections are used up.\<close>

definition okc :: "'k world \<Rightarrow> ('a \<Rightarrow> bool) \<Rightarrow> 'a result \<Rightarrow> bool" where
  "okc w P r \<longleftrightarrow> okl P r \<or> r = Inl SignedOverflow \<and> int_max \<le> nextConnId (serverW w)"

lemma okc_okl: "okl P r \<Longrightarrow> okc w P r"
  by (simp add: okc_def)

lemma okc_mono: "okc v P r \<Longrightarrow> serverW v = serverW w \<Longrightarrow> (\<And>x. P x \<Longrightarrow> Q x) \<Longrightarrow> okc w Q r"
  using okl_mono [of P r Q] by (auto simp: okc_def)

lemma acceptor_handleRead_inv:
  assumes doc: "kernel_doc K" and U: "user_small U" and inv: "sys_inv K {} w" and acc: "accept_ok w acc"
    and t: "t = threadId (loopsW w (srv_base (serverW w)))"
  shows "okc w (\<lambda>w'. sys_inv K {} w' \<and> step_frame K t (srv_base (serverW w)) w w')
    (bind_r (acceptor_handleRead (fst acc) (newConnection K t U (snd acc)) (srv_acceptor (serverW w)) (w, []))
      (\<lambda>(w', closed). Inr w'))"
proof (cases "fst acc")
  case (AcceptErr e)
  then show ?thesis using inv by (simp add: okc_def acceptor_handleRead_def accept_socket_def)
next
  case (AcceptOk fd a)
  let ?P = "\<lambda>w'. sys_inv K {} w' \<and> step_frame K t (srv_base (serverW w)) w w'"
  have "okc w ?P (bind_r (newConnection K t U (snd acc) fd x w) (\<lambda>s'. Inr s'))" for x
  proof (cases "nextConnId (serverW w) < int_max")
    case True
    have "okl ?P (newConnection K t U (snd acc) fd x w)"
      by (rule newConnection_inv [OF doc U inv _ True t]) (use acc AcceptOk in \<open>simp add: accept_ok_def\<close>)
    then have "okl ?P (bind_r (newConnection K t U (snd acc) fd x w) (\<lambda>s'. Inr s'))" by (rule okl_bind) simp
    then show ?thesis by (rule okc_okl)
  next
    case False
    then have "newConnection K t U (snd acc) fd x w = Inl SignedOverflow"
      by (simp add: newConnection_def Let_def split: prod.splits)
    then show ?thesis using False by (simp add: okc_def)
  qed
  then show ?thesis using AcceptOk inv
    by (simp add: acceptor_handleRead_def accept_socket_def bind_r_assoc okc_okl)
qed

lemma handle_channel_w_inv:
  assumes doc: "kernel_doc K" and U: "user_small U" and inv: "sys_inv K {} w" and l: "l \<in> lids w"
    and acc: "accept_ok w acc" and t: "t = threadId (loopsW w l)"
    and p: "special w l p \<or> (\<exists>cn. connsW w p = Some cn \<and> loopId cn = l \<and> stateC cn \<noteq> kConnecting)"
  shows "okc w (\<lambda>w'. sys_inv K {} w' \<and> step_frame K t l w w') (handle_channel_w K t U acc l p w)"
proof (cases "special w l p")
  case True
  then obtain ch where ch: "chans (loopsW w l) p = Some ch" using special_alive [OF inv l] by blast
  let ?k = "fst (eventfd_read K (kst (loopsW w l)) (wakeupFd (loopsW w l)))"
  let ?w = "w\<lparr>loopsW := (loopsW w)(l := handleReadLoop K (loopsW w l))\<rparr>"
  have "interest K ?k = interest K (kst (loopsW w l))"
    using kernel_docD(3) [OF doc] unfolding eventfd_doc_def by (metis prod.collapse)
  from sys_inv_kst [OF inv l this] have wk: "sys_inv K {} ?w" by (simp add: handleReadLoop_def)
  have "step_frame K t l w ?w" by (simp add: step_frame_def left_alone_def)
  then show ?thesis using ch wk inv True t acceptor_handleRead_inv [OF doc U inv acc, of t]
    by (auto simp: handle_channel_w_def Let_def special_def okc_okl)
next
  case False
  with p obtain cn where c: "connsW w p = Some cn" "loopId cn = l" "stateC cn \<noteq> kConnecting" by blast
  obtain ch where ch: "chans (loopsW w l) p = Some ch" using conns_ok_chan [OF sys_invD(2) [OF inv] c(1)] c(2) by auto
  show ?thesis using run_callbacks_inv [OF doc U inv c(1,3), of t] ch c(2) False
    by (auto simp: handle_channel_w_def Let_def special_def okc_okl)
qed

lemma accept_ok_active [simp]: "accept_ok (w\<lparr>activeW := a\<rparr>) = accept_ok w"
proof -
  have "fresh_fd (w\<lparr>activeW := a\<rparr>) = fresh_fd w" by (simp add: fresh_fd_def lids_def fun_eq_iff)
  then show ?thesis by (auto simp: accept_ok_def fun_eq_iff split: accept_out.splits)
qed

text \<open>The loop whose thread takes a step.\<close>

fun ev_loop :: "sys_event \<Rightarrow> nat option" where
  "ev_loop (PollE l) = Some l"
| "ev_loop (HandleE l acc) = Some l"
| "ev_loop (SwapE l) = Some l"
| "ev_loop (RunE l) = Some l"
| "ev_loop (EndE l) = Some l"
| "ev_loop (UserE t c oper) = None"
| "ev_loop (ShutE t c) = None"
| "ev_loop (QueueE t c f) = None"
| "ev_loop (ReleaseE c) = None"

lemma step_frame_local:
  assumes "\<And>m. threadId (loopsW w' m) = threadId (loopsW w m)" and "serverW w' = serverW w" and "connsW w' = connsW w"
    and "\<And>m. m \<noteq> l \<Longrightarrow> loopsW w' m = loopsW w m \<and> runningW w' m = runningW w m \<and> activeW w' m = activeW w m"
  shows "step_frame K t l w w'"
  using assms by (simp add: step_frame_def left_alone_def)

text \<open>The two steps that run code of the library: handling an active channel, and calling a functor.\<close>

lemma handle_step_inv:
  assumes doc: "kernel_doc K" and U: "user_small U" and inv: "sys_inv K {} w" and l: "l \<in> lids w"
    and acc: "accept_ok w acc" and a: "activeW w l = p # ps" and t: "t = threadId (loopsW w l)"
  shows "okc w (\<lambda>w'. sys_inv K {} w' \<and> step_frame K t l w w')
    (handle_channel_w K t U acc l p (w\<lparr>activeW := (activeW w)(l := ps)\<rparr>))"
proof -
  let ?w = "w\<lparr>activeW := (activeW w)(l := ps)\<rparr>"
  have p: "special w l p \<or> (\<exists>cn. connsW w p = Some cn \<and> loopId cn = l \<and> stateC cn \<noteq> kConnecting)"
    using sys_invD(6) [OF inv] l a by (simp add: active_ok_def)
  have "okc ?w (\<lambda>w'. sys_inv K {} w' \<and> step_frame K t l ?w w') (handle_channel_w K t U acc l p ?w)"
    by (rule handle_channel_w_inv [OF doc U pop_active_inv [OF inv l a]])
      (use l acc t p in \<open>simp_all add: lids_def special_def\<close>)
  moreover have "step_frame K t l w ?w" by (rule step_frame_local) simp_all
  ultimately show ?thesis by (elim okc_mono) (auto intro: step_frame_trans)
qed

lemma run_step_inv:
  assumes doc: "kernel_doc K" and U: "user_small U" and inv: "sys_inv K {} w" and l: "l \<in> lids w"
    and r: "runningW w l = f # fs" and t: "t = threadId (loopsW w l)"
  shows "okl (\<lambda>w'. sys_inv K {} w' \<and> step_frame K t l w w')
    (run_functor_w K t U f (w\<lparr>runningW := (runningW w)(l := fs)\<rparr>))"
proof -
  let ?w = "w\<lparr>runningW := (runningW w)(l := fs)\<rparr>"
  note pop = pop_running_inv [OF inv l r]
  have act: "activeW w l = []" using sys_invD(6) [OF inv] l r by (auto simp: active_ok_def)
  have "okl (\<lambda>w'. sys_inv K {} w' \<and> step_frame K t l ?w w') (run_functor_w K t U f ?w)"
    by (rule run_functor_w_inv [OF doc U pop(1) _ pop(2,3)]) (use l act t in \<open>simp_all add: lids_def\<close>)
  moreover have "step_frame K t l w ?w" by (rule step_frame_local) simp_all
  ultimately show ?thesis by (elim okl_mono) (auto intro: step_frame_trans)
qed

text \<open>The steps of other threads: a whole call, and the two parts of one.\<close>

lemma call_step_inv:
  assumes inv: "sys_inv K {} w" and c: "connsW w c = Some cn"
    and f: "\<And>s :: 'k wview. conn_inv K s \<Longrightarrow> conn s = cn \<Longrightarrow> safe K f s"
  shows "okl (sys_inv K {}) (on_conn c f w)"
proof -
  have "okl (\<lambda>w'. sys_inv K {} w' \<and> later K 0 w w' c cn) (on_conn c f w)" by (rule on_conn_safe [OF inv c f])
  then show ?thesis by (rule okl_mono) simp
qed

lemma user_call_inv:
  assumes doc: "kernel_doc K" and inv: "sys_inv K {} w" and c: "connsW w c = Some cn" and small: "thread_safe_op oper"
  shows "okl (sys_inv K {}) (on_conn c (do_user_op K t oper) w)"
proof (rule call_step_inv [OF inv c])
  have "op_small oper" using small by (cases oper) simp_all
  then show "safe K (do_user_op K t oper) s" if "conn_inv K s" for s :: "'a wview"
    by (rule do_user_op_safe [OF doc that])
qed

lemma queue_call_inv:
  assumes doc: "kernel_doc K" and inv: "sys_inv K {} w" and c: "connsW w c = Some cn"
    and f: "call_functor c f" and st: "stateC cn \<noteq> kConnecting"
  shows "okl (sys_inv K {}) (on_conn c (\<lambda>s. Inr (queue_c K t f s)) w)"
proof (rule call_step_inv [OF inv c])
  have "own_functor (objId cn) f" using f conns_okD(1) [OF sys_invD(2) [OF inv] c] by (cases f) auto
  then show "safe K (\<lambda>s. Inr (queue_c K t f s)) s" if "conn_inv K s" "conn s = cn" for s :: "'a wview"
    using queue_own_good [OF doc that(1)] that(2) st by (simp add: safe_def)
qed

lemma shut_call_inv:
  assumes "sys_inv K {} w" and "connsW w c = Some cn" and "stateC cn \<noteq> kConnecting" and "stateC cn \<noteq> kDisconnected"
  shows "okl (sys_inv K {}) (on_conn c (\<lambda>s. Inr (setState kDisconnecting s)) w)"
  by (rule call_step_inv [OF assms(1,2)]) (use assms(3,4) in \<open>cases "stateC cn"; simp add: safe_def shutdown_assign_good\<close>)

lemma sys_step_inv:
  assumes doc: "kernel_doc K" and U: "user_small U" and inv: "sys_inv K {} w" and step: "sys_step K U ev w = Some r"
    and whole: "\<not> torn w ev"
  shows "okc w (\<lambda>w'. sys_inv K {} w' \<and>
    (\<forall>l. ev_loop ev = Some l \<longrightarrow> step_frame K (threadId (loopsW w l)) l w w')) r"
proof (cases ev)
  case (PollE l)
  with step have "l \<in> lids w" "idle w l" "r = poll_w K l w" by (simp_all add: sys_step_def split: if_splits)
  with poll_w_inv [OF doc inv, of l] obtain w' where w': "r = Inr w'" "sys_inv K {} w'" "poll_w K l w = Inr w'"
    and th: "threadId (loopsW w' m) = threadId (loopsW w m)" for m by auto
  from th have "step_frame K (threadId (loopsW w l)) l w w'"
    by (rule step_frame_local) (use w'(3) in \<open>auto simp: poll_w_def elim!: bind_r_Inr_E\<close>)
  then show ?thesis using w' PollE by (simp add: okc_def)
next
  case (HandleE l acc)
  then show ?thesis using step handle_step_inv [OF doc U inv _ _ _ refl, of l acc]
    by (auto simp: sys_step_def split: if_splits list.splits)
next
  case (SwapE l)
  with step have a: "l \<in> lids w" "idle w l" "r = Inr (swap_w l w)" by (simp_all add: sys_step_def split: if_splits)
  have "step_frame K (threadId (loopsW w l)) l w (swap_w l w)"
    by (rule step_frame_local) (simp_all add: swap_w_def swap_functors_def)
  then show ?thesis using a swap_w_inv [OF inv, of l] SwapE by (simp add: okc_def)
next
  case (RunE l)
  then show ?thesis using step run_step_inv [OF doc U inv _ _ refl, of l]
    by (auto simp: sys_step_def okc_okl split: if_splits list.splits)
next
  case (EndE l)
  with step have a: "l \<in> lids w" "idle w l" "r = Inr (end_w l w)" by (simp_all add: sys_step_def split: if_splits)
  have "step_frame K (threadId (loopsW w l)) l w (end_w l w)"
    by (rule step_frame_local) (simp_all add: end_w_def)
  then show ?thesis using a end_w_inv [OF inv, of l] EndE by (simp add: okc_def)
next
  case (UserE t c oper)
  then show ?thesis using step user_call_inv [OF doc inv, of c _ oper t]
    by (auto simp: sys_step_def split: if_splits intro!: okc_okl elim!: okl_mono)
next
  case (ShutE t c)
  then show ?thesis using step whole shut_call_inv [OF inv, of c]
    by (auto simp: sys_step_def split: if_splits option.splits intro!: okc_okl elim!: okl_mono)
next
  case (QueueE t c f)
  then show ?thesis using step queue_call_inv [OF doc inv, of c _ f t]
    by (auto simp: sys_step_def split: if_splits option.splits intro!: okc_okl elim!: okl_mono)
next
  case (ReleaseE c)
  then show ?thesis using step release_w_inv [OF inv, of c] by (auto simp: sys_step_def okc_def split: if_splits option.splits)
qed

end
