(* ===== verification/ServerRun.thy ===== *)
theory ServerRun
  imports ServerSteps
begin

unbundle bit_operations_syntax

text \<open>
  From the construction of a server to every state it can reach: \<open>boot\<close> is what a program's \<^verbatim>\<open>main\<close>
  does before it enters the base loop, and the properties hold in all states after it.
\<close>

section \<open>Starting the program\<close>

text \<open>The loops the threads of the pool build, one after the other.\<close>

fun build_loops :: "(nat \<Rightarrow> 'l result) \<Rightarrow> nat list \<Rightarrow> (nat \<Rightarrow> 'l) \<Rightarrow> (nat \<Rightarrow> 'l) result" where
  "build_loops mk [] f = Inr f"
| "build_loops mk (i # is) f = bind_r (mk i) (\<lambda>L. build_loops mk is (f(i := L)))"

text \<open>
  \<^verbatim>\<open>main\<close>: the base loop, the server on it, its threads, and \<^verbatim>\<open>start\<close>. Loop \<open>i\<close> runs in thread
  \<open>tids i\<close> with the wake-up descriptor \<open>evfds i\<close> on the fresh epoll instance \<open>ks i\<close> with descriptor \<open>epfds i\<close>; \<open>fd\<close> and \<open>bind_ret\<close>
  are what \<^verbatim>\<open>socket\<close> and \<^verbatim>\<open>bind\<close> return; \<open>ti\<close> and \<open>wc\<close> say whether the program sets the callbacks for
  new threads and for complete writes.
\<close>

definition boot :: "'k kernel \<Rightarrow> (nat \<Rightarrow> int) \<Rightarrow> (nat \<Rightarrow> int) \<Rightarrow> (nat \<Rightarrow> int) \<Rightarrow> (nat \<Rightarrow> 'k) \<Rightarrow> inet_address \<Rightarrow> string \<Rightarrow>
    server_option \<Rightarrow> int \<Rightarrow> int \<Rightarrow> bool \<Rightarrow> bool \<Rightarrow> int \<Rightarrow> 'k world result" where
  "boot K tids epfds evfds ks addr nm reuse fd bind_ret ti wc n =
     (let mk = (\<lambda>i. mk_eventloop K False False (tids i) (epfds i) (evfds i) 0 (ks i)) in
      bind_r (mk 0) (\<lambda>L0.
      bind_r (mk_server (Some 0) addr nm reuse fd bind_ret 1 L0) (\<lambda>(sv, L1).
      bind_r (build_loops mk [1..<Suc (nat n)] (\<lambda>_. L1)) (\<lambda>built.
        server_start K (tids 0) 1 built
          \<lparr>loopsW = (\<lambda>_. L1), connsW = (\<lambda>_. None), activeW = (\<lambda>_. []), runningW = (\<lambda>_. []),
           serverW = setThreadNum n (server_setWriteCompleteCallback wc (setThreadInitCallback ti sv))\<rparr>))))"

text \<open>What the operating system gives the program: distinct threads, open descriptors, fresh epolls.\<close>

definition fresh_resources :: "'k kernel \<Rightarrow> (nat \<Rightarrow> int) \<Rightarrow> (nat \<Rightarrow> int) \<Rightarrow> (nat \<Rightarrow> int) \<Rightarrow> (nat \<Rightarrow> 'k) \<Rightarrow> int \<Rightarrow> bool" where
  "fresh_resources K tids epfds evfds ks fd \<longleftrightarrow> inj tids \<and> (\<forall>i. 0 \<le> epfds i \<and> 0 \<le> evfds i \<and> interest K (ks i) = (\<lambda>_. None)) \<and>
     0 \<le> fd \<and> fd \<noteq> evfds 0"

lemma build_loops_ok:
  assumes "\<And>i. i \<in> set is \<Longrightarrow> \<exists>L. mk i = Inr L"
  shows "\<exists>g. build_loops mk is f = Inr g \<and> (\<forall>i \<in> set is. mk i = Inr (g i)) \<and> (\<forall>i. i \<notin> set is \<longrightarrow> g i = f i)"
  using assms
proof (induction "is" arbitrary: f)
  case (Cons i "is")
  from Cons.prems [of i] obtain L where L: "mk i = Inr L" by auto
  have "\<And>j. j \<in> set is \<Longrightarrow> \<exists>L. mk j = Inr L" using Cons.prems by simp
  from Cons.IH [OF this, of "f(i := L)"] obtain g where
    g: "build_loops mk is (f(i := L)) = Inr g" "\<forall>j \<in> set is. mk j = Inr (g j)" "\<forall>j. j \<notin> set is \<longrightarrow> g j = (f(i := L)) j"
    by blast
  have "mk i = Inr (g i)" using g(2,3) L by (cases "i \<in> set is") auto
  with g L show ?case by (intro exI [of _ g]) auto
qed simp

lemma loop_ok_built:
  assumes "reactor_wf K L" and "wakeupChannel L = p" and "chans L = [p \<mapsto> ch]"
  shows "loop_ok K L"
  using assms by (auto simp: loop_ok_def split: if_splits)

text \<open>A loop as a thread of the pool has built it: only its wake-up channel exists.\<close>

definition built_loop :: "'k kernel \<Rightarrow> int \<Rightarrow> int \<Rightarrow> ('k, functor_t) eventloop \<Rightarrow> bool" where
  "built_loop K t efd L \<longleftrightarrow> loop_ok K L \<and> wakeupChannel L = 0 \<and> threadId L = t \<and> pendingFunctors L = [] \<and>
     \<not> callingPendingFunctors L \<and> (\<exists>ch. chans L = [0 \<mapsto> ch] \<and> ch_fd ch = efd)"

lemma mk_loop_built:
  assumes doc: "epoll_doc K" and res: "fresh_resources K tids epfds evfds ks fd"
  obtains L where "mk_eventloop K False False (tids i) (epfds i) (evfds i) 0 (ks i) = Inr L" and "built_loop K (tids i) (evfds i) L"
proof -
  have r: "0 \<le> evfds i" "interest K (ks i) = (\<lambda>_. None)" "0 \<le> epfds i" using res by (simp_all add: fresh_resources_def)
  let ?c = "(setReadCallback (mk_channel (evfds i)))\<lparr>ch_events := kReadEvent, ch_index := kAdded\<rparr>"
  from mk_eventloop_ok [OF doc r(2,1,3), of "tids i" 0] obtain L :: "('a, functor_t) eventloop" where
    L: "mk_eventloop K False False (tids i) (epfds i) (evfds i) 0 (ks i) = Inr L" "reactor_wf K L" "wakeupChannel L = 0"
      "threadId L = tids i" "pendingFunctors L = []" "\<not> callingPendingFunctors L" "chans L = [0 \<mapsto> ?c]" by blast
  have "ch_fd ?c = evfds i" by (simp add: setReadCallback_def mk_channel_def)
  then have "built_loop K (tids i) (evfds i) L"
    using L(3-7) loop_ok_built [OF L(2,3,7)] unfolding built_loop_def by blast
  with L(1) show thesis by (rule that)
qed

text \<open>A server with its loops and no connection.\<close>

lemma sys_inv_initial:
  assumes w: "connsW w = (\<lambda>_. None)" "activeW w = (\<lambda>_. [])" "runningW w = (\<lambda>_. [])" "connections (serverW w) = (\<lambda>_. None)"
    and pool: "pool_wf (srv_pool (serverW w))" "baseLoop (srv_pool (serverW w)) = srv_base (serverW w)"
    and acc: "chans (loopsW w (srv_base (serverW w))) (acceptChannel (srv_acceptor (serverW w))) \<noteq> None"
      "wakeupChannel (loopsW w (srv_base (serverW w))) \<noteq> acceptChannel (srv_acceptor (serverW w))"
    and thr: "inj_on (\<lambda>l. threadId (loopsW w l)) (lids w)"
    and loop: "\<And>l. l \<in> lids w \<Longrightarrow> loop_ok K (loopsW w l) \<and> pendingFunctors (loopsW w l) = []"
    and chan: "\<And>l q. l \<in> lids w \<Longrightarrow> chans (loopsW w l) q \<noteq> None \<Longrightarrow> q < nextObj (serverW w) \<and> special w l q"
  shows "sys_inv K {} w"
proof -
  have "loops_ok K w" unfolding loops_ok_def Let_def using pool acc thr loop chan by blast
  moreover have "functors_ok w" unfolding functors_ok_def funs_def using loop by (simp add: w)
  ultimately show ?thesis
    by (simp add: sys_inv_def conns_ok_def names_ok_def lives_ok_def active_ok_def w)
qed

text \<open>The state in which \<^verbatim>\<open>start\<close> begins to listen: the threads of the pool run.\<close>

definition pre_listen :: "'k kernel \<Rightarrow> (nat \<Rightarrow> int) \<Rightarrow> int \<Rightarrow> 'k world \<Rightarrow> bool" where
  "pre_listen K tids n w \<longleftrightarrow> connsW w = (\<lambda>_. None) \<and> activeW w = (\<lambda>_. []) \<and> runningW w = (\<lambda>_. []) \<and>
     connections (serverW w) = (\<lambda>_. None) \<and> srv_base (serverW w) = 0 \<and> acceptChannel (srv_acceptor (serverW w)) = 1 \<and>
     nextObj (serverW w) = 2 \<and> srv_started (serverW w) \<and> pool_wf (srv_pool (serverW w)) \<and>
     baseLoop (srv_pool (serverW w)) = 0 \<and> lids w = {0..nat n} \<and> chans (loopsW w 0) 1 \<noteq> None \<and>
     (\<forall>l \<in> {0..nat n}. loop_ok K (loopsW w l) \<and> wakeupChannel (loopsW w l) = 0 \<and> threadId (loopsW w l) = tids l \<and>
        pendingFunctors (loopsW w l) = [] \<and> \<not> callingPendingFunctors (loopsW w l) \<and>
        (\<forall>q. chans (loopsW w l) q \<noteq> None \<longrightarrow> q = 0 \<or> l = 0 \<and> q = 1))"

lemma pre_listen_inv:
  assumes p: "pre_listen K tids n w" and inj: "inj tids"
  shows "sys_inv K {} w"
proof (rule sys_inv_initial)
  have l: "l \<in> lids w \<Longrightarrow> threadId (loopsW w l) = tids l" for l using p by (simp add: pre_listen_def)
  show "inj_on (\<lambda>l. threadId (loopsW w l)) (lids w)" using inj by (simp add: inj_on_def inj_def l)
  show "q < nextObj (serverW w) \<and> special w l q" if "l \<in> lids w" "chans (loopsW w l) q \<noteq> None" for l q
    using p that unfolding pre_listen_def special_def by fastforce
qed (use p in \<open>simp_all add: pre_listen_def\<close>)

text \<open>The server's constructor adds the acceptor's channel to the base loop.\<close>

definition base_ready :: "'k kernel \<Rightarrow> int \<Rightarrow> string \<Rightarrow> server \<Rightarrow> ('k, functor_t) eventloop \<Rightarrow> bool" where
  "base_ready K t nm sv L \<longleftrightarrow> srv_base sv = 0 \<and> acceptChannel (srv_acceptor sv) = 1 \<and> srv_pool sv = mk_pool 0 nm \<and>
     \<not> srv_started sv \<and> connections sv = (\<lambda>_. None) \<and> nextObj sv = 2 \<and>
     loop_ok K L \<and> wakeupChannel L = 0 \<and> threadId L = t \<and> pendingFunctors L = [] \<and> \<not> callingPendingFunctors L \<and>
     dom (chans L) = {0, 1}"

lemma mk_server_ready:
  assumes ok: "built_loop K t efd L0" and fd: "0 \<le> fd" "fd \<noteq> efd"
  obtains sv L1 where "mk_server (Some 0) addr nm reuse fd 0 1 L0 = Inr (sv, L1)" and "base_ready K t nm sv L1"
proof -
  let ?L = "set_chan 1 (setReadCallback (mk_channel fd)) L0"
  have "loop_ok K ?L"
    by (rule loop_ok_new) (use ok fd in \<open>auto simp: built_loop_def setReadCallback_def mk_channel_def kNew_def split: if_splits\<close>)
  moreover have "dom (chans ?L) = {0, 1}" "\<not> callingPendingFunctors ?L" "wakeupChannel ?L = 0" "threadId ?L = t" "pendingFunctors ?L = []"
    using ok by (auto simp: built_loop_def) (simp add: set_chan_def)
  ultimately show thesis using fd(1) that
    by (simp add: mk_server_def CheckLoopNotNull_def mk_acceptor_def createNonblocking_def bindAddress_def setNewConnectionCallback_def base_ready_def)
qed

lemma server_start_listens:
  assumes n: "0 \<le> n" and rd: "base_ready K (tids 0) nm sv L1"
    and g: "\<And>i. 1 \<le> i \<Longrightarrow> i \<le> nat n \<Longrightarrow> \<exists>efd. built_loop K (tids i) efd (g i)"
  obtains w where "server_start K (tids 0) 1 g \<lparr>loopsW = (\<lambda>_. L1), connsW = (\<lambda>_. None), activeW = (\<lambda>_. []),
      runningW = (\<lambda>_. []), serverW = setThreadNum n sv\<rparr> = server_listen K w" and "pre_listen K tids n w"
proof -
  define p where "p = fst (pool_start 1 (srv_threadInit sv) (setThreadNum_pool n (mk_pool 0 nm)))"
  have p: "pool_wf p" "baseLoop p = 0" "loops p = map Suc [0..<nat n]"
    unfolding p_def using pool_start_wf [of "setThreadNum_pool n (mk_pool 0 nm)" 1 "srv_threadInit sv"]
    by (simp_all add: pool_start_def Let_def foldl_start_one setThreadNum_pool_def mk_pool_def)
  define w where "w = \<lparr>loopsW = (\<lambda>i. if 1 \<le> i \<and> i < 1 + nat n then g i else L1), connsW = (\<lambda>_. None),
    activeW = (\<lambda>_. []), runningW = (\<lambda>_. []), serverW = (setThreadNum n sv)\<lparr>srv_started := True, srv_pool := p\<rparr>\<rparr>"
  have "insert 0 (set (map Suc [0..<nat n])) = {0..nat n}"
  proof -
    have "i \<in> Suc ` {0..<nat n}" if "i \<le> nat n" "i \<noteq> 0" for i using that by (cases i) auto
    then show ?thesis by auto
  qed
  then have lids: "lids w = {0..nat n}" using rd by (simp add: lids_def w_def p setThreadNum_def base_ready_def)
  have loop: "loop_ok K (loopsW w l) \<and> wakeupChannel (loopsW w l) = 0 \<and> threadId (loopsW w l) = tids l \<and>
      pendingFunctors (loopsW w l) = [] \<and> \<not> callingPendingFunctors (loopsW w l) \<and>
      (\<forall>q. chans (loopsW w l) q \<noteq> None \<longrightarrow> q = 0 \<or> l = 0 \<and> q = 1)" if "l \<le> nat n" for l
  proof (cases "l = 0")
    case True
    have "q = 0 \<or> q = 1" if "chans L1 q \<noteq> None" for q using rd that domIff [of q "chans L1"] by (simp add: base_ready_def)
    then show ?thesis using rd True by (simp add: w_def base_ready_def)
  next
    case False
    with that g [of l] obtain efd where "built_loop K (tids l) efd (g l)" by auto
    then show ?thesis using that False by (auto simp: w_def built_loop_def split: if_splits)
  qed
  have "chans (loopsW w 0) 1 \<noteq> None" using rd by (auto simp: w_def base_ready_def domIff [symmetric] simp del: domIff)
  then have "pre_listen K tids n w"
    using rd p(1,2) loop unfolding pre_listen_def lids by (simp add: w_def setThreadNum_def base_ready_def)
  moreover have "length (loops p) - length (loops (setThreadNum_pool n (mk_pool 0 nm))) = nat n"
    using p by (simp add: setThreadNum_pool_def mk_pool_def)
  then have "server_start K (tids 0) 1 g \<lparr>loopsW = (\<lambda>_. L1), connsW = (\<lambda>_. None), activeW = (\<lambda>_. []),
      runningW = (\<lambda>_. []), serverW = setThreadNum n sv\<rparr> = server_listen K w"
    using rd p_def by (simp add: server_start_def Let_def runInLoop_w_def isInLoopThread_def setThreadNum_def w_def
        base_ready_def cong: if_cong)
  ultimately show thesis using that by blast
qed

lemma boot_listens:
  assumes doc: "kernel_doc K" and res: "fresh_resources K tids epfds evfds ks fd" and n: "0 \<le> n"
  obtains w where "boot K tids epfds evfds ks addr nm reuse fd 0 ti wc n = server_listen K w" and "pre_listen K tids n w"
proof -
  let ?mk = "\<lambda>i. mk_eventloop K False False (tids i) (epfds i) (evfds i) 0 (ks i) :: ('a, functor_t) eventloop result"
  note mk = mk_loop_built [OF kernel_docD(1) [OF doc] res]
  obtain L0 where L0: "?mk 0 = Inr L0" "built_loop K (tids 0) (evfds 0) L0" using mk [of 0] .
  have "0 \<le> fd" "fd \<noteq> evfds 0" using res by (simp_all add: fresh_resources_def)
  from mk_server_ready [OF L0(2) this] obtain sv L1 where
    sv: "mk_server (Some 0) addr nm reuse fd 0 1 L0 = Inr (sv, L1)" "base_ready K (tids 0) nm sv L1" by blast
  have "\<exists>L. ?mk i = Inr L" for i using mk [of i] by blast
  then obtain g where g: "build_loops ?mk [1..<Suc (nat n)] (\<lambda>_. L1) = Inr g"
    "\<And>i. i \<in> set [1..<Suc (nat n)] \<Longrightarrow> ?mk i = Inr (g i)"
    using build_loops_ok [of "[1..<Suc (nat n)]" ?mk "\<lambda>_. L1"] by blast
  have gi: "\<exists>efd. built_loop K (tids i) efd (g i)" if "1 \<le> i" "i \<le> nat n" for i
    using mk [of i] g(2) [of i] that by (auto simp del: upt_Suc)
  have "base_ready K (tids 0) nm (server_setWriteCompleteCallback wc (setThreadInitCallback ti sv)) L1"
    using sv(2) by (simp add: base_ready_def server_setWriteCompleteCallback_def setThreadInitCallback_def)
  from server_start_listens [where tids = tids, OF n this gi] obtain w where
    "server_start K (tids 0) 1 g \<lparr>loopsW = (\<lambda>_. L1), connsW = (\<lambda>_. None), activeW = (\<lambda>_. []), runningW = (\<lambda>_. []),
      serverW = setThreadNum n (server_setWriteCompleteCallback wc (setThreadInitCallback ti sv))\<rparr> = server_listen K w"
    "pre_listen K tids n w" by blast
  then show thesis using that L0(1) sv(1) g(1) by (simp add: boot_def Let_def)
qed

lemma boot_inv:
  assumes doc: "kernel_doc K" and res: "fresh_resources K tids epfds evfds ks fd" and n: "0 \<le> n"
  shows "\<exists>w. boot K tids epfds evfds ks addr nm reuse fd 0 ti wc n = Inr w \<and> sys_inv K {} w \<and>
    lids w = {0..nat n} \<and> (\<forall>l. idle w l) \<and> (\<forall>l \<in> lids w. \<not> callingPendingFunctors (loopsW w l)) \<and>
    connsW w = (\<lambda>_. None) \<and> connections (serverW w) = (\<lambda>_. None) \<and> srv_started (serverW w) \<and>
    listenning (srv_acceptor (serverW w)) \<and>
    (\<exists>ch. chans (loopsW w 0) (acceptChannel (srv_acceptor (serverW w))) = Some ch \<and> ch_index ch = kAdded \<and>
      ch_events ch AND kReadEvent \<noteq> 0)"
proof -
  obtain w1 where run: "boot K tids epfds evfds ks addr nm reuse fd 0 ti wc n = server_listen K w1" and pre: "pre_listen K tids n w1"
    using boot_listens [OF assms] .
  have inv: "sys_inv K {} w1" by (rule pre_listen_inv [OF pre]) (use res in \<open>simp add: fresh_resources_def\<close>)
  have w1: "srv_base (serverW w1) = 0" "acceptChannel (srv_acceptor (serverW w1)) = 1" "lids w1 = {0..nat n}"
    "activeW w1 = (\<lambda>_. [])" "runningW w1 = (\<lambda>_. [])" "connsW w1 = (\<lambda>_. None)" "connections (serverW w1) = (\<lambda>_. None)"
    "srv_started (serverW w1)" "l \<in> {0..nat n} \<Longrightarrow> \<not> callingPendingFunctors (loopsW w1 l)" for l
    using pre by (simp_all add: pre_listen_def)
  from server_listen_inv [OF doc inv, of 0] obtain w where
    w: "server_listen K w1 = Inr w" "sys_inv K {} w" "activeW w = activeW w1" "runningW w = runningW w1"
      "connsW w = connsW w1" "\<And>m. callingPendingFunctors (loopsW w m) = callingPendingFunctors (loopsW w1 m)"
      "serverW w = (serverW w1)\<lparr>srv_acceptor := (srv_acceptor (serverW w1))\<lparr>listenning := True\<rparr>\<rparr>"
      "\<exists>ch. chans (loopsW w 0) 1 = Some ch \<and> ch_index ch = kAdded \<and> ch_events ch AND kReadEvent \<noteq> 0"
    unfolding w1(1,2) by blast
  have "lids w = lids w1" by (simp add: lids_def w(7))
  then show ?thesis using run w w1 by (intro exI [of _ w]) (simp add: idle_def)
qed

section \<open>Reachable states\<close>

text \<open>The server takes any step, except that no close comes between the test and the assignment of a \<^verbatim>\<open>shutdown\<close>.\<close>

definition sys_next :: "'k kernel \<Rightarrow> user_callbacks \<Rightarrow> 'k world \<Rightarrow> 'k world \<Rightarrow> bool" where
  "sys_next K U w w' \<longleftrightarrow> (\<exists>ev. \<not> torn w ev \<and> sys_step K U ev w = Some (Inr w'))"

definition booted :: "'k kernel \<Rightarrow> 'k world \<Rightarrow> bool" where
  "booted K w \<longleftrightarrow> (\<exists>tids epfds evfds ks addr nm reuse fd ti wc n. fresh_resources K tids epfds evfds ks fd \<and> 0 \<le> n \<and>
     boot K tids epfds evfds ks addr nm reuse fd 0 ti wc n = Inr w)"

lemma booted_inv:
  assumes "kernel_doc K" and "booted K w"
  shows "sys_inv K {} w"
proof -
  from assms(2) obtain tids epfds evfds ks addr nm reuse fd ti wc n where "fresh_resources K tids epfds evfds ks fd" "0 \<le> n"
    and w: "boot K tids epfds evfds ks addr nm reuse fd 0 ti wc n = Inr w" unfolding booted_def by blast
  from boot_inv [OF assms(1) this(1,2), of addr nm reuse ti wc] w show ?thesis by auto
qed

interpretation srv: inductive_invariant "\<lambda>w. kernel_doc K \<and> user_small U \<and> booted K w" "sys_next K U"
  "\<lambda>w. kernel_doc K \<and> user_small U \<and> sys_inv K {} w" for K :: "'k kernel" and U
proof unfold_locales
  show "kernel_doc K \<and> user_small U \<and> sys_inv K {} w" if "kernel_doc K \<and> user_small U \<and> booted K w" for w
    using that booted_inv by blast
  show "kernel_doc K \<and> user_small U \<and> sys_inv K {} w'"
    if "kernel_doc K \<and> user_small U \<and> sys_inv K {} w" "sys_next K U w w'" for w w'
    using that sys_step_inv [of K U w] by (fastforce simp: sys_next_def okc_def)
qed

lemma reach_inv:
  "kernel_doc K \<Longrightarrow> user_small U \<Longrightarrow> booted K w0 \<Longrightarrow> (sys_next K U)\<^sup>*\<^sup>* w0 w \<Longrightarrow> sys_inv K {} w"
  using srv.invar_reachable [of K U w0 w] by blast

section \<open>A sample system\<close>

text \<open>Two loops; a connection that was closed and is referenced by nothing any more.\<close>

definition demo_loop :: "nat \<Rightarrow> (skernel, functor_t) eventloop" where
  "demo_loop i = \<lparr>chans = (if i = 0 then [0 \<mapsto> mk_channel 3, 1 \<mapsto> mk_channel 4] else [0 \<mapsto> mk_channel 5, 2 \<mapsto> mk_channel 7]),
     channelsM = (\<lambda>_. None), eventsSize = kInitEventListSize, kst = sk_init, looping = True, quitF = False,
     threadId = int i + 100, pollReturnTime = 0, wakeupFd = (if i = 0 then 3 else 5), wakeupChannel = 0,
     activeChannels = [], callingPendingFunctors = False, pendingFunctors = []\<rparr>"

definition demo_server :: server where
  "demo_server = \<lparr>srv_base = 0, srv_ipPort = ''0.0.0.0:80'', srv_name = ''srv'',
     srv_acceptor = \<lparr>acceptSocket = mk_socket 4, acceptChannel = 1, listenning = True, hasNewConnectionCallback = True\<rparr>,
     srv_pool = \<lparr>baseLoop = 0, pool_name = ''srv'', pool_started = True, numThreads = 1, next_idx = 0,
       threads = [''srv0''], loops = [1]\<rparr>,
     srv_writeComplete = False, srv_threadInit = False, srv_numThreads = 1, srv_started = True, nextConnId = 2,
     connections = (\<lambda>_. None), nextObj = 3\<rparr>"

definition demo_conn :: tcpconn where
  "demo_conn = sample_conn\<lparr>objId := 2, loopId := 1, connName := conn_name demo_server 1, channelP := 2,
     stateC := kDisconnected\<rparr>"

definition demo_world :: "skernel world" where
  "demo_world = \<lparr>loopsW = demo_loop, connsW = [2 \<mapsto> demo_conn], activeW = (\<lambda>_. []), runningW = (\<lambda>_. []),
     serverW = demo_server\<rparr>"

lemma demo_lids: "lids demo_world = {0, 1}"
  by (auto simp: lids_def demo_world_def demo_server_def)

lemma demo_loop_ok: "loop_ok skern (demo_loop i)"
  by (auto simp: loop_ok_def reactor_wf_def chan_ok_def demo_loop_def mk_channel_def kNew_def sk_init_def split: if_splits)

lemma demo_inv: "sys_inv skern {} demo_world"
proof -
  have ch: "chans (demo_loop 1) 2 = Some (mk_channel 7)" by (simp add: demo_loop_def)
  have c: "conn_inv skern (at demo_conn demo_world)" "\<not> reg (at demo_conn demo_world)"
    using loop_okD(1) [OF demo_loop_ok] loop_ok_free [OF demo_loop_ok ch] ch sample_tcp_inv(1)
    by (simp_all add: conn_inv_def conn_base_def c_chan_def writing_def reg_def at_def demo_world_def demo_conn_def
        sample_conn_def sample_tcp_def isWriting_def mk_channel_def kNew_def)
  have "loops_ok skern demo_world"
    unfolding loops_ok_def Let_def demo_lids using demo_loop_ok
    by (auto simp: demo_world_def demo_server_def pool_wf_def inj_on_def demo_loop_def special_def demo_conn_def split: if_splits)
  moreover have "conns_ok skern demo_world"
    unfolding conns_ok_def demo_lids using c
    by (auto simp: demo_world_def demo_server_def demo_conn_def special_def demo_loop_def sample_conn_def split: if_splits)
  moreover have "names_ok demo_world"
    by (auto simp: names_ok_def demo_world_def demo_conn_def demo_server_def conn_name_def split: if_splits)
  moreover have "functors_ok demo_world"
    unfolding functors_ok_def demo_lids by (auto simp: funs_def demo_world_def demo_loop_def)
  moreover have "lives_ok {} demo_world"
    using c(2) by (auto simp: lives_ok_def life_def Let_def listed_def demo_world_def demo_conn_def demo_server_def split: if_splits)
  moreover have "active_ok demo_world" by (simp add: active_ok_def demo_world_def)
  ultimately show ?thesis by (simp add: sys_inv_def)
qed

definition demo_tids :: "nat \<Rightarrow> int" where "demo_tids i = int i + 100"
definition demo_evfds :: "nat \<Rightarrow> int" where "demo_evfds i = 2 * int i"

lemma demo_resources: "fresh_resources skern demo_tids (\<lambda>_. 5) demo_evfds (\<lambda>_. sk_init) 1"
  by (simp add: fresh_resources_def demo_tids_def demo_evfds_def inj_def sk_init_def)

lemma demo_user: "user_small echo_callbacks"
  by (simp add: user_small_def echo_callbacks_def)

lemma demo_booted:
  obtains w where "booted skern w" and "lids w = {0..nat 2}" and "idle w 0" and "\<not> callingPendingFunctors (loopsW w 0)"
proof -
  have n: "(0 :: int) \<le> 2" by simp
  from boot_inv [OF skern_doc demo_resources n, of "mk_inet 8080 default_ip" "''srv''" kNoReusePort False True] obtain w where
    w: "boot skern demo_tids (\<lambda>_. 5) demo_evfds (\<lambda>_. sk_init) (mk_inet 8080 default_ip) ''srv'' kNoReusePort 1 0 False True 2 = Inr w"
      "lids w = {0..nat 2}" "idle w 0" "\<not> callingPendingFunctors (loopsW w 0)" by auto
  have "booted skern w" unfolding booted_def using demo_resources n w(1) by blast
  then show ?thesis using that w by blast
qed

section \<open>Properties\<close>

text \<open>
  C38: starting a server. On fresh descriptors and epoll instances the base loop, the server, its \<open>n\<close>
  threads with their loops and \<^verbatim>\<open>start\<close> succeed; the loops are those of the base and of the \<open>n\<close> threads,
  there is no connection yet, the acceptor's socket listens and its channel is registered for
  reading with the base loop; a second \<^verbatim>\<open>start\<close> from any thread changes nothing.
\<close>

theorem server_boots:
  assumes "kernel_doc K" and "fresh_resources K tids epfds evfds ks fd" and "0 \<le> n"
  shows "\<exists>w. boot K tids epfds evfds ks addr nm reuse fd 0 ti wc n = Inr w \<and> sys_inv K {} w \<and> lids w = {0..nat n} \<and>
    connections (serverW w) = (\<lambda>_. None) \<and> listenning (srv_acceptor (serverW w)) \<and>
    (\<exists>ch. chans (loopsW w 0) (acceptChannel (srv_acceptor (serverW w))) = Some ch \<and> ch_index ch = kAdded \<and>
      ch_events ch AND kReadEvent \<noteq> 0) \<and>
    server_start K t fresh built w = Inr w"
  using boot_inv [OF assms, of addr nm reuse ti wc] by (auto simp: server_start_def Let_def)

theorem server_boots_witness:
  "\<exists>w. boot skern demo_tids (\<lambda>_. 5) demo_evfds (\<lambda>_. sk_init) (mk_inet 8080 default_ip) ''srv'' kNoReusePort 1 0 False True 2 = Inr w \<and>
     lids w = {0..2} \<and> listenning (srv_acceptor (serverW w))"
proof -
  have "(0 :: int) \<le> 2" by simp
  from server_boots [OF skern_doc demo_resources this, of "mk_inet 8080 default_ip" "''srv''" kNoReusePort False True 0 0 demo_loop]
  show ?thesis by auto
qed

text \<open>
  C1: no step of the running server fails but with \<^verbatim>\<open>length_error\<close>, or when the \<^verbatim>\<open>int\<close> that numbers the
  connections has come to its end. From any start of the program on, with
  any number of loops, whatever the peers and the users do and in whatever order the threads take
  their steps: no pointer to a destroyed connection or channel is followed, nothing is read or
  written outside a buffer, and no \<^verbatim>\<open>epoll_ctl\<close> call is refused, which would end the process. The
  invariant of the system holds in every state. Callbacks of users call operations of their own
  connection (calls on others are steps of their own), and SIGPIPE is taken to be ignored. A call from another thread may be interrupted after
  its test of the connection's state and before the queueing of its functor. One case is excluded:
  that the connection is closed between the test of a \<^verbatim>\<open>shutdown\<close> and its assignment of
  \<^verbatim>\<open>kDisconnecting\<close>, which is a defect of the code.
\<close>

theorem server_memory_safe:
  assumes "kernel_doc K" and "user_small U" and "booted K w0" and "(sys_next K U)\<^sup>*\<^sup>* w0 w"
    and "sys_step K U ev w = Some r" and "\<not> torn w ev"
  shows "sys_inv K {} w \<and> (r = Inl LengthError \<or> r = Inl SignedOverflow \<and> int_max \<le> nextConnId (serverW w) \<or>
    (\<exists>w'. r = Inr w' \<and> sys_inv K {} w'))"
  using reach_inv [OF assms(1-4)] sys_step_inv [OF assms(1,2) _ assms(5,6)] by (cases r) (auto simp: okc_def)

theorem server_memory_safe_witness:
  "\<exists>w w'. booted skern w \<and> sys_step skern echo_callbacks (PollE 0) w = Some (Inr w') \<and> sys_inv skern {} w'"
proof -
  obtain w where w: "booted skern w" "lids w = {0..nat 2}" "idle w 0" "\<not> callingPendingFunctors (loopsW w 0)" by (rule demo_booted)
  from poll_w_inv [OF skern_doc booted_inv [OF skern_doc w(1)] _ w(3)] w(2) obtain w' where "poll_w skern 0 w = Inr w'" by auto
  then have "sys_step skern echo_callbacks (PollE 0) w = Some (Inr w')" using w(2-4) by (simp add: sys_step_def)
  with server_memory_safe [OF skern_doc demo_user w(1) rtranclp.rtrancl_refl this] w(1) show ?thesis by auto
qed

text \<open>
  C6: one loop per thread. A step that the thread of one loop takes (a poll, a handler, a functor)
  leaves every other loop's connections, channels, poller table and kernel interest list as they
  are; at most it queues functors there, behind those already pending. Only the base loop's thread
  changes the server's map of connections. This is for user callbacks that call operations of their own
  connection only.
\<close>

theorem one_loop_per_thread:
  assumes "kernel_doc K" and "user_small U" and "booted K w0" and "(sys_next K U)\<^sup>*\<^sup>* w0 w"
    and "sys_step K U ev w = Some (Inr w')" and "ev_loop ev = Some l" and "l \<in> lids w" and "m \<in> lids w" and "m \<noteq> l"
  shows "threadId (loopsW w m) \<noteq> threadId (loopsW w l) \<and>
    channelsM (loopsW w' m) = channelsM (loopsW w m) \<and>
    interest K (kst (loopsW w' m)) = interest K (kst (loopsW w m)) \<and>
    (\<exists>fs. pendingFunctors (loopsW w' m) = pendingFunctors (loopsW w m) @ fs) \<and>
    (\<forall>c cn. connsW w c = Some cn \<and> loopId cn = m \<longrightarrow> connsW w' c = Some cn \<and>
       chans (loopsW w' m) (channelP cn) = chans (loopsW w m) (channelP cn)) \<and>
    (l \<noteq> srv_base (serverW w) \<longrightarrow> connections (serverW w') = connections (serverW w))"
proof -
  note inv = reach_inv [OF assms(1-4)]
  note D = sys_invD [OF inv]
  have "\<not> torn w ev" using assms(6) by (cases ev) simp_all
  then have f: "step_frame K (threadId (loopsW w l)) l w w'" using sys_step_inv [OF assms(1,2) inv assms(5)] assms(6) by (simp add: okc_def)
  have inj: "inj_on (\<lambda>l. threadId (loopsW w l)) (lids w)" using D(1) by (simp add: loops_ok_def)
  have b: "srv_base (serverW w) \<in> lids w" by (simp add: lids_def)
  have la: "left_alone K m w w'" using f assms(9) by (simp add: step_frame_def)
  have "chans (loopsW w' m) (channelP cn) = chans (loopsW w m) (channelP cn)" if c: "connsW w c = Some cn" "loopId cn = m" for c cn
  proof -
    obtain ch where "chans (loopsW w m) c = Some ch" using conns_ok_chan [OF D(2) c(1)] c(2) by auto
    then show ?thesis using la conns_okD(2) [OF D(2) c(1)] by (simp add: left_alone_def)
  qed
  moreover have "threadId (loopsW w m) \<noteq> threadId (loopsW w l)" using inj assms(7-9) by (auto dest: inj_onD)
  moreover have "connections (serverW w') = connections (serverW w)" if "l \<noteq> srv_base (serverW w)"
    using f that inj assms(7) b by (auto simp: step_frame_def dest: inj_onD)
  ultimately show ?thesis using la unfolding left_alone_def by blast
qed

theorem one_loop_per_thread_witness:
  "\<exists>w w'. booted skern w \<and> sys_step skern echo_callbacks (SwapE 0) w = Some (Inr w') \<and>
     channelsM (loopsW w' 1) = channelsM (loopsW w 1)"
proof -
  obtain w where w: "booted skern w" "lids w = {0..nat 2}" "idle w 0" "\<not> callingPendingFunctors (loopsW w 0)" by (rule demo_booted)
  then have s: "sys_step skern echo_callbacks (SwapE 0) w = Some (Inr (swap_w 0 w))" by (simp add: sys_step_def)
  have "ev_loop (SwapE 0) = Some 0" "0 \<in> lids w" "1 \<in> lids w" "(1 :: nat) \<noteq> 0" using w(2) by simp_all
  from one_loop_per_thread [OF skern_doc demo_user w(1) rtranclp.rtrancl_refl s this] s w(1) show ?thesis by blast
qed

end
