(* ===== verification/ServerDispatch.thy ===== *)
theory ServerDispatch
  imports ServerRun
begin

text \<open>
  What \<^verbatim>\<open>TcpServer::newConnection\<close> does, call by call, in any state of the running server.
\<close>

text \<open>
  C7: accepting a connection for a loop of another thread, as long as the \<^verbatim>\<open>int\<close> that numbers the
  connections does not overflow. \<^verbatim>\<open>newConnection\<close> takes the next loop of the
  pool and builds one new connection object for it, in state \<^verbatim>\<open>kConnecting\<close>, with the descriptor and
  the peer's address it was given, the local address \<^verbatim>\<open>getsockname\<close> returned (zero if it failed), keep-alive set, and a name no connection has; it enters it in the map
  under that name, queues exactly one call of \<^verbatim>\<open>connectEstablished\<close> behind the functors pending in that
  loop and wakes the loop. No other connection, and nothing the loop's kernel watches, changes.
\<close>

theorem newConnection_dispatches:
  assumes "kernel_doc K" and "sys_inv K {} w" and "t = threadId (loopsW w (srv_base (serverW w)))"
    and "getNextLoop (srv_pool (serverW w)) = (l, po)" and "l \<noteq> srv_base (serverW w)"
    and "nextConnId (serverW w) < int_max" and "c = nextObj (serverW w)" and "nm = conn_name (serverW w) (nextConnId (serverW w))"
  shows "\<exists>w' cn. newConnection K t U lo fd peer w = Inr w' \<and> connsW w c = None \<and> connsW w' = (connsW w)(c \<mapsto> cn) \<and>
    stateC cn = kConnecting \<and> loopId cn = l \<and> socketFd cn = fd \<and> peerAddr cn = peer \<and>
    localAddr cn = (case lo of None \<Rightarrow> \<lparr>sin_port = 0, sin_addr = [0, 0, 0, 0]\<rparr> | Some a \<Rightarrow> a) \<and>
    sockopts (socketC cn) SO_KEEPALIVE = Some 1 \<and> connName cn = nm \<and>
    hasWriteComplete cn = srv_writeComplete (serverW w) \<and>
    content (inputBuffer cn) = [] \<and> content (outputBuffer cn) = [] \<and>
    (\<forall>d dn. connsW w d = Some dn \<longrightarrow> connName dn \<noteq> nm) \<and>
    connections (serverW w') = (connections (serverW w))(nm \<mapsto> c) \<and> srv_pool (serverW w') = po \<and>
    pendingFunctors (loopsW w' l) = pendingFunctors (loopsW w l) @ [ConnectEstablishedF c] \<and>
    woken K (loopsW w' l) \<and> interest K (kst (loopsW w' l)) = interest K (kst (loopsW w l))"
proof -
  note D = sys_invD [OF assms(2)]
  let ?sv = "serverW w"
  note ev = kernel_docD(3) [OF assms(1)]
  have "l \<in> lids w"
    using getNextLoop_sel(4) [OF loops_okD(1) [OF D(1)]] loops_okD(2) [OF D(1)] assms(4) by (simp add: lids_def)
  moreover have "inj_on (\<lambda>l. threadId (loopsW w l)) (lids w)" using D(1) by (simp add: loops_ok_def)
  moreover have "srv_base ?sv \<in> lids w" by (simp add: lids_def)
  ultimately have t: "threadId (loopsW w l) \<noteq> t" using assms(3,5) by (auto dest: inj_onD)
  have noconn: "connsW w c = None" using conns_okD(3) [OF D(2), of c] assms(7) by (cases "connsW w c") auto
  have names: "connName dn \<noteq> nm" if "connsW w d = Some dn" for d dn
    using names_okD(2) [OF D(3) that] by (auto simp: assms(8))
  obtain b where b: "content b = []" and run: "\<And>cn. cn = built_conn (serverW w) l lo fd peer b \<Longrightarrow>
      newConnection K t U lo fd peer w = runInLoop_w K t l (ConnectEstablishedF (objId cn))
        (on_conn (objId cn) (connectEstablished K t U)) (add_conn po cn (built_channel fd) w)"
    using newConnection_run [OF assms(4,6)] by metis
  define cn where "cn = built_conn ?sv l lo fd peer b"
  let ?w = "add_conn po cn (built_channel fd) w"
  have cn: "objId cn = c" "stateC cn = kConnecting" "loopId cn = l" "socketFd cn = fd" "peerAddr cn = peer" "connName cn = nm"
    "localAddr cn = (case lo of None \<Rightarrow> \<lparr>sin_port = 0, sin_addr = [0, 0, 0, 0]\<rparr> | Some a \<Rightarrow> a)"
    "hasWriteComplete cn = srv_writeComplete ?sv" "content (inputBuffer cn) = []" "content (outputBuffer cn) = []"
    "sockopts (socketC cn) SO_KEEPALIVE = Some 1"
    using b by (simp_all add: cn_def built_conn_def setKeepAlive_def setsockopt_def assms(7,8))
  have "newConnection K t U lo fd peer w = Inr (queue_w K t l (ConnectEstablishedF c) ?w)"
    using run [OF cn_def] t by (simp add: cn(1,3) runInLoop_w_def isInLoopThread_def)
  moreover have "woken K (queueInLoop K t (ConnectEstablishedF c) (loopsW ?w l))"
    by (rule woken_queueInLoop [OF ev]) (use t in \<open>simp add: cn(3) isInLoopThread_def\<close>)
  moreover have "kst (loopsW ?w l) = kst (loopsW w l)" by (simp add: set_chan_def)
  ultimately show ?thesis using noconn names cn
    by (intro exI [of _ "queue_w K t l (ConnectEstablishedF c) ?w"] exI [of _ cn]) (simp add: queue_view [OF ev])
qed

theorem newConnection_dispatches_witness:
  "\<exists>w' cn. newConnection skern 100 echo_callbacks None 9 (mk_inet 5000 default_ip) demo_world = Inr w' \<and>
     connsW w' 3 = Some cn \<and> loopId cn = 1 \<and> connName cn = ''srv-0.0.0.0:80#2'' \<and>
     pendingFunctors (loopsW w' 1) = [ConnectEstablishedF 3] \<and> woken skern (loopsW w' 1)"
proof -
  let ?po = "(srv_pool demo_server)\<lparr>next_idx := 0\<rparr>"
  have h: "100 = threadId (loopsW demo_world (srv_base (serverW demo_world)))"
    "getNextLoop (srv_pool (serverW demo_world)) = (1, ?po)" "1 \<noteq> srv_base (serverW demo_world)"
    "nextConnId (serverW demo_world) < int_max" "3 = nextObj (serverW demo_world)"
    "pendingFunctors (loopsW demo_world 1) = []"
    by (simp_all add: demo_world_def demo_server_def demo_loop_def getNextLoop_def int_max_def)
  have nm: "''srv-0.0.0.0:80#2'' = conn_name (serverW demo_world) (nextConnId (serverW demo_world))" by code_simp
  from newConnection_dispatches [OF skern_doc demo_inv h(1-5) nm, of echo_callbacks None 9 "mk_inet 5000 default_ip"]
  obtain w' cn where "newConnection skern 100 echo_callbacks None 9 (mk_inet 5000 default_ip) demo_world = Inr w'"
    "connsW w' = (connsW demo_world)(3 \<mapsto> cn)" "loopId cn = 1" "connName cn = ''srv-0.0.0.0:80#2''"
    "pendingFunctors (loopsW w' 1) = pendingFunctors (loopsW demo_world 1) @ [ConnectEstablishedF 3]"
    "woken skern (loopsW w' 1)" by blast
  then show ?thesis using h(6) by simp
qed

end
