(* ===== verification/ServerLife.thy ===== *)
theory ServerLife
  imports ServerRun
begin

text \<open>
  The life of a connection in the running server: from \<^verbatim>\<open>newConnection\<close> over \<^verbatim>\<open>connectEstablished\<close>,
  \<^verbatim>\<open>handleClose\<close>, \<^verbatim>\<open>removeConnection\<close> and \<^verbatim>\<open>connectDestroyed\<close> to the destructor of the object. The properties
  hold in all states the server reaches; a concrete run in which a client connects and leaves again
  shows that they speak about real states.
\<close>

section \<open>Steps whose guard holds\<close>

lemma step_poll:
  assumes "(sys_next K U)\<^sup>*\<^sup>* w0 w" and "l \<in> lids w" and "idle w l" and "\<not> callingPendingFunctors (loopsW w l)"
    and "poll_w K l w = Inr w'"
  shows "(sys_next K U)\<^sup>*\<^sup>* w0 w'"
  using assms(1) by (rule rtranclp.rtrancl_into_rtrancl)
    (auto simp: sys_next_def sys_step_def assms(2-5) intro!: exI [of _ "PollE l"])

lemma step_swap:
  assumes "(sys_next K U)\<^sup>*\<^sup>* w0 w" and "l \<in> lids w" and "idle w l" and "\<not> callingPendingFunctors (loopsW w l)"
  shows "(sys_next K U)\<^sup>*\<^sup>* w0 (swap_w l w)"
  using assms(1) by (rule rtranclp.rtrancl_into_rtrancl)
    (auto simp: sys_next_def sys_step_def assms(2-4) intro!: exI [of _ "SwapE l"])

lemma step_end:
  assumes "(sys_next K U)\<^sup>*\<^sup>* w0 w" and "l \<in> lids w" and "idle w l" and "callingPendingFunctors (loopsW w l)"
  shows "(sys_next K U)\<^sup>*\<^sup>* w0 (end_w l w)"
  using assms(1) by (rule rtranclp.rtrancl_into_rtrancl)
    (auto simp: sys_next_def sys_step_def assms(2-4) intro!: exI [of _ "EndE l"])

lemma step_run:
  assumes "(sys_next K U)\<^sup>*\<^sup>* w0 w" and "l \<in> lids w" and "runningW w l = f # fs"
    and "run_functor_w K (threadId (loopsW w l)) U f (w\<lparr>runningW := (runningW w)(l := fs)\<rparr>) = Inr w'"
  shows "(sys_next K U)\<^sup>*\<^sup>* w0 w'"
  using assms(1) by (rule rtranclp.rtrancl_into_rtrancl)
    (auto simp: sys_next_def sys_step_def assms(2-4) intro!: exI [of _ "RunE l"])

lemma step_handle:
  assumes "(sys_next K U)\<^sup>*\<^sup>* w0 w" and "l \<in> lids w" and "activeW w l = p # ps" and "accept_ok w acc"
    and "handle_channel_w K (threadId (loopsW w l)) U acc l p (w\<lparr>activeW := (activeW w)(l := ps)\<rparr>) = Inr w'"
  shows "(sys_next K U)\<^sup>*\<^sup>* w0 w'"
  using assms(1) by (rule rtranclp.rtrancl_into_rtrancl)
    (auto simp: sys_next_def sys_step_def assms(2-5) intro!: exI [of _ "HandleE l acc"])

section \<open>A client connects and leaves\<close>

text \<open>
  A server with no threads of its own on a kernel that reports the listening socket and the first
  connection as readable as soon as they are registered; there is nothing to read on the connection,
  which is how the kernel reports that the peer has closed it.
\<close>

definition trace_ks :: "nat \<Rightarrow> skernel" where
  "trace_ks i = sk_init\<lparr>sk_ready := [(EPOLLIN, 1), (EPOLLIN, 2)], sk_inbox := []\<rparr>"

definition trace_start :: "skernel world result" where
  "trace_start = boot skern demo_tids (\<lambda>_. 5) (\<lambda>i. 10 + int i) trace_ks (mk_inet 8080 default_ip) ''srv'' kNoReusePort 1 0 False False 0"


text \<open>What the run needs to know about the state of the base loop and the server.\<close>

definition trace_base :: "skernel world \<Rightarrow> nat list \<Rightarrow> bool \<Rightarrow> functor_t list \<Rightarrow> functor_t list \<Rightarrow> bool" where
  "trace_base w act calling run pend \<longleftrightarrow> activeW w 0 = act \<and> runningW w 0 = run \<and>
     loops (srv_pool (serverW w)) = [] \<and> baseLoop (srv_pool (serverW w)) = 0 \<and> srv_base (serverW w) = 0 \<and>
     acceptChannel (srv_acceptor (serverW w)) = 1 \<and> hasNewConnectionCallback (srv_acceptor (serverW w)) \<and>
     threadId (loopsW w 0) = 100 \<and> wakeupChannel (loopsW w 0) = 0 \<and> eventsSize (loopsW w 0) = 16 \<and>
     callingPendingFunctors (loopsW w 0) = calling \<and> pendingFunctors (loopsW w 0) = pend \<and>
     sk_ready (kst (loopsW w 0)) = [(EPOLLIN, 1), (EPOLLIN, 2)] \<and> sk_inbox (kst (loopsW w 0)) = [] \<and>
     sk_interest (kst (loopsW w 0)) 1 = Some (kReadEvent, 1) \<and>
     (\<exists>ch. chans (loopsW w 0) 1 = Some ch \<and> \<not> ch_tied ch \<and> readCallback ch \<and> ch_fd ch = 1)"

lemma trace_start_facts:
  "case trace_start of Inl e \<Rightarrow> False | Inr w \<Rightarrow> activeW w 0 = [] \<and> runningW w 0 = [] \<and>
     loops (srv_pool (serverW w)) = [] \<and> baseLoop (srv_pool (serverW w)) = 0 \<and> srv_base (serverW w) = 0 \<and>
     acceptChannel (srv_acceptor (serverW w)) = 1 \<and> hasNewConnectionCallback (srv_acceptor (serverW w))"
  "case trace_start of Inl e \<Rightarrow> False | Inr w \<Rightarrow> threadId (loopsW w 0) = 100 \<and> wakeupChannel (loopsW w 0) = 0 \<and>
     eventsSize (loopsW w 0) = 16 \<and> \<not> callingPendingFunctors (loopsW w 0) \<and> pendingFunctors (loopsW w 0) = []"
  "case trace_start of Inl e \<Rightarrow> False | Inr w \<Rightarrow> sk_ready (kst (loopsW w 0)) = [(EPOLLIN, 1), (EPOLLIN, 2)] \<and>
     sk_inbox (kst (loopsW w 0)) = [] \<and> sk_interest (kst (loopsW w 0)) 1 = Some (kReadEvent, 1) \<and>
     sk_interest (kst (loopsW w 0)) 2 = None"
  "case trace_start of Inl e \<Rightarrow> False | Inr w \<Rightarrow> nextObj (serverW w) = 2 \<and> nextConnId (serverW w) < int_max \<and> chans (loopsW w 0) 2 = None \<and>
    map_option ch_fd (chans (loopsW w 0) 0) = Some 10 \<and>
    map_option (\<lambda>ch. (ch_tied ch, readCallback ch, ch_fd ch)) (chans (loopsW w 0) 1) = Some (False, True, 1)"
  by code_simp+

lemma trace_start_ok:
  obtains w where "trace_start = Inr w" and "trace_base w [] False [] []" and "sk_interest (kst (loopsW w 0)) 2 = None"
    and "nextObj (serverW w) = 2" and "chans (loopsW w 0) 2 = None" and "map_option ch_fd (chans (loopsW w 0) 0) = Some 10"
    and "nextConnId (serverW w) < int_max"
proof -
  from trace_start_facts(1) obtain w where w: "trace_start = Inr w" by (auto split: sum.splits)
  show ?thesis using trace_start_facts [unfolded w] by (intro that [OF w]) (auto simp: trace_base_def)
qed


definition trace_buffer :: buffer where
  "trace_buffer = \<lparr>bufferV = replicate 1032 (CHR 0x00), readerIndex = 8, writerIndex = 8\<rparr>"

lemma trace_buffer [simp]: "mk_buffer kInitialSize = Inr trace_buffer"
  "readFd (\<lambda>_. ReadOk []) trace_buffer = Inr (trace_buffer, 0, None)"
  by (simp_all add: mk_buffer_def kInitialSize_def kCheapPrepend_def sz_add_def vec_new_def vec_max_size_def
      trace_buffer_def readFd_def vec_write_def Let_def flip: replicate_add)

text \<open>The connection with its channel, watched for reading.\<close>

definition trace_conn :: "skernel world \<Rightarrow> bool" where
  "trace_conn w \<longleftrightarrow> (\<exists>cn ch. connsW w 2 = Some cn \<and> objId cn = 2 \<and> loopId cn = 0 \<and> channelP cn = 2 \<and>
     socketFd cn = 2 \<and> stateC cn = kConnected \<and> inputBuffer cn = trace_buffer \<and>
     chans (loopsW w 0) 2 = Some ch \<and> ch_fd ch = 2 \<and> ch_tied ch \<and> ch_tie ch = Some 2 \<and> readCallback ch \<and>
     ch_index ch = kAdded \<and> sk_interest (kst (loopsW w 0)) 2 = Some (kReadEvent, 2))"

lemma trace_poll:
  assumes "trace_base w [] False [] pend"
  shows "sk_interest (kst (loopsW w 0)) 2 = None \<Longrightarrow> \<exists>w'. poll_w skern 0 w = Inr w' \<and> trace_base w' [1] False [] pend \<and>
      serverW w' = serverW w \<and>
      sk_interest (kst (loopsW w' 0)) 2 = None \<and> chans (loopsW w' 0) 2 = chans (loopsW w 0) 2 \<and>
      map_option ch_fd (chans (loopsW w' 0) 0) = map_option ch_fd (chans (loopsW w 0) 0) \<and>
      (\<exists>ch. chans (loopsW w' 0) 1 = Some ch \<and> ch_revents ch = EPOLLIN)"
    and "trace_conn w \<Longrightarrow> \<exists>w'. poll_w skern 0 w = Inr w' \<and> trace_base w' [1, 2] False [] pend \<and> trace_conn w' \<and>
      (\<exists>ch. chans (loopsW w' 0) 2 = Some ch \<and> ch_revents ch = EPOLLIN)"

proof -
  from assms obtain ch where b: "activeW w 0 = []" "runningW w 0 = []" "eventsSize (loopsW w 0) = 16"
     "sk_ready (kst (loopsW w 0)) = [(EPOLLIN, 1), (EPOLLIN, 2)]"  "sk_interest (kst (loopsW w 0)) 1 = Some (kReadEvent, 1)"
     "chans (loopsW w 0) 1 = Some ch" "\<not> ch_tied ch" "readCallback ch" "ch_fd ch = 1"
    unfolding trace_base_def by blast
  note p = poll_w_def poll_def sk_wait_def Let_def
  show "\<exists>w'. poll_w skern 0 w = Inr w' \<and> trace_base w' [1] False [] pend \<and>
      serverW w' = serverW w \<and>
      sk_interest (kst (loopsW w' 0)) 2 = None \<and> chans (loopsW w' 0) 2 = chans (loopsW w 0) 2 \<and>
      map_option ch_fd (chans (loopsW w' 0) 0) = map_option ch_fd (chans (loopsW w 0) 0) \<and>
      (\<exists>ch. chans (loopsW w' 0) 1 = Some ch \<and> ch_revents ch = EPOLLIN)" if "sk_interest (kst (loopsW w 0)) 2 = None"
   using b that assms by (simp add: p) (simp add: trace_base_def set_chan_def)
  show "\<exists>w'. poll_w skern 0 w = Inr w' \<and> trace_base w' [1, 2] False [] pend \<and> trace_conn w' \<and>
      (\<exists>ch. chans (loopsW w' 0) 2 = Some ch \<and> ch_revents ch = EPOLLIN)" if tc: "trace_conn w"
   using tc b assms by (auto simp: p trace_conn_def) (simp_all add: trace_base_def set_chan_def)
qed

definition trace_client :: "accept_out \<times> inet_address option" where
  "trace_client = (AcceptOk 2 (mk_inet 4000 ''10.0.0.7''), Some (mk_inet 8080 ''10.0.0.1''))"

lemmas trace_defs = runInLoop_w_def isInLoopThread_def view_def unview_def on_conn_def user_def echo_callbacks_def
  set_index_def set_events_def updateChannel_def update_def sk_ctl_def isNoneEvent_def set_chan_def on_loop_def chan_of_def
  setState_def event_bits

lemma bind_r_right [simp]: "bind_r r Inr = r"
  by (cases r) simp_all

lemma run_each_none [simp]: "run_each f [] = Inr"
  by (simp add: fun_eq_iff)

lemma run_callback_read: "run_callback K t U cb ReadCallback = handleRead K t U cb"
  by (simp add: fun_eq_iff run_callback_def)

lemma trace_accept:
  assumes b: "trace_base w [1] False [] []" and fresh: "nextObj (serverW w) = 2" "chans (loopsW w 0) 2 = None"
      "sk_interest (kst (loopsW w 0)) 2 = None" "nextConnId (serverW w) < int_max"
    and ch: "chans (loopsW w 0) 1 = Some ch" "ch_revents ch = EPOLLIN"
  shows "\<exists>w'. handle_channel_w skern 100 echo_callbacks trace_client 0 1 (w\<lparr>activeW := (activeW w)(0 := [])\<rparr>) = Inr w' \<and>
    trace_base w' [] False [] [] \<and> trace_conn w' \<and> connections (serverW w') = (connections (serverW w))(conn_name (serverW w) (nextConnId (serverW w)) \<mapsto> 2)"
proof -
  let ?w = "w\<lparr>activeW := (activeW w)(0 := [])\<rparr>"
  have t: "\<not> ch_tied ch" "readCallback ch" "ch_fd ch = 1" using b ch by (auto simp: trace_base_def)
  have cb: "handleEvent alive ch = [ReadCallback]" for alive
    using t ch(2) by (simp add: handleEvent_def handleEventWithGuard_def event_bits)
  have "handle_channel_w skern 100 echo_callbacks trace_client 0 1 ?w =
      newConnection skern 100 echo_callbacks (snd trace_client) 2 (mk_inet 4000 ''10.0.0.7'') ?w"
    using b ch cb by (simp add: handle_channel_w_def trace_base_def acceptor_handleRead_def accept_socket_def trace_client_def
      setSockAddr_def bind_r_assoc Let_def)
  moreover have "\<exists>w'. newConnection skern 100 echo_callbacks (snd trace_client) 2 (mk_inet 4000 ''10.0.0.7'') ?w = Inr w' \<and>
    trace_base w' [] False [] [] \<and> trace_conn w' \<and> connections (serverW w') = (connections (serverW w))(conn_name (serverW w) (nextConnId (serverW w)) \<mapsto> 2)"
    using b fresh by (simp add: newConnection_def trace_base_def getNextLoop_def mk_tcpconn_def CheckLoopNotNull_def Let_def trace_defs
      connectEstablished_def enableReading_def mk_channel_def setReadCallback_def setWriteCallback_def setCloseCallback_def
      setErrorCallback_def tie_def index_defs enableReading_ev_def setWriteCompleteCallback_def mk_socket_def setKeepAlive_def
      setsockopt_def trace_conn_def)
  ultimately show ?thesis by simp
qed

lemma trace_close:
  assumes b: "trace_base w [2] False [] []" and c: "trace_conn w"
    and ch: "chans (loopsW w 0) 2 = Some ch" "ch_revents ch = EPOLLIN"
  shows "\<exists>w' cn. handle_channel_w skern 100 echo_callbacks acc 0 2 (w\<lparr>activeW := (activeW w)(0 := [])\<rparr>) = Inr w' \<and>
    trace_base w' [] False [] [ConnectDestroyedF 2] \<and> connsW w' 2 = Some cn \<and> loopId cn = 0 \<and> objId cn = 2 \<and> channelP cn = 2 \<and>
    stateC cn = kDisconnected \<and> connections (serverW w') (connName cn) = None \<and>
    (\<exists>ch. chans (loopsW w' 0) 2 = Some ch \<and> ch_index ch \<noteq> kAdded)"
proof -
  let ?w = "w\<lparr>activeW := (activeW w)(0 := [])\<rparr>"
  obtain cn where cn: "connsW w 2 = Some cn" "objId cn = 2" "loopId cn = 0" "channelP cn = 2" "socketFd cn = 2"
     "stateC cn = kConnected" "inputBuffer cn = trace_buffer" "ch_fd ch = 2" "ch_tied ch" "ch_tie ch = Some 2" "readCallback ch"
     "ch_index ch = kAdded" "sk_interest (kst (loopsW w 0)) 2 = Some (kReadEvent, 2)"
    using c ch(1) by (auto simp: trace_conn_def)
  have cb: "handleEvent (\<lambda>obj. connsW w obj \<noteq> None) ch = [ReadCallback]"
    using cn ch(2) by (simp add: handleEvent_def handleEventWithGuard_def event_bits)
  have "handle_channel_w skern 100 echo_callbacks acc 0 2 ?w =
      on_conn 2 (handleRead skern 100 echo_callbacks (close_cb skern 100)) ?w"
    using b ch cb by (simp add: handle_channel_w_def trace_base_def Let_def run_callback_read)
  then show ?thesis
    using b cn ch by (simp add: trace_base_def handleRead_def handleClose_def disableAll_def close_cb_def
      removeConnection_def removeConnectionInLoop_def queue_w_def queueInLoop_def push_functor_def Let_def trace_defs index_defs)
qed

lemma trace_destroy:
  assumes b: "trace_base w [] True [ConnectDestroyedF 2] []" and cn: "connsW w 2 = Some cn" "loopId cn = 0" "objId cn = 2"
      "channelP cn = 2" "stateC cn = kDisconnected" and n: "connections (serverW w) (connName cn) = None"
    and ch: "chans (loopsW w 0) 2 = Some ch" "ch_index ch \<noteq> kAdded"
  shows "\<exists>w'. run_functor_w skern 100 echo_callbacks (ConnectDestroyedF 2) (w\<lparr>runningW := (runningW w)(0 := [])\<rparr>) = Inr w' \<and>
    trace_base w' [] True [] [] \<and> connsW w' 2 = Some cn \<and> connections (serverW w') (connName cn) = None"
  using assms by (simp add: trace_base_def run_functor_w_def run_functor_def connectDestroyed_def removeChannel_def trace_defs Let_def)

lemma trace_skip:
  assumes b: "trace_base w [1, 2] False [] []" and c: "trace_conn w"
    and ch: "chans (loopsW w 0) 2 = Some ch" "ch_revents ch = EPOLLIN"
  shows "\<exists>w'. handle_channel_w skern 100 echo_callbacks (AcceptErr 11, None) 0 1 (w\<lparr>activeW := (activeW w)(0 := [2])\<rparr>) = Inr w' \<and>
    trace_base w' [2] False [] [] \<and> trace_conn w' \<and> (\<exists>ch. chans (loopsW w' 0) 2 = Some ch \<and> ch_revents ch = EPOLLIN)"
proof -
  let ?w = "w\<lparr>activeW := (activeW w)(0 := [2])\<rparr>"
  have "handle_channel_w skern 100 echo_callbacks (AcceptErr 11, None) 0 1 ?w = Inr ?w"
    using b by (auto simp: handle_channel_w_def trace_base_def acceptor_handleRead_def accept_socket_def)
  then show ?thesis using b c ch by (auto simp: trace_base_def trace_conn_def)
qed

lemma trace_lids: "trace_base w act cl run pend \<Longrightarrow> lids w = {0}"
  by (simp add: trace_base_def lids_def)

lemma trace_swap:
  assumes "trace_base w [] False [] pend"
  shows "trace_base (swap_w 0 w) [] True pend [] \<and> connsW (swap_w 0 w) = connsW w \<and> serverW (swap_w 0 w) = serverW w \<and>
    chans (loopsW (swap_w 0 w) 0) = chans (loopsW w 0)"
  using assms by (simp add: trace_base_def swap_w_def swap_functors_def)

lemma trace_booted:
  obtains w where "booted skern w" and "trace_base w [] False [] []" and "sk_interest (kst (loopsW w 0)) 2 = None"
    and "nextObj (serverW w) = 2" and "chans (loopsW w 0) 2 = None" and "map_option ch_fd (chans (loopsW w 0) 0) = Some 10"
    and "connections (serverW w) = (\<lambda>_. None)" and "nextConnId (serverW w) < int_max"
proof -
  have r: "fresh_resources skern demo_tids (\<lambda>_. 5) (\<lambda>i. 10 + int i) trace_ks 1"
    by (simp add: fresh_resources_def demo_tids_def inj_def trace_ks_def sk_init_def)
  then have "booted skern w" if "trace_start = Inr w" for w
    using that unfolding booted_def trace_start_def by (metis order_refl)
  moreover have "connections (serverW w) = (\<lambda>_. None)" if "trace_start = Inr w" for w
    using boot_inv [OF skern_doc r order_refl, of "mk_inet 8080 default_ip" "''srv''" kNoReusePort False False] that
    by (auto simp: trace_start_def)
  ultimately show ?thesis using trace_start_ok that by metis
qed

text \<open>The server reaches a state in which the client is connected.\<close>

lemma trace_open:
  obtains w0 w nm where "booted skern w0" and "(sys_next skern echo_callbacks)\<^sup>*\<^sup>* w0 w"
    and "trace_base w [] False [] []" and "trace_conn w" and "connections (serverW w) = [nm \<mapsto> 2]"
proof -
  from trace_booted obtain w0 where w0: "booted skern w0" "trace_base w0 [] False [] []"
    "sk_interest (kst (loopsW w0 0)) 2 = None" "nextObj (serverW w0) = 2" "chans (loopsW w0 0) 2 = None"
    "map_option ch_fd (chans (loopsW w0 0) 0) = Some 10" "connections (serverW w0) = (\<lambda>_. None)"
    "nextConnId (serverW w0) < int_max" .
  from trace_poll(1) [OF w0(2,3)] obtain w ch where w: "poll_w skern 0 w0 = Inr w" "trace_base w [1] False [] []"
    "nextObj (serverW w) = 2" "chans (loopsW w 0) 2 = None" "map_option ch_fd (chans (loopsW w 0) 0) = Some 10"
    "chans (loopsW w 0) 1 = Some ch" "ch_revents ch = EPOLLIN" "sk_interest (kst (loopsW w 0)) 2 = None"
    "connections (serverW w) = (\<lambda>_. None)" "nextConnId (serverW w) < int_max"
    using w0(4-8) by auto
  let ?R = "(sys_next skern echo_callbacks)\<^sup>*\<^sup>*"
  have r: "?R w0 w"
    by (rule step_poll [OF rtranclp.rtrancl_refl _ _ _ w(1)]) (use w0(2) in \<open>auto simp: trace_base_def idle_def lids_def\<close>)
  have "fresh_fd w 2"
    unfolding fresh_fd_def trace_lids [OF w(2)]
  proof (intro ballI allI impI)
    fix l p c assume l: "l \<in> {0}" and c: "chans (loopsW w l) p = Some c"
    then have "p < 2" using loops_okD(4) [OF sys_invD(1) [OF reach_inv [OF skern_doc demo_user w0(1) r]], of 0 p]
        trace_lids [OF w(2)] w(3) by simp
    then have "p = 0 \<or> p = 1" by auto
    with l c w(2,5,6) show "ch_fd c \<noteq> 2" by (auto simp: trace_base_def)
  qed
  then have acc: "accept_ok w trace_client" by (simp add: accept_ok_def trace_client_def)
  from trace_accept [OF w(2,3,4,8,10,6,7)] obtain w' where
    w': "handle_channel_w skern 100 echo_callbacks trace_client 0 1 (w\<lparr>activeW := (activeW w)(0 := [])\<rparr>) = Inr w'"
      "trace_base w' [] False [] []" "trace_conn w'" "connections (serverW w') = [conn_name (serverW w) (nextConnId (serverW w)) \<mapsto> 2]" using w(9) by auto
  have "?R w0 w'"
    by (rule step_handle [OF r, where l = 0 and p = 1 and ps = "[]", OF _ _ acc]) (use w(2) w'(1) in \<open>auto simp: trace_base_def lids_def\<close>)
  then show ?thesis using that w0(1) w'(2-4) by blast
qed

text \<open>It closes, is removed and is due for \<^verbatim>\<open>connectDestroyed\<close>.\<close>

lemma trace_removed:
  obtains w0 w cn ch where "booted skern w0" and "(sys_next skern echo_callbacks)\<^sup>*\<^sup>* w0 w"
    and "trace_base w [] True [ConnectDestroyedF 2] []" and "connsW w 2 = Some cn" and "loopId cn = 0" and "objId cn = 2"
    and "channelP cn = 2" and "stateC cn = kDisconnected" and "connections (serverW w) (connName cn) = None"
    and "chans (loopsW w 0) 2 = Some ch" and "ch_index ch \<noteq> kAdded"
proof -
  let ?R = "(sys_next skern echo_callbacks)\<^sup>*\<^sup>*"
  obtain w0 w where w: "booted skern w0" "?R w0 w" "trace_base w [] False [] []" "trace_conn w" by (rule trace_open)
  from trace_poll(2) [OF w(3,4)] obtain w1 ch1 where w1: "poll_w skern 0 w = Inr w1" "trace_base w1 [1, 2] False [] []"
    "trace_conn w1" "chans (loopsW w1 0) 2 = Some ch1" "ch_revents ch1 = EPOLLIN" by blast
  have r1: "?R w0 w1"
    by (rule step_poll [OF w(2) _ _ _ w1(1)]) (use w(3) in \<open>auto simp: trace_base_def idle_def lids_def\<close>)
  from trace_skip [OF w1(2-5)] obtain w2 ch2 where
    w2: "handle_channel_w skern 100 echo_callbacks (AcceptErr 11, None) 0 1 (w1\<lparr>activeW := (activeW w1)(0 := [2])\<rparr>) = Inr w2"
      "trace_base w2 [2] False [] []" "trace_conn w2" "chans (loopsW w2 0) 2 = Some ch2" "ch_revents ch2 = EPOLLIN" by blast
  have acc: "accept_ok v (AcceptErr 11, None)" for v :: "skernel world" by (simp add: accept_ok_def)
  have r2: "?R w0 w2"
    by (rule step_handle [OF r1, where l = 0 and p = 1 and ps = "[2]", OF _ _ acc])
      (use w1(2) w2(1) in \<open>auto simp: trace_base_def lids_def\<close>)
  from trace_close [OF w2(2-5), of "(AcceptErr 11, None)"] obtain w3 cn ch where
    w3: "handle_channel_w skern 100 echo_callbacks (AcceptErr 11, None) 0 2 (w2\<lparr>activeW := (activeW w2)(0 := [])\<rparr>) = Inr w3"
      "trace_base w3 [] False [] [ConnectDestroyedF 2]"
    and cn: "connsW w3 2 = Some cn" "loopId cn = 0" "objId cn = 2" "channelP cn = 2"
      "stateC cn = kDisconnected" "connections (serverW w3) (connName cn) = None" "chans (loopsW w3 0) 2 = Some ch"
      "ch_index ch \<noteq> kAdded" by blast
  have r3: "?R w0 w3"
    by (rule step_handle [OF r2, where l = 0 and p = 2 and ps = "[]", OF _ _ acc])
      (use w2(2) w3(1) in \<open>auto simp: trace_base_def lids_def\<close>)
  have "?R w0 (swap_w 0 w3)"
    by (rule step_swap [OF r3]) (use w3(2) in \<open>auto simp: trace_base_def idle_def lids_def\<close>)
  with trace_swap [OF w3(2)] cn show ?thesis using that [OF w(1)] by metis
qed

text \<open>After that nothing refers to it any more.\<close>

lemma trace_unreferenced:
  obtains w0 w cn where "booted skern w0" and "(sys_next skern echo_callbacks)\<^sup>*\<^sup>* w0 w"
    and "connsW w 2 = Some cn" and "unreferenced w 2" and "threadId (loopsW w (loopId cn)) = 100"
proof -
  let ?R = "(sys_next skern echo_callbacks)\<^sup>*\<^sup>*"
  obtain w0 w cn ch where w: "booted skern w0" "?R w0 w" "trace_base w [] True [ConnectDestroyedF 2] []"
    "connsW w 2 = Some cn" "loopId cn = 0" "objId cn = 2" "channelP cn = 2" "stateC cn = kDisconnected"
    "connections (serverW w) (connName cn) = None" "chans (loopsW w 0) 2 = Some ch" "ch_index ch \<noteq> kAdded"
    by (rule trace_removed)
  from trace_destroy [OF w(3-11)] obtain w' where
    w': "run_functor_w skern 100 echo_callbacks (ConnectDestroyedF 2) (w\<lparr>runningW := (runningW w)(0 := [])\<rparr>) = Inr w'"
      "trace_base w' [] True [] []" "connsW w' 2 = Some cn" "connections (serverW w') (connName cn) = None" by blast
  have r: "?R w0 w'"
    by (rule step_run [OF w(2), where l = 0 and f = "ConnectDestroyedF 2" and fs = "[]"])
      (use w(3) w'(1) in \<open>auto simp: trace_base_def lids_def\<close>)
  have "connections (serverW w') nm \<noteq> Some 2" for nm
    using names_okD(1) [OF sys_invD(3) [OF reach_inv [OF skern_doc demo_user w(1) r]], of nm 2] w'(3,4) by auto
  moreover have "funs w' 0 = []" using w'(2) by (simp add: funs_def trace_base_def)
  ultimately have "unreferenced w' 2" by (simp add: unreferenced_def trace_lids [OF w'(2)])
  with that [OF w(1) r w'(3)] w'(2) w(5) show ?thesis by (simp add: trace_base_def)
qed

section \<open>Properties\<close>

lemma unregistered:
  assumes "struct_ok K w" and "connsW w c = Some cn" and "\<not> reg (at cn w)"
  shows "channelsM (loopsW w (loopId cn)) fd \<noteq> Some c" and "interest K (kst (loopsW w (loopId cn))) fd \<noteq> Some (ev, c)"
proof -
  note D = struct_okD [OF assms(1)] and d = conns_okD [OF struct_okD(2) [OF assms(1)] assms(2)]
  note wf = loop_okD(1) [OF loops_okD(3) [OF D(1) d(4)]]
  obtain ch where ch: "chans (loopsW w (loopId cn)) c = Some ch" using conns_ok_chan [OF D(2) assms(2)] .
  then have new: "ch_index ch = kNew" using assms(3) d(2) by (simp add: reg_def at_def c_chan_def)
  show "channelsM (loopsW w (loopId cn)) fd \<noteq> Some c"
    using reactor_wfD(1) [OF wf ch] reactor_wfD(2) [OF wf, of fd c] ch new by (auto elim: chan_okE)
  show "interest K (kst (loopsW w (loopId cn))) fd \<noteq> Some (ev, c)"
    using interest_registered [OF wf, of fd ev c] ch new by auto
qed

text \<open>
  Why the steps of the server leave out one event: a connection that is closed and that nothing refers
  to is brought back by the assignment of a \<^verbatim>\<open>shutdown\<close> whose test came before the close. Neither of the
  two properties that follow would hold in the state after it.
\<close>

lemma torn_shutdown_revives:
  "\<exists>w0 w w' cn. booted skern w0 \<and> (sys_next skern echo_callbacks)\<^sup>*\<^sup>* w0 w \<and> torn w (ShutE 7 2) \<and>
     sys_step skern echo_callbacks (ShutE 7 2) w = Some (Inr w') \<and> connsW w' 2 = Some cn \<and> unreferenced w' 2 \<and>
     stateC cn = kDisconnecting \<and> connections (serverW w') (connName cn) \<noteq> Some 2"
proof -
  obtain w0 w cn where w: "booted skern w0" "(sys_next skern echo_callbacks)\<^sup>*\<^sup>* w0 w" "connsW w 2 = Some cn" "unreferenced w 2"
    and th: "threadId (loopsW w (loopId cn)) = 100" by (rule trace_unreferenced)
  have inv: "sys_inv skern {} w" by (rule reach_inv [OF skern_doc demo_user w(1,2)])
  note cl = unreferenced_closed [OF inv w(3,4)] and o = conns_okD(1) [OF sys_invD(2) [OF inv] w(3)]
  let ?w = "w\<lparr>connsW := (connsW w)(2 \<mapsto> cn\<lparr>stateC := kDisconnecting\<rparr>)\<rparr>"
  have "sys_step skern echo_callbacks (ShutE 7 2) w = Some (Inr ?w)"
    using w(3) th cl(1) o by (simp add: sys_step_def isInLoopThread_def on_conn_def setState_def unview_def)
  moreover have "unreferenced ?w 2" using w(4) by (simp add: unreferenced_def funs_def lids_def)
  moreover have "torn w (ShutE 7 2)" using w(3) cl(1) by simp
  moreover have "connections (serverW w) (connName cn) \<noteq> Some 2" using w(4) by (simp add: unreferenced_def)
  ultimately show ?thesis using w(1,2)
    by (intro exI [of _ w0] exI [of _ w] exI [of _ ?w] exI [of _ "cn\<lparr>stateC := kDisconnecting\<rparr>"]) simp
qed

text \<open>
  C2: when a connection object is destroyed. In every state the server reaches (under every
  interleaving but one: no connection is closed between the test and the assignment of a \<^verbatim>\<open>shutdown\<close> another
  thread calls on it, which would bring it back): once neither the
  server's map nor any functor refers to a connection, it is closed, its loop's poller and kernel do
  not know its channel any more, and no active channel of its loop is left that would call it; so
  its destructor leaves no dangling channel pointer behind.
\<close>

theorem connection_lifetime:
  assumes "kernel_doc K" and "user_small U" and "booted K w0" and "(sys_next K U)\<^sup>*\<^sup>* w0 w"
    and "connsW w c = Some cn" and "unreferenced w c"
  shows "stateC cn = kDisconnected \<and> channelsM (loopsW w (loopId cn)) fd \<noteq> Some c \<and>
    interest K (kst (loopsW w (loopId cn))) fd \<noteq> Some (ev, c) \<and> c \<notin> set (activeW w (loopId cn)) \<and>
    sys_step K U (ReleaseE c) w = Some (Inr (release_w c cn w)) \<and> connsW (release_w c cn w) c = None"
proof -
  note inv = reach_inv [OF assms(1-4)]
  note cl = unreferenced_closed [OF inv assms(5,6)]
  have "sys_step K U (ReleaseE c) w = Some (Inr (release_w c cn w))" using assms(5,6) by (simp add: sys_step_def)
  moreover have "connsW (release_w c cn w) c = None" by (simp add: release_w_def Let_def)
  ultimately show ?thesis using cl unregistered [OF sys_inv_struct [OF inv] assms(5) cl(2), of fd] by simp
qed

theorem connection_lifetime_witness:
  "\<exists>w cn. connsW w 2 = Some cn \<and> unreferenced w 2 \<and> stateC cn = kDisconnected \<and>
     sys_step skern echo_callbacks (ReleaseE 2) w = Some (Inr (release_w 2 cn w))"
proof -
  obtain w0 w cn where w: "booted skern w0" "(sys_next skern echo_callbacks)\<^sup>*\<^sup>* w0 w" "connsW w 2 = Some cn" "unreferenced w 2"
    by (rule trace_unreferenced)
  from connection_lifetime [OF skern_doc demo_user w, of 0 0] w(3,4) show ?thesis by blast
qed

text \<open>
  C3: every connection is on its way. In every state the server reaches (under every
  interleaving but one: no connection is closed between the test and the assignment of a \<^verbatim>\<open>shutdown\<close> another
  thread calls on it, which would make it \<^verbatim>\<open>kDisconnecting\<close> after its removal): a connection that is being
  set up is in the server's map and has exactly one pending call of \<^verbatim>\<open>connectEstablished\<close> in its own
  loop; an open one, or one that is shutting down, is in the map; a closed one that is still in the
  map has a pending removal in the base loop, and a closed one that is still registered with its
  poller has a pending removal or destruction. So no closed connection is leaked.
\<close>

theorem connection_progress:
  assumes "kernel_doc K" and "user_small U" and "booted K w0" and "(sys_next K U)\<^sup>*\<^sup>* w0 w"
    and "connsW w c = Some cn"
  shows "(stateC cn = kConnecting \<longrightarrow> connections (serverW w) (connName cn) = Some c \<and>
       count_list (funs w (loopId cn)) (ConnectEstablishedF c) = 1) \<and>
    (stateC cn = kConnected \<or> stateC cn = kDisconnecting \<longrightarrow> connections (serverW w) (connName cn) = Some c) \<and>
    (stateC cn = kDisconnected \<and> connections (serverW w) (connName cn) = Some c \<longrightarrow>
       RemoveConnectionInLoopF c \<in> set (funs w (srv_base (serverW w)))) \<and>
    (stateC cn = kDisconnected \<and> channelsM (loopsW w (loopId cn)) (socketFd cn) = Some c \<longrightarrow>
       RemoveConnectionInLoopF c \<in> set (funs w (srv_base (serverW w))) \<or>
       ConnectDestroyedF c \<in> set (funs w (loopId cn)))"
proof -
  note inv = reach_inv [OF assms(1-4)]
  note D = sys_invD [OF inv] and d = conns_okD [OF sys_invD(2) [OF inv] assms(5)]
  note L = lives_okD [OF D(5) assms(5), unfolded d(1) owed_def]
  have "count_list (funs w (loopId cn)) (ConnectEstablishedF c) = 1" if "ConnectEstablishedF c \<in> set (funs w (loopId cn))"
  proof -
    have "count_list (funs w (loopId cn)) (ConnectEstablishedF c) \<le> 1" using D(4) d(4) by (simp add: functors_ok_def)
    moreover have "count_list (funs w (loopId cn)) (ConnectEstablishedF c) \<noteq> 0" using that by (simp add: count_list_0_iff)
    ultimately show ?thesis by simp
  qed
  moreover have "reg (at cn w)" if "channelsM (loopsW w (loopId cn)) (socketFd cn) = Some c"
    using unregistered(1) [OF sys_inv_struct [OF inv] assms(5)] that by blast
  ultimately show ?thesis using L d(1) by (auto simp: listed_def)
qed

theorem connection_progress_witness:
  "\<exists>(w :: skernel world) cn. connsW w 2 = Some cn \<and> stateC cn = kConnected \<and> connections (serverW w) (connName cn) = Some 2"
proof -
  obtain w0 w where w: "booted skern w0" "(sys_next skern echo_callbacks)\<^sup>*\<^sup>* w0 w" "trace_conn w" by (rule trace_open)
  then obtain cn where c: "connsW w 2 = Some cn" "stateC cn = kConnected" by (auto simp: trace_conn_def)
  from connection_progress [OF skern_doc demo_user w(1,2) c(1)] c show ?thesis by (intro exI [of _ w] exI [of _ cn]) simp
qed

text \<open>
  C4: taking a closed connection down. In every state the server reaches (no connection being closed
  between the test and the assignment of a \<^verbatim>\<open>shutdown\<close>): when the base loop calls
  the queued removal of a connection, exactly its entry leaves the map, the call of
  \<^verbatim>\<open>connectDestroyed\<close> is queued behind the functors pending in the connection's own loop, and that
  loop is woken if it belongs to another thread; when that loop calls \<^verbatim>\<open>connectDestroyed\<close>, the
  connection object is unchanged, the poller's table and the kernel's interest list have no entry for
  it any more, and the map stays as it is. Neither call can fail.
\<close>

theorem connection_removal:
  assumes "kernel_doc K" and "user_small U" and "booted K w0" and "(sys_next K U)\<^sup>*\<^sup>* w0 w"
    and "connsW w c = Some cn" and "b = srv_base (serverW w)" and "l = loopId cn"
  shows "(runningW w b = RemoveConnectionInLoopF c # fs \<longrightarrow>
      (\<exists>w'. sys_step K U (RunE b) w = Some (Inr w') \<and> connsW w' = connsW w \<and>
         connections (serverW w') = (connections (serverW w))(connName cn := None) \<and>
         pendingFunctors (loopsW w' l) = pendingFunctors (loopsW w l) @ [ConnectDestroyedF c] \<and>
         (l \<noteq> b \<longrightarrow> woken K (loopsW w' l)))) \<and>
    (runningW w l = ConnectDestroyedF c # fs \<longrightarrow>
      (\<exists>w'. sys_step K U (RunE l) w = Some (Inr w') \<and> connsW w' = connsW w \<and> serverW w' = serverW w \<and>
         channelsM (loopsW w' l) fd \<noteq> Some c \<and> interest K (kst (loopsW w' l)) fd \<noteq> Some (ev, c)))"
    (is "(_ \<longrightarrow> ?remove) \<and> (_ \<longrightarrow> ?destroy)")
proof (intro conjI impI)
  note inv = reach_inv [OF assms(1-4)]
  note D = sys_invD [OF inv] and d = conns_okD [OF sys_invD(2) [OF inv] assms(5)]
  have lids: "b \<in> lids w" "l \<in> lids w" using d(4) assms(6,7) by (simp_all add: lids_def)
  have inj: "inj_on (\<lambda>l. threadId (loopsW w l)) (lids w)" using D(1) by (simp add: loops_ok_def)
  {
    assume r: "runningW w b = RemoveConnectionInLoopF c # fs"
    let ?w = "w\<lparr>runningW := (runningW w)(b := fs)\<rparr>"
    let ?w' = "queue_w K (threadId (loopsW w b)) l (ConnectDestroyedF c) (erase_name (connName cn) ?w)"
    have "sys_step K U (RunE b) w = Some (Inr ?w')"
      using r lids(1) assms(5,7) by (simp add: sys_step_def run_functor_w_def removeConnectionInLoop_def erase_name_def Let_def)
    moreover have "woken K (loopsW ?w' l)" if "l \<noteq> b"
      using woken_queueInLoop [OF kernel_docD(3) [OF assms(1)], of "loopsW w l" "threadId (loopsW w b)"] that lids inj
      by (auto simp: isInLoopThread_def dest: inj_onD)
    ultimately show ?remove by (intro exI [of _ ?w']) (simp add: erase_name_def)
  }
  assume r: "runningW w l = ConnectDestroyedF c # fs"
  let ?w = "w\<lparr>runningW := (runningW w)(l := fs)\<rparr>" and ?t = "threadId (loopsW w l)"
  note pop = pop_running_inv [OF inv lids(2) r]
  have st: "stateC cn = kDisconnected" using pop(2) assms(5) by (simp add: functor_ok_def)
  have c: "connsW ?w c = Some cn" using assms(5) by simp
  from on_conn_destroyed [OF assms(1) pop(1) c st, of ?t U ?t] obtain w' where
    w': "on_conn c (connectDestroyed K ?t U) ?w = Inr w'" "connsW w' c = Some cn" "\<not> reg (at cn w')"
      "connsW w' = connsW ?w" "serverW w' = serverW ?w" by blast
  have "on_conn c (run_functor K ?t U (ConnectDestroyedF c)) ?w = Inr w'"
    using on_conn_eq [OF view_live [OF c], of "run_functor K ?t U (ConnectDestroyedF c)" "connectDestroyed K ?t U"] w'(1)
    by (simp add: run_functor_def)
  then have s: "sys_step K U (RunE l) w = Some (Inr w')" using r lids(2) by (simp add: sys_step_def run_functor_w_def)
  from sys_step_inv [OF assms(1,2) inv s] have inv': "sys_inv K {} w'" by (simp add: okc_def)
  from s w'(4,5) unregistered [OF sys_inv_struct [OF inv'] w'(2,3)] assms(7) show ?destroy by auto
qed

theorem connection_removal_witness:
  "\<exists>w w' cn. connsW w 2 = Some cn \<and> sys_step skern echo_callbacks (RunE 0) w = Some (Inr w') \<and>
     channelsM (loopsW w' 0) 2 \<noteq> Some 2"
proof -
  obtain w0 w cn ch where w: "booted skern w0" "(sys_next skern echo_callbacks)\<^sup>*\<^sup>* w0 w"
    "trace_base w [] True [ConnectDestroyedF 2] []" "connsW w 2 = Some cn" "loopId cn = 0" by (rule trace_removed)
  have h: "runningW w 0 = [ConnectDestroyedF 2]" "0 = srv_base (serverW w)" "0 = loopId cn"
    using w(3,5) by (simp_all add: trace_base_def)
  from connection_removal [OF skern_doc demo_user w(1,2,4) h(2,3), of "[]" 2 0] h(1) w(4) show ?thesis by auto
qed

end
