(* ===== verification/ServerDestroy.thy ===== *)
theory ServerDestroy
  imports ServerLife
begin

text \<open>
  The destructor of \<^verbatim>\<open>TcpServer\<close>: every connection in the map is told to tear itself down in its own
  loop, at once in the base loop's thread and by a queued functor elsewhere. After the body of the
  destructor the pool is destroyed, which quits and joins the threads of the other loops, and then the
  acceptor. How a thread of the pool is stopped is the subject of \<open>LoopThreadPool\<close>; what the other loops do
  until then is not followed here, so the whole destructor is defined for a server without threads.
\<close>

section \<open>The code\<close>

text \<open>The end of the life of a local shared pointer: the object dies if it was the last one.\<close>

definition drop_ref :: "nat \<Rightarrow> 'k world \<Rightarrow> 'k world" where
  "drop_ref c w = (case connsW w c of None \<Rightarrow> w | Some cn \<Rightarrow> if unreferenced w c then release_w c cn w else w)"

text \<open>One turn of the loop over the map, whose entry is moved to the local pointer \<^verbatim>\<open>conn\<close>.\<close>

definition destroy_one :: "'k kernel \<Rightarrow> int \<Rightarrow> user_callbacks \<Rightarrow> string \<Rightarrow> 'k world \<Rightarrow> 'k world result" where
  "destroy_one K t U nm w = (case connections (serverW w) nm of
      None \<Rightarrow> Inr w
    | Some c \<Rightarrow> (case connsW w c of
        None \<Rightarrow> Inl UseAfterFree
      | Some cn \<Rightarrow> bind_r (runInLoop_w K t (loopId cn) (ConnectDestroyedF c) (on_conn c (connectDestroyed K t U))
          (w\<lparr>serverW := (serverW w)\<lparr>connections := (connections (serverW w))(nm := None)\<rparr>\<rparr>))
          (\<lambda>w'. Inr (drop_ref c w'))))"

text \<open>The body of the destructor; \<open>names\<close> are the keys of the map in the order it iterates over them.\<close>

definition destroy_connections :: "'k kernel \<Rightarrow> int \<Rightarrow> user_callbacks \<Rightarrow> string list \<Rightarrow> 'k world \<Rightarrow> 'k world result" where
  "destroy_connections K t U names w = run_each (destroy_one K t U) names w"

text \<open>The whole destructor, for a server whose pool has no threads to quit and join.\<close>

definition destroy_server :: "'k kernel \<Rightarrow> int \<Rightarrow> user_callbacks \<Rightarrow> string list \<Rightarrow> 'k world \<Rightarrow> 'k world result" where
  "destroy_server K t U names w = bind_r (destroy_connections K t U names w) (\<lambda>w'.
     (let b = srv_base (serverW w') in
      bind_r (destroy_acceptor K (srv_acceptor (serverW w')) (loopsW w' b)) (\<lambda>L.
        Inr (w'\<lparr>loopsW := (loopsW w')(b := L)\<rparr>))))"

section \<open>One connection\<close>

lemma struct_ok_erase: "struct_ok K w \<Longrightarrow> struct_ok K (erase_name nm w)"
  by (simp add: struct_ok_def loops_ok_def conns_ok_def names_ok_def)

lemma struct_ok_queue:
  assumes doc: "eventfd_doc K" and st: "struct_ok K w" and l: "l \<in> lids w"
  shows "struct_ok K (queue_w K t l f w)" (is "struct_ok K ?w")
proof -
  note D = struct_okD [OF st]
  have L: "chans (loopsW ?w m) = chans (loopsW w m)" "threadId (loopsW ?w m) = threadId (loopsW w m)"
    "wakeupChannel (loopsW ?w m) = wakeupChannel (loopsW w m)" for m by (cases "m = l"; simp)+
  have ok: "loop_ok K (loopsW ?w m)" if "m \<in> lids w" for m
  proof (cases "m = l")
    case True
    show ?thesis unfolding True
      by (rule loop_ok_view [OF loops_okD(3) [OF D(1) l]]) (simp_all add: queue_view [OF doc])
  qed (use loops_okD(3) [OF D(1) that] in simp)
  have sp: "special ?w m p = special w m p" for m p by (simp add: special_def L)
  have "loops_ok K ?w" using D(1) ok unfolding loops_ok_def Let_def sp L queue_w_sel by simp
  moreover have "conn_inv K (at cn ?w)" if c: "connsW w c = Some cn" for c cn
  proof -
    note d = conns_okD [OF D(2) c]
    obtain ch where "chans (loopsW w (loopId cn)) c = Some ch" using conns_ok_chan [OF D(2) c] .
    with d(6) ok [OF d(4)] d(2) show ?thesis unfolding at_def by (auto intro: conn_inv_other simp: L)
  qed
  then have "conns_ok K ?w" using D(2) unfolding conns_ok_def sp by simp
  moreover have "names_ok ?w" by (rule names_ok_cong [OF D(3)]) simp_all
  ultimately show ?thesis by (simp add: struct_ok_def)
qed

text \<open>
  A connection the destructor has dealt with: torn down if its loop is the base loop, otherwise its
  \<^verbatim>\<open>connectDestroyed\<close> is queued in its loop, which is awake. One that is torn down exists only as long as
  a functor captures it.
\<close>

definition captured :: "'k world \<Rightarrow> nat \<Rightarrow> bool" where
  "captured w c \<longleftrightarrow> (\<exists>l \<in> lids w. \<exists>f \<in> set (funs w l). functor_conn f = Some c)"

definition torn_conn :: "'k world \<Rightarrow> nat \<Rightarrow> tcpconn \<Rightarrow> tcpconn \<Rightarrow> bool" where
  "torn_conn w c cn cn' \<longleftrightarrow> loopId cn' = loopId cn \<and> \<not> reg (at cn' w) \<and> (stateC cn = kConnected \<longrightarrow> stateC cn' = kDisconnected)"

definition let_go :: "'k kernel \<Rightarrow> 'k world \<Rightarrow> nat \<Rightarrow> tcpconn \<Rightarrow> bool" where
  "let_go K w c cn \<longleftrightarrow>
     (if loopId cn = srv_base (serverW w)
      then \<not> special w (loopId cn) c \<and> (\<forall>cn'. connsW w c = Some cn' \<longrightarrow> torn_conn w c cn cn' \<and> captured w c)
      else connsW w c = Some cn \<and> ConnectDestroyedF c \<in> set (pendingFunctors (loopsW w (loopId cn))) \<and>
        woken K (loopsW w (loopId cn)))"

text \<open>What dealing with connection \<open>c\<close> leaves of the others.\<close>

definition spares :: "'k kernel \<Rightarrow> nat \<Rightarrow> 'k world \<Rightarrow> 'k world \<Rightarrow> bool" where
  "spares K c w w' \<longleftrightarrow> lids w' = lids w \<and> srv_base (serverW w') = srv_base (serverW w) \<and>
     srv_acceptor (serverW w') = srv_acceptor (serverW w) \<and>
     (\<forall>m. threadId (loopsW w' m) = threadId (loopsW w m) \<and> set (funs w m) \<subseteq> set (funs w' m) \<and> special w' m = special w m) \<and>
     (\<forall>d. d \<noteq> c \<longrightarrow> connsW w' d = connsW w d \<and> (\<forall>dn. connsW w d = Some dn \<longrightarrow> reg (at dn w') = reg (at dn w))) \<and>
     (\<forall>m. m \<noteq> srv_base (serverW w) \<longrightarrow>
        set (pendingFunctors (loopsW w m)) \<subseteq> set (pendingFunctors (loopsW w' m)) \<and>
        (woken K (loopsW w m) \<longrightarrow> woken K (loopsW w' m)))"

lemma let_go_spared:
  assumes g: "let_go K w d dn" and s: "spares K c w w'" and ne: "d \<noteq> c"
  shows "let_go K w' d dn"
proof -
  have b: "srv_base (serverW w') = srv_base (serverW w)" "connsW w' d = connsW w d" "special w' m = special w m" for m
    using s ne by (simp_all add: spares_def)
  have cap: "captured w d \<Longrightarrow> captured w' d" using s unfolding captured_def spares_def by blast
  have rg: "reg (at x w') = reg (at x w)" if "connsW w d = Some x" for x using s ne that by (simp add: spares_def)
  show ?thesis
  proof (cases "loopId dn = srv_base (serverW w)")
    case True
    then show ?thesis using g cap rg by (simp add: let_go_def b torn_conn_def)
  next
    case False
    then show ?thesis using g s unfolding let_go_def b spares_def by auto
  qed
qed

lemma spares_trans:
  assumes "spares K c w w1" and "spares K c w1 w2"
  shows "spares K c w w2"
proof -
  have "set (funs w m) \<subseteq> set (funs w2 m)" for m using assms unfolding spares_def by (meson subset_trans)
  moreover have "reg (at dn w2) = reg (at dn w)" if "d \<noteq> c" "connsW w d = Some dn" for d dn using assms that by (simp add: spares_def)
  moreover have "set (pendingFunctors (loopsW w m)) \<subseteq> set (pendingFunctors (loopsW w2 m))" "woken K (loopsW w m) \<Longrightarrow> woken K (loopsW w2 m)"
    if "m \<noteq> srv_base (serverW w)" for m
  proof -
    have "m \<noteq> srv_base (serverW w1)" using assms(1) that by (simp add: spares_def)
    then show "set (pendingFunctors (loopsW w m)) \<subseteq> set (pendingFunctors (loopsW w2 m))" "woken K (loopsW w m) \<Longrightarrow> woken K (loopsW w2 m)"
      using assms that unfolding spares_def by (meson subset_trans)+
  qed
  ultimately show ?thesis using assms by (simp add: spares_def)
qed

text \<open>Giving up the last pointer to a connection that was torn down.\<close>

lemma drop_ref_ok:
  assumes st: "struct_ok K w" and c: "connsW w c = Some cn'" and t: "torn_conn w c cn cn'"
    and l: "loopId cn = srv_base (serverW w)" and free: "\<And>nm. connections (serverW w) nm \<noteq> Some c"
  shows "struct_ok K (drop_ref c w) \<and> serverW (drop_ref c w) = serverW w \<and> let_go K (drop_ref c w) c cn \<and> spares K c w (drop_ref c w)"
proof -
  note d = conns_okD [OF struct_okD(2) [OF st] c]
  have lc: "loopId cn' = loopId cn" using t by (simp add: torn_conn_def)
  show ?thesis
  proof (cases "unreferenced w c")
    case True
    have dd: "dead w c cn'" using True c t by (simp add: dead_def torn_conn_def)
    note sel = release_w_sel [OF d(2), of w]
    have eq: "drop_ref c w = release_w c cn' w" using True c by (simp add: drop_ref_def)
    have "pendingFunctors (loopsW (release_w c cn' w) m) = pendingFunctors (loopsW w m)"
      "woken K (loopsW (release_w c cn' w) m) = woken K (loopsW w m)" for m by (simp_all add: sel(1) woken_def)
    then have "spares K c w (release_w c cn' w)"
      using release_w_other(2) [OF st dd] by (simp add: spares_def sel(2,5-9) fun_eq_iff)
    moreover have "let_go K (release_w c cn' w) c cn" using d(5) l lc by (simp add: let_go_def sel(2,5,9))
    ultimately show ?thesis unfolding eq using release_w_struct [OF st dd] by (simp add: sel(5))
  next
    case False
    then have "captured w c" using free by (auto simp: unreferenced_def captured_def)
    then have "let_go K w c cn" using c t d(5) l lc by (simp add: let_go_def)
    then show ?thesis using False c st by (simp add: drop_ref_def spares_def)
  qed
qed

lemma woken_queue_mono:
  assumes "eventfd_doc K" and "woken K L"
  shows "woken K (queueInLoop K t f L)"
  by (rule woken_queueInLoop [OF assms(1)]) (use assms(2) in simp)

lemma connectDestroyed_w:
  assumes doc: "kernel_doc K" and U: "user_small U" and st: "struct_ok K w" and c: "connsW w c = Some cn"
    and l: "loopId cn = srv_base (serverW w)"
  shows "okl (\<lambda>w'. struct_ok K w' \<and> serverW w' = serverW w \<and> (\<exists>cn'. connsW w' c = Some cn' \<and> torn_conn w' c cn cn') \<and> spares K c w w')
    (on_conn c (connectDestroyed K t U) w)"
proof -
  let ?s = "\<lparr>conn = cn, ioLoop = loopsW w (loopId cn), rest = w\<rparr>"
  note d = conns_okD [OF struct_okD(2) [OF st] c]
  have inv: "conn_inv K ?s" unfolding tcp_scheme_view(1) [of K ?s] using d(6) by (simp add: at_def)
  have ok: "okl (\<lambda>s'. conn_inv K s' \<and> conn_frame K ?s s' \<and> \<not> reg s' \<and> (stateC cn = kConnected \<longrightarrow> stateC (conn s') = kDisconnected))
    (connectDestroyed K t U ?s)"
    using connectDestroyed_open [OF doc inv U, of t] connectDestroyed_closed [OF doc inv, of t U]
    by (cases "stateC cn = kConnected") (auto simp: okl_def split: sum.splits)
  show ?thesis
  proof (cases "connectDestroyed K t U ?s")
    case (Inr s')
    with ok have s': "conn_inv K s'" "conn_frame K ?s s'" "\<not> reg s'" "stateC cn = kConnected \<Longrightarrow> stateC (conn s') = kDisconnected"
      by simp_all
    note u = on_conn_frame [OF c d(1) s'(2)] and G = loop_frameD [OF u(3) [unfolded d(2)]]
    have w': "unview s' = put_conn c (conn s') (loopId cn) (ioLoop s') w" using u(1) by (simp add: put_conn_def)
    have ci: "conn_inv K \<lparr>conn = conn s', ioLoop = ioLoop s'\<rparr>" using s'(1) unfolding tcp_scheme_view(1) [of K s'] .
    note P = put_conn_struct [OF st c refl u(2) ci u(3) [unfolded d(2)]]
      and Q = put_conn_loop(1) [OF st c refl u(2) ci u(3) [unfolded d(2)]]
    have "reg (at dn (unview s')) = reg (at dn w)" if "connsW w x = Some dn" "x \<noteq> c" for x dn
      unfolding w' by (rule put_conn_other(2) [OF st Q _ that]) (rule G(4))
    moreover have "set (funs w m) \<subseteq> set (funs (unview s') m)" for m using G(5) by (auto simp: funs_def w')
    ultimately have "spares K c w (unview s')" using l by (simp add: spares_def w' G(1,2))
    moreover have "loopId (conn s') = loopId cn" using fixed_partD(2) [OF u(2)] .
    moreover have "\<not> reg \<lparr>conn = conn s', ioLoop = ioLoop s'\<rparr>" using s'(3) unfolding tcp_scheme_view(2) [of s'] .
    ultimately show ?thesis using P Inr c s'(4) l by (simp add: on_conn_def w' torn_conn_def at_def)
  qed (use ok in \<open>simp add: on_conn_def c\<close>)
qed

text \<open>A connection of the base loop: torn down at once, and gone if the loop over the map held the last pointer.\<close>

lemma destroy_base_ok:
  assumes doc: "kernel_doc K" and U: "user_small U" and st: "struct_ok K w" and c: "connsW w c = Some cn"
    and l: "loopId cn = srv_base (serverW w)" and free: "\<And>nm. connections (serverW w) nm \<noteq> Some c"
  shows "okl (\<lambda>w'. struct_ok K w' \<and> serverW w' = serverW w \<and> let_go K w' c cn \<and> spares K c w w')
    (bind_r (on_conn c (connectDestroyed K t U) w) (\<lambda>w'. Inr (drop_ref c w')))"
proof (rule okl_bind [OF connectDestroyed_w [OF doc U st c l]], elim conjE exE)
  fix w1 cn' assume h: "struct_ok K w1" "serverW w1 = serverW w" "connsW w1 c = Some cn'" "torn_conn w1 c cn cn'" "spares K c w w1"
  have "struct_ok K (drop_ref c w1) \<and> serverW (drop_ref c w1) = serverW w1 \<and> let_go K (drop_ref c w1) c cn \<and>
      spares K c w1 (drop_ref c w1)"
    by (rule drop_ref_ok [OF h(1,3,4)]) (use l free in \<open>simp_all add: h(2)\<close>)
  then show "okl (\<lambda>w'. struct_ok K w' \<and> serverW w' = serverW w \<and> let_go K w' c cn \<and> spares K c w w') (Inr (drop_ref c w1))"
    using spares_trans [OF h(5)] by (simp add: h(2))
qed

lemma spares_erase:
  assumes "spares K c (erase_name nm w) v"
  shows "spares K c w v"
proof -
  have "special (erase_name nm w) m = special w m" "funs (erase_name nm w) m = funs w m" "lids (erase_name nm w) = lids w"
    "at dn (erase_name nm w) = at dn w" for m dn by (simp_all add: special_def funs_def lids_def at_def fun_eq_iff)
  then show ?thesis using assms by (simp add: spares_def)
qed

section \<open>All connections\<close>

lemma destroy_one_ok:
  assumes doc: "kernel_doc K" and U: "user_small U" and st: "struct_ok K w"
    and t: "t = threadId (loopsW w (srv_base (serverW w)))"
    and nm: "connections (serverW w) nm = Some c" and c: "connsW w c = Some cn"
  shows "okl (\<lambda>w'. struct_ok K w' \<and> connections (serverW w') = (connections (serverW w))(nm := None) \<and>
    let_go K w' c cn \<and> spares K c w w') (destroy_one K t U nm w)"
proof -
  let ?w = "erase_name nm w" and ?b = "srv_base (serverW w)"
  note d = conns_okD [OF struct_okD(2) [OF st] c] and ev = kernel_docD(3) [OF doc]
  have conns: "connections (serverW ?w) = (connections (serverW w))(nm := None)" by (simp add: erase_name_def)
  have run: "destroy_one K t U nm w = bind_r (runInLoop_w K t (loopId cn) (ConnectDestroyedF c) (on_conn c (connectDestroyed K t U)) ?w)
      (\<lambda>w'. Inr (drop_ref c w'))"
    using nm c by (simp add: destroy_one_def erase_name_def)
  note N = names_okD(1) [OF struct_okD(3) [OF st]]
  have free: "connections (serverW ?w) n \<noteq> Some c" for n using N [of n c] N [OF nm] c by (auto simp: conns)
  have inj: "inj_on (\<lambda>l. threadId (loopsW w l)) (lids w)" using struct_okD(1) [OF st] by (simp add: loops_ok_def)
  have b: "?b \<in> lids w" by (simp add: lids_def)
  show ?thesis
  proof (cases "loopId cn = ?b")
    case True
    then have "destroy_one K t U nm w = bind_r (on_conn c (connectDestroyed K t U) ?w) (\<lambda>w'. Inr (drop_ref c w'))"
      using run t by (simp add: runInLoop_w_def isInLoopThread_def)
    moreover have "okl (\<lambda>w'. struct_ok K w' \<and> serverW w' = serverW ?w \<and> let_go K w' c cn \<and> spares K c ?w w')
        (bind_r (on_conn c (connectDestroyed K t U) ?w) (\<lambda>w'. Inr (drop_ref c w')))"
      by (rule destroy_base_ok [OF doc U struct_ok_erase [OF st]]) (use c True free in simp_all)
    ultimately show ?thesis using spares_erase conns by (auto elim!: okl_mono)
  next
    case False
    then have n: "\<not> isInLoopThread t (loopsW w (loopId cn))" using t inj b d(4) by (auto simp: isInLoopThread_def dest: inj_onD)
    let ?w' = "queue_w K t (loopId cn) (ConnectDestroyedF c) ?w"
    have "struct_ok K ?w'" by (rule struct_ok_queue [OF ev struct_ok_erase [OF st]]) (use d(4) in simp)
    moreover have "woken K (queueInLoop K t (ConnectDestroyedF c) (loopsW w (loopId cn)))"
      by (rule woken_queueInLoop [OF ev]) (use n in simp)
    moreover have "reg (at dn ?w') = reg (at dn w)" for dn
      by (cases "loopId dn = loopId cn") (simp_all add: at_def reg_def c_chan_def)
    moreover have "threadId (loopsW ?w' m) = threadId (loopsW w m)" "set (pendingFunctors (loopsW w m)) \<subseteq> set (pendingFunctors (loopsW ?w' m))"
      "woken K (loopsW w m) \<longrightarrow> woken K (loopsW ?w' m)" for m
      by (cases "m = loopId cn"; simp add: woken_queue_mono [OF ev] subset_insertI)+
    moreover have "special ?w' m = special w m" "set (funs w m) \<subseteq> set (funs ?w' m)" for m
      by (cases "m = loopId cn"; auto simp: special_def funs_def fun_eq_iff)+
    moreover have "\<not> unreferenced ?w' c" using d(4) by (auto simp: unreferenced_def funs_queue_w)
    then have "drop_ref c ?w' = ?w'" using c by (simp add: drop_ref_def)
    ultimately show ?thesis using run n False c conns
      by (simp add: runInLoop_w_def let_go_def spares_def)
  qed
qed

text \<open>
  The loop of the destructor. A connection that was dealt with, or that is not in the map, is left
  alone by the rest of it.
\<close>

definition torn_down :: "'k kernel \<Rightarrow> string list \<Rightarrow> 'k world \<Rightarrow> 'k world \<Rightarrow> bool" where
  "torn_down K names w w' \<longleftrightarrow> struct_ok K w' \<and> srv_base (serverW w') = srv_base (serverW w) \<and>
     srv_acceptor (serverW w') = srv_acceptor (serverW w) \<and> lids w' = lids w \<and>
     connections (serverW w') = (\<lambda>nm. if nm \<in> set names then None else connections (serverW w) nm) \<and>
     (\<forall>nm c cn. nm \<in> set names \<and> connections (serverW w) nm = Some c \<and> connsW w c = Some cn \<longrightarrow> let_go K w' c cn) \<and>
     (\<forall>c cn. let_go K w c cn \<and> (\<forall>nm. connections (serverW w) nm \<noteq> Some c) \<longrightarrow> let_go K w' c cn)"

lemma torn_down_skip: "connections (serverW w) nm = None \<Longrightarrow> torn_down K names w w' \<Longrightarrow> torn_down K (nm # names) w w'"
  unfolding torn_down_def by (auto simp: fun_eq_iff)

lemma torn_down_Cons:
  assumes st: "struct_ok K w" and nm: "connections (serverW w) nm = Some c" and c: "connsW w c = Some cn"
    and w1: "connections (serverW w1) = (connections (serverW w))(nm := None)" "let_go K w1 c cn" "spares K c w w1"
    and td: "torn_down K names w1 w'"
  shows "torn_down K (nm # names) w w'"
proof -
  note N = names_okD(1) [OF struct_okD(3) [OF st]]
  have cn: "connName cn = nm" using N [OF nm] c by simp
  have uniq: "d \<noteq> c" if "connections (serverW w) n = Some d" "n \<noteq> nm" for n d
    using N [OF that(1)] c cn that(2) by auto
  have free: "connections (serverW w1) n \<noteq> Some c" for n using w1(1) uniq [of n c] by auto
  have kept: "connsW w1 d = Some dn" if "connsW w d = Some dn" "d \<noteq> c" for d dn using w1(3) that by (simp add: spares_def)
  have b: "let_go K w' d dn" if "let_go K w1 d dn" "\<And>n. connections (serverW w1) n \<noteq> Some d" for d dn
    using td that unfolding torn_down_def by blast
  have "let_go K w' d dn" if h: "n \<in> set (nm # names)" "connections (serverW w) n = Some d" "connsW w d = Some dn" for n d dn
  proof (cases "n = nm")
    case True
    then have "d = c" "dn = cn" using h nm c by auto
    then show ?thesis using b [OF _ free] w1(2) by simp
  next
    case False
    then have "connsW w1 d = Some dn" "n \<in> set names" "connections (serverW w1) n = Some d"
      using h w1(1) kept uniq by auto
    then show ?thesis using td unfolding torn_down_def by blast
  qed
  moreover have "let_go K w' d dn" if h: "let_go K w d dn" "\<And>n. connections (serverW w) n \<noteq> Some d" for d dn
    by (rule b [OF let_go_spared [OF h(1) w1(3)]]) (use h(2) nm w1(1) in auto)
  ultimately show ?thesis using td w1(1,3) unfolding torn_down_def spares_def by (auto simp: fun_eq_iff)
qed

lemma destroy_all_ok:
  assumes doc: "kernel_doc K" and U: "user_small U" and "struct_ok K w"
    and "t = threadId (loopsW w (srv_base (serverW w)))"
  shows "okl (torn_down K names w) (run_each (destroy_one K t U) names w)"
  using assms(3-)
proof (induction names arbitrary: w)
  case Nil
  then show ?case by (simp add: torn_down_def)
next
  case (Cons nm names)
  show ?case
  proof (cases "connections (serverW w) nm")
    case None
    then show ?thesis using okl_mono [OF Cons.IH [OF Cons.prems] torn_down_skip] by (simp add: destroy_one_def)
  next
    case (Some c)
    from names_okD(1) [OF struct_okD(3) [OF Cons.prems(1)] Some] obtain cn where cn: "connsW w c = Some cn" by blast
    show ?thesis
      unfolding run_each.simps
    proof (rule okl_bind [OF destroy_one_ok [OF doc U Cons.prems Some cn]], elim conjE)
      fix w1 assume st: "struct_ok K w1" and w1: "connections (serverW w1) = (connections (serverW w))(nm := None)"
        "let_go K w1 c cn" "spares K c w w1"
      have "t = threadId (loopsW w1 (srv_base (serverW w1)))" using w1(3) Cons.prems(2) by (simp add: spares_def)
      from Cons.IH [OF st this] show "okl (torn_down K (nm # names) w) (run_each (destroy_one K t U) names w1)"
        by (rule okl_mono) (rule torn_down_Cons [OF Cons.prems(1) Some cn w1])
    qed
  qed
qed

section \<open>The destructor\<close>

lemma acceptor_gone:
  assumes doc: "kernel_doc K" and ok: "loop_ok K L" and ch: "chans L (acceptChannel a) = Some ch"
  shows "\<exists>L'. destroy_acceptor K a L = Inr L' \<and> (\<forall>fd q. channelsM L' fd = Some q \<longrightarrow> channelsM L fd = Some q) \<and>
    (\<forall>fd e. interest K (kst L') fd = Some e \<longrightarrow> interest K (kst L) fd = Some e) \<and>
    (\<forall>fd. channelsM L' fd \<noteq> Some (acceptChannel a)) \<and>
    (\<forall>fd ev. interest K (kst L') fd \<noteq> Some (ev, acceptChannel a))"
proof -
  let ?p = "acceptChannel a"
  from disable_remove_ok [OF kernel_docD(1) [OF doc] loop_okD(1) [OF ok] ch loop_ok_free [OF ok ch]] obtain k' L' where
    L': "destroy_acceptor K a L = Inr L'" "reactor_wf K L'"
      "L' = L\<lparr>chans := (chans L)(?p \<mapsto> ch\<lparr>ch_events := 0, ch_index := kNew\<rparr>),
        channelsM := (channelsM L)(ch_fd ch := None), kst := k'\<rparr>" "interest K k' = (interest K (kst L))(ch_fd ch := None)"
    unfolding destroy_acceptor_def by blast
  have c: "chans L' ?p = Some (ch\<lparr>ch_events := 0, ch_index := kNew\<rparr>)" (is "_ = Some ?c") by (simp add: L'(3))
  have "channelsM L' fd \<noteq> Some ?p" for fd
    using reactor_wfD(1) [OF L'(2) c] reactor_wfD(2) [OF L'(2), of fd ?p] c by (auto elim: chan_okE)
  moreover have "interest K (kst L') fd \<noteq> Some (ev, ?p)" for fd ev
    using interest_registered [OF L'(2), of fd ev ?p] c by auto
  ultimately show ?thesis using L'(1,4) by (auto simp: L'(3) split: if_splits)
qed

text \<open>What is left of a connection after the body of the destructor.\<close>

lemma let_go_gone:
  assumes st: "struct_ok K w" and b: "srv_base (serverW w) = b" and g: "let_go K w c cn"
  shows "if loopId cn = b
     then channelsM (loopsW w b) fd \<noteq> Some c \<and> interest K (kst (loopsW w b)) fd \<noteq> Some (ev, c) \<and>
       (\<forall>cn'. connsW w c = Some cn' \<longrightarrow> (stateC cn = kConnected \<longrightarrow> stateC cn' = kDisconnected) \<and> captured w c)
     else connsW w c = Some cn \<and> ConnectDestroyedF c \<in> set (pendingFunctors (loopsW w (loopId cn))) \<and>
       woken K (loopsW w (loopId cn))"
proof (cases "loopId cn = b")
  case True
  have g: "\<not> special w b c" "\<And>cn'. connsW w c = Some cn' \<Longrightarrow> torn_conn w c cn cn' \<and> captured w c"
    using g True b by (auto simp: let_go_def)
  have bl: "b \<in> lids w" using b by (simp add: lids_def)
  note D = struct_okD [OF st]
  have "channelsM (loopsW w b) fd \<noteq> Some c \<and> interest K (kst (loopsW w b)) fd \<noteq> Some (ev, c)"
  proof (cases "connsW w c")
    case None
    then have ch: "chans (loopsW w b) c = None" using loops_okD(5) [OF D(1) bl, of c] g(1) by fastforce
    note wf = loop_okD(1) [OF loops_okD(3) [OF D(1) bl]]
    show ?thesis using reactor_wfD(2) [OF wf, of fd c] interest_registered [OF wf, of fd ev c] ch by auto
  next
    case (Some cn')
    then show ?thesis using unregistered [OF st Some, of fd] g(2) [OF Some] True by (simp add: torn_conn_def)
  qed
  then show ?thesis using True g(2) by (auto simp: torn_conn_def)
qed (use g b in \<open>simp add: let_go_def\<close>)

text \<open>
  C5: destroying the server. In every state the server reaches (no connection being closed
  between the test and the assignment of a \<^verbatim>\<open>shutdown\<close>), the body of the destructor, run by the base
  loop's thread over all entries of the map, can fail only with \<^verbatim>\<open>length_error\<close>. Otherwise the map is
  empty afterwards. A connection of the base loop is then in neither the poller's table nor the kernel's
  interest list; its object is gone, unless a functor still captures it, and then it was closed if it was
  open. The object of a connection of another loop is unchanged, and a call of \<^verbatim>\<open>connectDestroyed\<close> is pending in that
  loop, which is awake. If the server has no threads, so that its pool has nothing to quit and join,
  the acceptor's destructor succeeds too, and takes the acceptor out of the table and the interest list. The
  stopping of the threads of a pool that has some is not part of this property.
\<close>

theorem server_destructor:
  assumes "kernel_doc K" and "user_small U" and "booted K w0" and "(sys_next K U)\<^sup>*\<^sup>* w0 w"
    and "b = srv_base (serverW w)" and "t = threadId (loopsW w b)" and "set names = dom (connections (serverW w))"
    and "destroy_connections K t U names w = r"
  shows "r = Inl LengthError \<or> (\<exists>w'. r = Inr w' \<and> connections (serverW w') = (\<lambda>_. None) \<and>
    (\<forall>nm c cn. connections (serverW w) nm = Some c \<and> connsW w c = Some cn \<longrightarrow>
      (if loopId cn = b
       then channelsM (loopsW w' b) fd \<noteq> Some c \<and> interest K (kst (loopsW w' b)) fd \<noteq> Some (ev, c) \<and>
         (\<forall>cn'. connsW w' c = Some cn' \<longrightarrow> (stateC cn = kConnected \<longrightarrow> stateC cn' = kDisconnected) \<and>
            (\<exists>l \<in> lids w. \<exists>f \<in> set (funs w' l). functor_conn f = Some c))
       else connsW w' c = Some cn \<and> ConnectDestroyedF c \<in> set (pendingFunctors (loopsW w' (loopId cn))) \<and>
         woken K (loopsW w' (loopId cn)))) \<and>
    (threads (srv_pool (serverW w)) = [] \<longrightarrow>
      (\<exists>L. destroy_server K t U names w = Inr (w'\<lparr>loopsW := (loopsW w')(b := L)\<rparr>) \<and>
         channelsM L fd \<noteq> Some (acceptChannel (srv_acceptor (serverW w))) \<and>
         interest K (kst L) fd \<noteq> Some (ev, acceptChannel (srv_acceptor (serverW w))) \<and>
         (\<forall>q. channelsM L fd = Some q \<longrightarrow> channelsM (loopsW w' b) fd = Some q))))"
proof -
  note st = sys_inv_struct [OF reach_inv [OF assms(1-4)]]
  let ?a = "srv_acceptor (serverW w)"
  have t: "t = threadId (loopsW w (srv_base (serverW w)))" using assms(5,6) by simp
  note all = destroy_all_ok [OF assms(1,2) st t, of names]
  have r: "r = run_each (destroy_one K t U) names w" using assms(8) by (simp add: destroy_connections_def)
  show ?thesis
  proof (cases r)
    case (Inl e)
    then show ?thesis using all r by simp
  next
    case (Inr w1)
    have w1: "struct_ok K w1" "srv_base (serverW w1) = b" "srv_acceptor (serverW w1) = ?a" "lids w1 = lids w"
      "connections (serverW w1) = (\<lambda>nm. if nm \<in> set names then None else connections (serverW w) nm)"
      "\<forall>nm c cn. nm \<in> set names \<and> connections (serverW w) nm = Some c \<and> connsW w c = Some cn \<longrightarrow> let_go K w1 c cn"
      using all [folded r, unfolded Inr okl_simps torn_down_def] assms(5) by blast+
    have b: "b \<in> lids w1" using w1(2) by (simp add: lids_def)
    obtain ch where ch: "chans (loopsW w1 b) (acceptChannel ?a) = Some ch"
      using loops_okD(6) [OF struct_okD(1) [OF w1(1)]] w1(2,3) by auto
    from acceptor_gone [OF assms(1) loops_okD(3) [OF struct_okD(1) [OF w1(1)] b] ch] obtain L where
      L: "destroy_acceptor K ?a (loopsW w1 b) = Inr L" "channelsM L fd \<noteq> Some (acceptChannel ?a)"
        "interest K (kst L) fd \<noteq> Some (ev, acceptChannel ?a)"
      and keep: "\<And>q. channelsM L fd = Some q \<Longrightarrow> channelsM (loopsW w1 b) fd = Some q" by blast
    have "destroy_server K t U names w = Inr (w1\<lparr>loopsW := (loopsW w1)(b := L)\<rparr>)"
      using Inr L(1) w1(2,3) assms(8) by (simp add: destroy_server_def Let_def)
    moreover have "connections (serverW w1) = (\<lambda>_. None)" using w1(5) assms(7) by (auto simp: fun_eq_iff)
    moreover have "let_go K w1 c cn" if "connections (serverW w) nm = Some c" "connsW w c = Some cn" for nm c cn
      using w1(6) that assms(7) by blast
    note let_go_gone [OF w1(1,2) this, unfolded captured_def w1(4), where fd = fd and ev = ev]
    ultimately show ?thesis using Inr L(2,3) keep by blast
  qed
qed

theorem server_destructor_witness:
  "\<exists>w nm r. connections (serverW w) = [nm \<mapsto> 2] \<and> destroy_connections skern 100 echo_callbacks [nm] w = r \<and>
     (r = Inl LengthError \<or> (\<exists>w'. r = Inr w' \<and> connections (serverW w') = (\<lambda>_. None)))"
proof -
  obtain w0 w nm where w: "booted skern w0" "(sys_next skern echo_callbacks)\<^sup>*\<^sup>* w0 w" "trace_base w [] False [] []"
    "connections (serverW w) = [nm \<mapsto> 2]" by (rule trace_open)
  have h: "0 = srv_base (serverW w)" "100 = threadId (loopsW w 0)" using w(3) by (simp_all add: trace_base_def)
  have "set [nm] = dom (connections (serverW w))" using w(4) by simp
  from server_destructor [OF skern_doc demo_user w(1,2) h this refl] w(4) show ?thesis by blast
qed

end
