(* ===== verification/EchoServer.thy ===== *)
theory EchoServer
  imports ServerDispatch ServerDestroy
begin

text \<open>
  The programs of the repository that use the library: \<^verbatim>\<open>example/testserver.cc\<close> and
  \<^verbatim>\<open>benchmark/cpp17_pingpong_server.cc\<close>. Their callbacks are instances of the user callbacks of theory
  \<open>TcpConnection\<close>, their \<^verbatim>\<open>main\<close> functions instances of \<open>boot\<close>.
\<close>

section \<open>The programs\<close>

text \<open>
  \<^verbatim>\<open>EchoServer::onConnection\<close> only logs, \<open>echo_log\<close> is the text; \<^verbatim>\<open>onMessage\<close> takes the whole input and
  sends four messages. Taking the input cannot fail, because the buffers of connections are
  well-formed (\<open>retrieveAllAsString_content\<close> below), so the first branch never applies.
\<close>

definition echo_log :: "tcpconn \<Rightarrow> string" where
  "echo_log c = (if connected c then ''Connection UP : '' else ''Connection DOWN : '') @ toIpPort (peerAddr c)"

definition test_text :: string where
  "test_text = ''test'' @ [CHR 0x0A]"

definition echo_onMessage :: "tcpconn \<Rightarrow> user_op list" where
  "echo_onMessage c = (case retrieveAllAsString (inputBuffer c) of
      Inl e \<Rightarrow> []
    | Inr (msg, b) \<Rightarrow> [URetrieveAll, USend test_text, USend msg, USend msg, USend ''hello''])"

definition echo_server :: user_callbacks where
  "echo_server = \<lparr>onConnection = (\<lambda>_. []), onMessage = echo_onMessage, onWriteComplete = (\<lambda>_. []),
     onHighWaterMark = (\<lambda>_ _. [])\<rparr>"

definition echo_main :: "'k kernel \<Rightarrow> (nat \<Rightarrow> int) \<Rightarrow> (nat \<Rightarrow> int) \<Rightarrow> (nat \<Rightarrow> int) \<Rightarrow> (nat \<Rightarrow> 'k) \<Rightarrow> int \<Rightarrow> int \<Rightarrow> 'k world result" where
  "echo_main K tids epfds evfds ks fd bind_ret =
     boot K tids epfds evfds ks (mk_inet 8080 default_ip) ''EchoServer'' kNoReusePort fd bind_ret False False 0"

text \<open>The ping-pong server; the arguments are those of the command line after \<^verbatim>\<open>atoi\<close>.\<close>

definition pingpong_onConnection :: "tcpconn \<Rightarrow> user_op list" where
  "pingpong_onConnection c = (if connected c then [USetTcpNoDelay True] else [])"

definition pingpong_server :: user_callbacks where
  "pingpong_server = \<lparr>onConnection = pingpong_onConnection, onMessage = (\<lambda>_. [USendInput]), onWriteComplete = (\<lambda>_. []),
     onHighWaterMark = (\<lambda>_ _. [])\<rparr>"

definition pingpong_main :: "'k kernel \<Rightarrow> (nat \<Rightarrow> int) \<Rightarrow> (nat \<Rightarrow> int) \<Rightarrow> (nat \<Rightarrow> int) \<Rightarrow> (nat \<Rightarrow> 'k) \<Rightarrow> int \<Rightarrow> int \<Rightarrow> string \<Rightarrow> int \<Rightarrow> int \<Rightarrow>
    'k world result" where
  "pingpong_main K tids epfds evfds ks fd bind_ret ip port threadCount =
     boot K tids epfds evfds ks (mk_inet (word_of_int port) ip) ''PingPong'' kNoReusePort fd bind_ret False False
       (if 1 < threadCount then threadCount else 0)"

section \<open>Properties\<close>

lemma retrieveAllAsString_content:
  assumes "buffer_wf b"
  shows "\<exists>b'. retrieveAllAsString b = Inr (content b, b')"
  using peek_content [OF assms, of "length (content b)"] assms by (simp add: retrieveAllAsString_def retrieveAsString_def)

text \<open>What a message callback that looks only at the input makes of the abstract connection.\<close>

lemma handleRead_replies:
  fixes K :: "'k kernel" and s :: "('k, 'z) tcp_scheme"
  assumes doc: "kernel_doc K" and nr: "no_reset K" and inv: "conn_inv K s" "fin_ok K s"
    and t: "isInLoopThread t (ioLoop s)"
    and space: "length (bufferV (inputBuffer (conn s))) + extrabuf_size \<le> vec_max_size"
    and rv: "sock_readv K (kst (ioLoop s)) (socketFd (conn s)) (readFd_iov (inputBuffer (conn s))) = (k', ReadOk bs)"
    and bs: "bs \<noteq> []" and m: "m = content (inputBuffer (conn s)) @ bs"
    and ops: "\<And>c. buffer_wf (inputBuffer c) \<Longrightarrow> content (inputBuffer c) = m \<Longrightarrow> onMessage U c = ops"
    and ok: "list_all op_ok ops" and mem: "room s + length bs + sum_list (map op_cost ops) \<le> vec_max_size"
  shows "\<exists>s'. handleRead K t U closeCb s = Inr s' \<and> conn_inv K s' \<and> fin_ok K s' \<and> conn_frame K s s' \<and>
    abs_conn K s' = fold spec_op ops ((abs_conn K s)\<lparr>a_in := m\<rparr>)"
proof -
  from handleRead_ok [OF doc inv space rv, of t U closeCb] obtain s1 where
    s1: "conn_inv K s1" "fin_ok K s1" "conn_frame K s s1"
      "abs_conn K s1 = (abs_conn K s)\<lparr>a_in := m\<rparr>" "outputBuffer (conn s1) = outputBuffer (conn s)"
    and h: "handleRead K t U closeCb s = user K t (onMessage U) s1"
    using bs by (auto simp: m abs_conn_def)
  have c: "content (inputBuffer (conn s1)) = m" using s1(4) by (simp add: abs_conn_def)
  have "buffer_wf (inputBuffer (conn s1))" using s1(1) by (simp add: conn_inv_def conn_base_def)
  then have o: "onMessage U (conn s1) = ops" using ops c by blast
  have t1: "isInLoopThread t (ioLoop s1)" using t conn_frameD(7) [OF s1(3)] by (simp add: isInLoopThread_def)
  have "room s1 = room s + length bs" using s1(5) c m by (simp add: room_def)
  with mem have "room s1 + sum_list (map op_cost ops) \<le> vec_max_size" by simp
  from run_user_ops [OF doc nr s1(1,2) t1 ok this] obtain s' where
    s': "run_each (do_user_op K t) ops s1 = Inr s'" "conn_inv K s'" "fin_ok K s'" "conn_frame K s1 s'"
      "abs_conn K s' = fold spec_op ops (abs_conn K s1)" by blast
  have "handleRead K t U closeCb s = Inr s'" using h s'(1) o by (simp add: user_def)
  then show ?thesis using s' s1(4) conn_frame_trans [OF s1(3) s'(4)] by auto
qed

text \<open>
  C39: the example server. Whenever bytes arrive on an open connection, and the peer does not reset it while
  the reply is written, the peer is sent \<^verbatim>\<open>test\<close> and a newline, all the input twice and \<^verbatim>\<open>hello\<close>, in this order and behind everything sent before, and the
  input buffer is empty afterwards.
\<close>

theorem echo_server_replies:
  fixes K :: "'k kernel" and s :: "('k, 'z) tcp_scheme"
  assumes "kernel_doc K" and "no_reset K" and "conn_inv K s" and "fin_ok K s" and "isInLoopThread t (ioLoop s)"
    and "stateC (conn s) = kConnected"
    and "length (bufferV (inputBuffer (conn s))) + extrabuf_size \<le> vec_max_size"
    and "sock_readv K (kst (ioLoop s)) (socketFd (conn s)) (readFd_iov (inputBuffer (conn s))) = (k', ReadOk bs)"
    and "bs \<noteq> []" and "m = content (inputBuffer (conn s)) @ bs"
    and "room s + length bs + 2 * length m + 10 \<le> vec_max_size"
  shows "\<exists>s'. handleRead K t echo_server closeCb s = Inr s' \<and> conn_inv K s' \<and> stateC (conn s') = kConnected \<and>
    out_stream K s' = out_stream K s @ test_text @ m @ m @ ''hello'' \<and> content (inputBuffer (conn s')) = []"
proof -
  let ?ops = "[URetrieveAll, USend test_text, USend m, USend m, USend ''hello'']"
  have ops: "onMessage echo_server c = ?ops" if "buffer_wf (inputBuffer c)" "content (inputBuffer c) = m" for c
    using retrieveAllAsString_content [OF that(1)] that(2) by (auto simp: echo_server_def echo_onMessage_def)
  have len: "list_all op_ok ?ops" "room s + length bs + sum_list (map op_cost ?ops) \<le> vec_max_size"
    using assms(11) by (simp_all add: test_text_def)
  from handleRead_replies [OF assms(1-5,7-10) ops len, of closeCb] obtain s' where
    "handleRead K t echo_server closeCb s = Inr s'" "conn_inv K s'"
    "abs_conn K s' = fold spec_op ?ops ((abs_conn K s)\<lparr>a_in := m\<rparr>)" by blast
  then show ?thesis using assms(6) by (intro exI [of _ s']) (simp add: abs_conn_def)
qed

lemma sample_input:
  "length (bufferV (inputBuffer (conn sample_tcp))) + extrabuf_size \<le> vec_max_size"
  "sock_readv calm (kst (ioLoop sample_tcp)) (socketFd (conn sample_tcp)) (readFd_iov (inputBuffer (conn sample_tcp))) =
     (kst (ioLoop sample_tcp), ReadOk ''hello'')"
  "content (inputBuffer (conn sample_tcp)) = []"
proof -
  have "inputBuffer (conn sample_tcp) = small_buffer" "length (bufferV small_buffer) = 16"
    by (simp_all add: sample_tcp_def sample_conn_def small_buffer_def)
  moreover have "readFd_iov small_buffer = [8, 65536]" by code_simp
  moreover have "sk_inbox (kst (ioLoop sample_tcp)) = ''hello''" by (simp add: sample_tcp_def sk_init_def)
  ultimately show "length (bufferV (inputBuffer (conn sample_tcp))) + extrabuf_size \<le> vec_max_size"
    "sock_readv calm (kst (ioLoop sample_tcp)) (socketFd (conn sample_tcp)) (readFd_iov (inputBuffer (conn sample_tcp))) =
       (kst (ioLoop sample_tcp), ReadOk ''hello'')"
    "content (inputBuffer (conn sample_tcp)) = []"
    by (simp_all add: extrabuf_size_def vec_max_size_less small_buffer_wf)
qed

theorem echo_server_replies_witness:
  "\<exists>s'. handleRead calm 100 echo_server (\<lambda>s. Inr s) sample_tcp = Inr s' \<and>
     out_stream calm s' = ''test'' @ [CHR 0x0A] @ ''hellohellohello''"
proof -
  have m: "''hello'' = content (inputBuffer (conn sample_tcp)) @ ''hello''" by (simp add: sample_input)
  have r: "room sample_tcp + length ''hello'' + 2 * length ''hello'' + 10 \<le> vec_max_size"
    by (simp add: sample_room vec_max_size_less)
  from echo_server_replies [OF calm_doc calm_no_reset sample_calm(1,2) sample_tcp_inv(3,4) sample_input(1,2) _ m r,
      of "\<lambda>s. Inr s"]
  show ?thesis using sample_calm(3) by (auto simp: test_text_def)
qed

text \<open>
  The ping-pong server. A new connection gets \<^verbatim>\<open>TCP_NODELAY\<close>, is open and reads; whenever
  bytes arrive on an open connection, exactly the input is sent back behind everything sent before
  and the input buffer is empty afterwards.
\<close>

theorem pingpong_echoes:
  fixes K :: "'k kernel" and s :: "('k, 'z) tcp_scheme" and s0 :: "('k, 'y) tcp_scheme"
  assumes "kernel_doc K" and "no_reset K" and "conn_inv K s" and "fin_ok K s" and "isInLoopThread t (ioLoop s)"
    and "stateC (conn s) = kConnected"
    and "length (bufferV (inputBuffer (conn s))) + extrabuf_size \<le> vec_max_size"
    and "sock_readv K (kst (ioLoop s)) (socketFd (conn s)) (readFd_iov (inputBuffer (conn s))) = (k', ReadOk bs)"
    and "bs \<noteq> []" and "room s + length bs \<le> vec_max_size"
    and "conn_inv K s0" and "stateC (conn s0) = kConnecting"
  shows "(\<exists>s'. handleRead K t pingpong_server closeCb s = Inr s' \<and> conn_inv K s' \<and> stateC (conn s') = kConnected \<and>
      out_stream K s' = out_stream K s @ content (inputBuffer (conn s)) @ bs \<and> content (inputBuffer (conn s')) = []) \<and>
    (\<exists>s' ch. connectEstablished K t0 pingpong_server s0 = Inr s' \<and> stateC (conn s') = kConnected \<and>
      sockopts (socketC (conn s')) TCP_NODELAY = Some 1 \<and> c_chan s' = Some ch \<and> isReading ch)"
proof -
  let ?m = "content (inputBuffer (conn s)) @ bs"
  have ops: "onMessage pingpong_server c = [USendInput]" for c by (simp add: pingpong_server_def)
  have len: "list_all op_ok [USendInput]" "room s + length bs + sum_list (map op_cost [USendInput]) \<le> vec_max_size"
    using assms(10) by simp_all
  from handleRead_replies [OF assms(1-5,7-9) refl ops len, of closeCb] obtain s' where
    s': "handleRead K t pingpong_server closeCb s = Inr s'" "conn_inv K s'"
      "abs_conn K s' = fold spec_op [USendInput] ((abs_conn K s)\<lparr>a_in := ?m\<rparr>)" by blast
  from connectEstablished_run [OF assms(1,11,12), of t0 pingpong_server] obtain s1 ch where
    s1: "connectEstablished K t0 pingpong_server s0 = user K t0 (onConnection pingpong_server) s1"
      "conn s1 = (conn s0)\<lparr>stateC := kConnected\<rparr>" "c_chan s1 = Some ch" "isReading ch" by blast
  let ?s = "s1\<lparr>conn := conn_setTcpNoDelay True (conn s1)\<rparr>"
  have "connectEstablished K t0 pingpong_server s0 = Inr ?s"
    unfolding s1(1) user_def using s1(2)
    by (simp add: pingpong_server_def pingpong_onConnection_def connected_def do_user_op_def)
  moreover have "stateC (conn ?s) = kConnected" "sockopts (socketC (conn ?s)) TCP_NODELAY = Some 1" "c_chan ?s = Some ch"
    using s1(2,3) by (simp_all add: conn_setTcpNoDelay_def setTcpNoDelay_def setsockopt_def c_chan_def)
  ultimately show ?thesis using s' s1(4) assms(6)
    by (intro conjI exI [of _ s'] exI [of _ ?s] exI [of _ ch]) (simp_all add: abs_conn_def)
qed

theorem pingpong_echoes_witness:
  "(\<exists>s'. handleRead calm 100 pingpong_server (\<lambda>s. Inr s) sample_tcp = Inr s' \<and> out_stream calm s' = ''hello'') \<and>
   (\<exists>s'. connectEstablished calm 100 pingpong_server (setState kConnecting sample_tcp) = Inr s' \<and>
      sockopts (socketC (conn s')) TCP_NODELAY = Some 1)"
proof -
  have i: "conn_inv calm (setState kConnecting sample_tcp)" "stateC (conn (setState kConnecting sample_tcp)) = kConnecting"
    using sample_calm(1) sample_tcp_inv(4) conn_upd_base(3) [of calm sample_tcp kConnecting]
    by (simp_all add: conn_inv_def) (simp_all add: setState_def)
  have r: "room sample_tcp + length ''hello'' \<le> vec_max_size" by (simp add: sample_room vec_max_size_less)
  from pingpong_echoes [OF calm_doc calm_no_reset sample_calm(1,2) sample_tcp_inv(3,4) sample_input(1,2) _ r i,
      of "\<lambda>s. Inr s" 100]
  show ?thesis using sample_calm(3) sample_input(3) by auto
qed

end
