(* ===== verification/PingpongClient.thy ===== *)
theory PingpongClient
  imports EchoServer Logging
begin

text \<open>
  The load generator of the benchmark, \<^verbatim>\<open>benchmark/muduo_pingpong_client.cc\<close>, and its second server,
  \<^verbatim>\<open>benchmark/muduo_pingpong_server.cc\<close>. Both are written against the original muduo: what they ask of that
  library is the list of actions the handlers return, the order in which its pool deals out loops is
  a parameter. The lemmas give, for every sequence of the calls muduo makes, what each session sends,
  what it counts, and what the client reports.
\<close>

section \<open>Sessions and the client\<close>

record session =
  sessLoop :: nat
  sessName :: string
  bytesRead :: "64 word"
  bytesWritten :: "64 word"
  messagesRead :: "64 word"

record client =
  sessionCount :: int
  timeoutC :: "32 word"
  sessions :: "session list"
  messageC :: string
  numConnected :: "32 word"

text \<open>
  What the handlers ask of muduo. A logged quotient of two numbers is a constructor of its own:
  the code computes it in floating point.
\<close>

datatype client_act =
    ARunAfter "32 word"
  | ASetThreadNum int
  | AStartPool
  | AConnect nat
  | ADisconnect nat
  | ASetTcpNoDelay nat bool
  | ASend nat string
  | ALogWarn string
  | ALogQuotient "64 word" "64 word" string
  | AQueueClientQuit nat
  | AQueueLoopQuit

definition mk_session :: "nat \<Rightarrow> string \<Rightarrow> session" where
  "mk_session l nm = \<lparr>sessLoop = l, sessName = nm, bytesRead = 0, bytesWritten = 0, messagesRead = 0\<rparr>"

definition session_name :: "nat \<Rightarrow> string" where
  "session_name i = snprintf_at 32 [] 0 (''C'' @ fmt_0d 5 (int i))"

definition client_message :: "int \<Rightarrow> string" where
  "client_message blockSize = map (\<lambda>i. char_of (i mod 128)) [0..<nat blockSize]"

text \<open>The constructor; \<open>nextLoop i\<close> is what the \<open>i\<close>-th call of the pool's \<^verbatim>\<open>getNextLoop\<close> returns.\<close>

definition mk_client :: "(nat \<Rightarrow> nat) \<Rightarrow> int \<Rightarrow> int \<Rightarrow> 32 word \<Rightarrow> int \<Rightarrow> client \<times> client_act list" where
  "mk_client nextLoop blockSize count timeout threadCount =
     (\<lparr>sessionCount = count, timeoutC = timeout,
       sessions = map (\<lambda>i. mk_session (nextLoop i) (session_name i)) [0..<nat count],
       messageC = client_message blockSize, numConnected = 0\<rparr>,
      [ARunAfter timeout] @ (if 1 < threadCount then [ASetThreadNum threadCount] else []) @ [AStartPool] @
      map AConnect [0..<nat count])"

text \<open>\<^verbatim>\<open>Session::onMessage\<close> on a buffer with the readable bytes \<open>buf\<close>, which \<^verbatim>\<open>send(buf)\<close> takes out.\<close>

definition session_onMessage :: "nat \<Rightarrow> string \<Rightarrow> session \<Rightarrow> session \<times> client_act list" where
  "session_onMessage i buf s =
     (s\<lparr>messagesRead := messagesRead s + 1, bytesRead := bytesRead s + of_nat (length buf),
        bytesWritten := bytesWritten s + of_nat (length buf)\<rparr>, [ASend i buf])"

definition client_onConnect :: "client \<Rightarrow> client \<times> client_act list" where
  "client_onConnect c = (let n = numConnected c + 1 in
     (c\<lparr>numConnected := n\<rparr>, if n = of_int (sessionCount c) then [ALogWarn ''all connected''] else []))"

definition total_read :: "session list \<Rightarrow> 64 word" where
  "total_read ss = foldl (\<lambda>t s. t + bytesRead s) 0 ss"

definition total_messages :: "session list \<Rightarrow> 64 word" where
  "total_messages ss = foldl (\<lambda>t s. t + messagesRead s) 0 ss"

text \<open>The divisor of the throughput is computed in \<^verbatim>\<open>int\<close>, and widened with its sign.\<close>

definition throughput_divisor :: "32 word \<Rightarrow> 64 word" where
  "throughput_divisor timeout = signed (timeout * 1024 * 1024)"

definition client_report :: "client \<Rightarrow> client_act list" where
  "client_report c = (let tb = total_read (sessions c); tm = total_messages (sessions c) in
     [ALogWarn (to_string (sint tb) @ '' total bytes read''),
      ALogWarn (to_string (sint tm) @ '' total messages read''),
      ALogQuotient tb tm '' average message size'',
      ALogQuotient tb (throughput_divisor (timeoutC c)) '' MiB/s throughput''])"

definition client_onDisconnect :: "nat \<Rightarrow> client \<Rightarrow> client \<times> client_act list" where
  "client_onDisconnect l c = (let n = numConnected c - 1; c' = c\<lparr>numConnected := n\<rparr> in
     (c', if n = 0 then [ALogWarn ''all disconnected''] @ client_report c' @ [AQueueClientQuit l] else []))"

definition session_onConnection :: "nat \<Rightarrow> bool \<Rightarrow> client \<Rightarrow> client \<times> client_act list" where
  "session_onConnection i up c =
     (if up
      then (case client_onConnect c of (c', as) \<Rightarrow> (c', [ASetTcpNoDelay i True, ASend i (messageC c)] @ as))
      else client_onDisconnect (sessLoop (sessions c ! i)) c)"

definition client_quit :: "client_act list" where
  "client_quit = [AQueueLoopQuit]"

definition client_handleTimeout :: "client \<Rightarrow> client_act list" where
  "client_handleTimeout c = [ALogWarn ''stop''] @ map ADisconnect [0..<length (sessions c)]"

text \<open>\<^verbatim>\<open>main\<close>; the arguments are those of the command line after \<^verbatim>\<open>atoi\<close>, the address goes to the library.\<close>

definition client_main :: "(nat \<Rightarrow> nat) \<Rightarrow> int \<Rightarrow> string \<Rightarrow> int \<Rightarrow> int \<Rightarrow> int \<Rightarrow> int \<Rightarrow> int \<Rightarrow>
    ((string \<times> 16 word) \<times> client \<times> client_act list) option" where
  "client_main nextLoop argc ip port threadCount blockSize count timeout =
     (if argc \<noteq> 7 then None
      else Some ((ip, word_of_int port), mk_client nextLoop blockSize count (word_of_int timeout) threadCount))"

text \<open>
  The calls muduo makes: a connection of a session coming up or going down, a message on it, the
  timer, and the queued \<^verbatim>\<open>Client::quit\<close>. A handler of a session runs in the session's loop and, the atomic
  counter apart, writes only to the session, so the handlers are the steps.
\<close>

datatype client_event = EConnected nat | EMessage nat string | EDisconnected nat | ETimeout | EQuit

fun client_step :: "client_event \<Rightarrow> client \<Rightarrow> client \<times> client_act list" where
  "client_step (EConnected i) c = session_onConnection i True c"
| "client_step (EDisconnected i) c = session_onConnection i False c"
| "client_step (EMessage i buf) c = (case session_onMessage i buf (sessions c ! i) of
     (s, as) \<Rightarrow> (c\<lparr>sessions := (sessions c)[i := s]\<rparr>, as))"
| "client_step ETimeout c = (c, client_handleTimeout c)"
| "client_step EQuit c = (c, client_quit)"

fun client_run :: "client_event list \<Rightarrow> client \<Rightarrow> client \<times> client_act list" where
  "client_run [] c = (c, [])"
| "client_run (e # es) c = (case client_step e c of (c', as) \<Rightarrow>
     (case client_run es c' of (c'', bs) \<Rightarrow> (c'', as @ bs)))"

section \<open>The server on the original muduo\<close>

text \<open>
  \<^verbatim>\<open>main\<close> builds a server for the address and the name, sets the callbacks, chooses the number of
  threads and enters the loop; \<open>serve\<close> is the library. The callbacks are those of the other server.
\<close>

definition muduo_onConnection :: "tcpconn \<Rightarrow> user_op list" where
  "muduo_onConnection c = (if connected c then [USetTcpNoDelay True] else [])"

definition muduo_onMessage :: "tcpconn \<Rightarrow> user_op list" where
  "muduo_onMessage c = [USendInput]"

definition muduo_server_main :: "(string \<Rightarrow> 16 word \<Rightarrow> string \<Rightarrow> (tcpconn \<Rightarrow> user_op list) \<Rightarrow> (tcpconn \<Rightarrow> user_op list) \<Rightarrow>
    int option \<Rightarrow> 'r) \<Rightarrow> int \<Rightarrow> string \<Rightarrow> int \<Rightarrow> int \<Rightarrow> 'r option" where
  "muduo_server_main serve argc ip port threadCount =
     (if argc < 4 then None
      else Some (serve ip (word_of_int port) ''PingPong'' muduo_onConnection muduo_onMessage
        (if 1 < threadCount then Some threadCount else None)))"

text \<open>Both servers of the benchmark ask the same of their library.\<close>

lemma muduo_server_same:
  fixes K :: "'k kernel"
  assumes "serve = (\<lambda>ip port nm onC onM threads. if onC = onConnection pingpong_server \<and> onM = onMessage pingpong_server
      then boot K tids epfds evfds ks (mk_inet port ip) nm kNoReusePort fd bind_ret False False (case threads of None \<Rightarrow> 0 | Some n \<Rightarrow> n)
      else Inl ExitFatal)" and "4 \<le> argc"
  shows "muduo_server_main serve argc ip port threadCount = Some (pingpong_main K tids epfds evfds ks fd bind_ret ip port threadCount)"
proof -
  have "muduo_onConnection = onConnection pingpong_server" "muduo_onMessage = onMessage pingpong_server"
    by (simp_all add: fun_eq_iff muduo_onConnection_def muduo_onMessage_def pingpong_server_def pingpong_onConnection_def)
  then show ?thesis using assms by (simp add: muduo_server_main_def pingpong_main_def)
qed

section \<open>What the client counts\<close>

definition sent_to :: "nat \<Rightarrow> client_act list \<Rightarrow> string" where
  "sent_to i as = concat (map (\<lambda>a. case a of ASend j b \<Rightarrow> if j = i then b else [] | _ \<Rightarrow> []) as)"

definition msgs_of :: "nat \<Rightarrow> client_event list \<Rightarrow> string list" where
  "msgs_of i es = concat (map (\<lambda>e. case e of EMessage j b \<Rightarrow> if j = i then [b] else [] | _ \<Rightarrow> []) es)"

definition count_up :: "client_event list \<Rightarrow> nat" where
  "count_up es = length (filter (\<lambda>e. case e of EConnected i \<Rightarrow> True | _ \<Rightarrow> False) es)"

definition count_down :: "client_event list \<Rightarrow> nat" where
  "count_down es = length (filter (\<lambda>e. case e of EDisconnected i \<Rightarrow> True | _ \<Rightarrow> False) es)"

text \<open>What has changed after a sequence of events.\<close>

definition tally :: "client_event list \<Rightarrow> client \<Rightarrow> client \<Rightarrow> bool" where
  "tally es c c' \<longleftrightarrow> length (sessions c') = length (sessions c) \<and> timeoutC c' = timeoutC c \<and>
     numConnected c' = numConnected c + of_nat (count_up es) - of_nat (count_down es) \<and>
     (\<forall>i < length (sessions c). messagesRead (sessions c' ! i) = messagesRead (sessions c ! i) + of_nat (length (msgs_of i es)) \<and>
        bytesRead (sessions c' ! i) = bytesRead (sessions c ! i) + of_nat (length (concat (msgs_of i es))) \<and>
        bytesWritten (sessions c' ! i) = bytesWritten (sessions c ! i) + of_nat (length (concat (msgs_of i es))))"

lemma tally_append: "tally es c c1 \<Longrightarrow> tally fs c1 c2 \<Longrightarrow> tally (es @ fs) c c2"
  by (simp add: tally_def count_up_def count_down_def msgs_of_def)

lemma tally_step:
  assumes "client_step e c = (c', as)"
  shows "tally [e] c c'"
proof (cases e)
  case (EMessage i buf)
  then show ?thesis using assms
    by (auto simp: tally_def session_onMessage_def count_up_def count_down_def msgs_of_def nth_list_update)
qed (use assms in \<open>auto simp: tally_def session_onConnection_def client_onConnect_def client_onDisconnect_def Let_def
      count_up_def count_down_def msgs_of_def\<close>)

lemma tally_run: "client_run es c = (c', as) \<Longrightarrow> tally es c c'"
proof (induction es arbitrary: c as)
  case Nil
  then show ?case by (simp add: tally_def count_up_def count_down_def msgs_of_def)
next
  case (Cons e es)
  from Cons.prems obtain c1 as1 as2 where "client_step e c = (c1, as1)" and "client_run es c1 = (c', as2)"
    by (auto split: prod.splits)
  from tally_append [OF tally_step [OF this(1)] Cons.IH [OF this(2)]] show ?case by simp
qed

text \<open>
  The report, when the counter of open connections reaches zero: it sums up what all messages
  brought, as far as 64 bits hold it, and then has the program end.
\<close>

lemma total_sum: "total_read ss = (\<Sum>s\<leftarrow>ss. bytesRead s)" "total_messages ss = (\<Sum>s\<leftarrow>ss. messagesRead s)"
proof -
  have "foldl (\<lambda>t s. t + f s) a ss = a + (\<Sum>s\<leftarrow>ss. f s)" for f :: "session \<Rightarrow> 64 word" and a
    by (induction ss arbitrary: a) simp_all
  then show "total_read ss = (\<Sum>s\<leftarrow>ss. bytesRead s)" "total_messages ss = (\<Sum>s\<leftarrow>ss. messagesRead s)"
    by (simp_all add: total_read_def total_messages_def)
qed

lemma client_report_totals:
  assumes "c = fst (mk_client nextLoop blockSize count timeout threadCount)" and "client_run es c = (c', as)"
    and "of_nat (count_up es) - of_nat (count_down es) = (1 :: 32 word)" and "j < nat count"
  shows "snd (client_step (EDisconnected j) c') = [ALogWarn ''all disconnected''] @ client_report c' @
      [AQueueClientQuit (sessLoop (sessions c' ! j))]"
    and "total_read (sessions c') = of_nat (\<Sum>i < nat count. length (concat (msgs_of i es)))"
    and "total_messages (sessions c') = of_nat (\<Sum>i < nat count. length (msgs_of i es))"
proof -
  note R = tally_run [OF assms(2), unfolded tally_def]
  have c: "length (sessions c) = nat count" "numConnected c = 0" "\<And>i. i < nat count \<Longrightarrow> bytesRead (sessions c ! i) = 0"
    "\<And>i. i < nat count \<Longrightarrow> messagesRead (sessions c ! i) = 0"
    by (simp_all add: assms(1) mk_client_def mk_session_def)
  have n: "numConnected c' = 1" using R assms(3) c(2) by simp
  then show "snd (client_step (EDisconnected j) c') = [ALogWarn ''all disconnected''] @ client_report c' @
      [AQueueClientQuit (sessLoop (sessions c' ! j))]"
    by (simp add: session_onConnection_def client_onDisconnect_def Let_def client_report_def)
  have sum: "(\<Sum>s\<leftarrow>sessions c'. f s) = (\<Sum>i < nat count. f (sessions c' ! i))" for f :: "session \<Rightarrow> 64 word"
    using R c(1) by (simp add: sum_list_sum_nth atLeast0LessThan)
  show "total_read (sessions c') = of_nat (\<Sum>i < nat count. length (concat (msgs_of i es)))"
    unfolding total_sum sum of_nat_sum by (rule sum.cong) (use R c in auto)
  show "total_messages (sessions c') = of_nat (\<Sum>i < nat count. length (msgs_of i es))"
    unfolding total_sum sum of_nat_sum by (rule sum.cong) (use R c in auto)
qed

text \<open>
  Two weaknesses of the report. It does not wait for sessions that have not connected yet: of two
  sessions, one that comes and goes ends the program. And the divisor of the throughput overflows
  for a run of 2048 seconds.
\<close>

lemma client_reports_early:
  "AQueueClientQuit 0 \<in> set (snd (client_run [EConnected 0, EDisconnected 0] (fst (mk_client (\<lambda>_. 0) 4 2 10 1))))"
  by (simp add: mk_client_def session_onConnection_def client_onConnect_def client_onDisconnect_def Let_def mk_session_def upt_rec)

lemma throughput_divisor_overflows: "sint (throughput_divisor 2047) = 2047 * 1024 * 1024" "sint (throughput_divisor 2048) < 0"
  by (simp_all add: throughput_divisor_def)

section \<open>Properties\<close>

text \<open>What session \<open>i\<close> sends: its first message when its connection comes up, then what it is sent itself.\<close>

definition asked :: "nat \<Rightarrow> string \<Rightarrow> client_event list \<Rightarrow> string" where
  "asked i m es = concat (map (\<lambda>e. case e of EConnected j \<Rightarrow> if j = i then m else []
     | EMessage j b \<Rightarrow> if j = i then b else [] | _ \<Rightarrow> []) es)"

lemma sent_to_append [simp]: "sent_to i (as @ bs) = sent_to i as @ sent_to i bs"
  by (simp add: sent_to_def)

lemma sent_step:
  assumes "client_step e c = (c', as)"
  shows "sent_to i as = asked i (messageC c) [e] \<and> messageC c' = messageC c \<and>
    map sessLoop (sessions c') = map sessLoop (sessions c)"
proof (cases e)
  case (EMessage j buf)
  then have c': "c' = c\<lparr>sessions := (sessions c)[j := fst (session_onMessage j buf (sessions c ! j))]\<rparr>"
    and as: "as = [ASend j buf]" using assms by (auto simp: session_onMessage_def)
  have "map sessLoop (sessions c') = map sessLoop (sessions c)"
    by (cases "j < length (sessions c)") (simp_all add: c' map_update session_onMessage_def list_update_same_conv list_update_beyond)
  then show ?thesis by (simp add: EMessage as c' sent_to_def asked_def)
qed (use assms in \<open>auto simp: session_onConnection_def client_onConnect_def client_onDisconnect_def Let_def client_report_def
      client_handleTimeout_def client_quit_def sent_to_def asked_def\<close>)

lemma sent_run: "client_run es c = (c', as) \<Longrightarrow> sent_to i as = asked i (messageC c) es \<and> messageC c' = messageC c \<and>
    map sessLoop (sessions c') = map sessLoop (sessions c)"
proof (induction es arbitrary: c as)
  case Nil
  then show ?case by (simp add: sent_to_def asked_def)
next
  case (Cons e es)
  from Cons.prems obtain c1 as1 as2 where "client_step e c = (c1, as1)" and "client_run es c1 = (c', as2)"
    and as: "as = as1 @ as2" by (auto split: prod.splits)
  from sent_step [OF this(1), of i] Cons.IH [OF this(2)] show ?case by (simp add: as asked_def)
qed

text \<open>
  C40: what the ping-pong client sends and counts, for every sequence of the calls muduo makes to its
  handlers (a connection coming up or going down, a message, the timeout, the queued quit), in any
  order. Each session has sent its message of \<open>blockSize\<close> bytes once for each time its connection came
  up, and every message it was given, unchanged and in order, and nothing else; its counters are
  the number of these messages and their bytes, read and written alike (modulo \<open>2 ^ 64\<close>). A
  connection going down has the client report exactly if the 32-bit counter of open connections was
  one: then it reports the sum over all sessions, divided as the code divides, and queues \<^verbatim>\<open>quit\<close> in
  the loop the pool gave the session; otherwise it does nothing but count.
\<close>

theorem client_accounts:
  assumes "c = fst (mk_client nextLoop blockSize count timeout threadCount)" and "client_run es c = (c', as)" and "i < nat count"
    and "tb = of_nat (\<Sum>j < nat count. length (concat (msgs_of j es)))" and "tm = of_nat (\<Sum>j < nat count. length (msgs_of j es))"
  shows "sent_to i as = asked i (client_message blockSize) es \<and> length (client_message blockSize) = nat blockSize \<and>
    messagesRead (sessions c' ! i) = of_nat (length (msgs_of i es)) \<and>
    bytesRead (sessions c' ! i) = of_nat (length (concat (msgs_of i es))) \<and>
    bytesWritten (sessions c' ! i) = bytesRead (sessions c' ! i) \<and>
    snd (client_step (EDisconnected i) c') =
      (if of_nat (count_up es) - of_nat (count_down es) = (1 :: 32 word)
       then [ALogWarn ''all disconnected'', ALogWarn (to_string (sint tb) @ '' total bytes read''),
         ALogWarn (to_string (sint tm) @ '' total messages read''), ALogQuotient tb tm '' average message size'',
         ALogQuotient tb (throughput_divisor timeout) '' MiB/s throughput'', AQueueClientQuit (nextLoop i)]
       else [])"
proof -
  note R = tally_run [OF assms(2), unfolded tally_def] and S = sent_run [OF assms(2), of i]
  have c: "length (sessions c) = nat count" "messageC c = client_message blockSize" "timeoutC c = timeout" "numConnected c = 0"
    "sessions c ! i = mk_session (nextLoop i) (session_name i)" using assms(3) by (simp_all add: assms(1) mk_client_def)
  have "map sessLoop (sessions c') ! i = map sessLoop (sessions c) ! i" using S by simp
  then have l: "sessLoop (sessions c' ! i) = nextLoop i" using R c(1,5) assms(3) by (simp add: mk_session_def)
  have n: "numConnected c' = of_nat (count_up es) - of_nat (count_down es)" using R c(4) by simp
  have last: "snd (client_step (EDisconnected i) c') = (if of_nat (count_up es) - of_nat (count_down es) = (1 :: 32 word)
       then [ALogWarn ''all disconnected'', ALogWarn (to_string (sint tb) @ '' total bytes read''),
         ALogWarn (to_string (sint tm) @ '' total messages read''), ALogQuotient tb tm '' average message size'',
         ALogQuotient tb (throughput_divisor timeout) '' MiB/s throughput'', AQueueClientQuit (nextLoop i)]
       else [])"
  proof (cases "of_nat (count_up es) - of_nat (count_down es) = (1 :: 32 word)")
    case True
    note Q = client_report_totals [OF assms(1,2) True assms(3)]
    show ?thesis unfolding Q(1) using True R
      by (simp add: client_report_def Let_def Q(2,3) assms(4,5) c(3) l)
  next
    case False
    then show ?thesis by (simp add: session_onConnection_def client_onDisconnect_def n)
  qed
  have "messagesRead (sessions c' ! i) = of_nat (length (msgs_of i es))"
    "bytesRead (sessions c' ! i) = of_nat (length (concat (msgs_of i es)))"
    "bytesWritten (sessions c' ! i) = of_nat (length (concat (msgs_of i es)))"
    using R c(1,5) assms(3) by (simp_all add: mk_session_def)
  then show ?thesis using S last by (simp add: c(2) client_message_def)
qed

lemma client_run_append: "client_run (es @ fs) c =
    (case client_run es c of (c1, as) \<Rightarrow> case client_run fs c1 of (c2, bs) \<Rightarrow> (c2, as @ bs))"
  by (induction es arbitrary: c) (simp_all add: split_beta)

theorem client_accounts_witness:
  "snd (client_run [EConnected 0, EMessage 0 ''abc'', EMessage 0 ''d'', ETimeout, EDisconnected 0] (fst (mk_client (\<lambda>_. 7) 4 1 10 1))) =
     [ASetTcpNoDelay 0 True, ASend 0 (client_message 4), ALogWarn ''all connected'', ASend 0 ''abc'', ASend 0 ''d'',
      ALogWarn ''stop'', ADisconnect 0] @
     [ALogWarn ''all disconnected'', ALogWarn ''4 total bytes read'', ALogWarn ''2 total messages read'',
      ALogQuotient 4 2 '' average message size'', ALogQuotient 4 10485760 '' MiB/s throughput'', AQueueClientQuit 7]"
proof -
  let ?c = "fst (mk_client (\<lambda>_. 7) 4 1 10 1)" and ?es = "[EConnected 0, EMessage 0 ''abc'', EMessage 0 ''d'', ETimeout]"
  obtain c' as where r: "client_run ?es ?c = (c', as)" by (cases "client_run ?es ?c")
  have "client_run (?es @ [EDisconnected 0]) ?c = (fst (client_step (EDisconnected 0) c'), as @ snd (client_step (EDisconnected 0) c'))"
    unfolding client_run_append r by (simp add: split_beta)
  moreover have "as = [ASetTcpNoDelay 0 True, ASend 0 (client_message 4), ALogWarn ''all connected'', ASend 0 ''abc'', ASend 0 ''d'',
      ALogWarn ''stop'', ADisconnect 0]"
    using r by (auto simp: mk_client_def session_onConnection_def client_onConnect_def session_onMessage_def client_handleTimeout_def)
  moreover have "snd (client_step (EDisconnected 0) c') = [ALogWarn ''all disconnected'', ALogWarn ''4 total bytes read'',
      ALogWarn ''2 total messages read'', ALogQuotient 4 2 '' average message size'',
      ALogQuotient 4 10485760 '' MiB/s throughput'', AQueueClientQuit 7]"
  proof -
    have s: "to_string (sint (4 :: 64 word)) = ''4''" "to_string (sint (2 :: 64 word)) = ''2''"
      "throughput_divisor 10 = 10485760" by code_simp+
    have n: "of_nat (count_up ?es) - of_nat (count_down ?es) = (1 :: 32 word)" by (simp add: count_up_def count_down_def)
    have m: "(4 :: 64 word) = of_nat (\<Sum>j < nat 1. length (concat (msgs_of j ?es)))"
      "(2 :: 64 word) = of_nat (\<Sum>j < nat 1. length (msgs_of j ?es))" by (simp_all add: msgs_of_def)
    have "0 < nat 1" by simp
    from client_accounts [OF refl r this m] have "snd (client_step (EDisconnected 0) c') =
        [ALogWarn ''all disconnected'', ALogWarn (to_string (sint (4 :: 64 word)) @ '' total bytes read''),
         ALogWarn (to_string (sint (2 :: 64 word)) @ '' total messages read''), ALogQuotient 4 2 '' average message size'',
         ALogQuotient 4 (throughput_divisor 10) '' MiB/s throughput'', AQueueClientQuit 7]"
      unfolding if_P [OF n] by blast
    then show ?thesis unfolding s by simp
  qed
  ultimately show ?thesis by simp
qed

end
