(* ===== verification/Spec2Isabelle.thy ===== *)
theory Spec2Isabelle
  imports PingpongClient
begin

text \<open>
  A verification development for muduo-cpp17, a C++17 rewrite of the muduo network library: a
  reactor (one event loop per thread over epoll) with a multi-threaded TCP server on top of it.

  \<^bold>\<open>The program and the theories.\<close> A program builds an \<^verbatim>\<open>EventLoop\<close> and a \<^verbatim>\<open>TcpServer\<close> and calls
  \<^verbatim>\<open>start\<close> and \<^verbatim>\<open>loop\<close>. The server owns an \<^verbatim>\<open>Acceptor\<close>, which runs in that base loop, and a pool of threads with one
  loop each. A new connection becomes a \<^verbatim>\<open>TcpConnection\<close> of one of these loops, chosen round robin; from then on
  only the thread of that loop touches it, and the other threads reach it through functors queued in
  the loop. Each class has a theory with its state as a record and one definition per method:

  \<^item> \<open>Prelude\<close>: the result type with the errors of C++ code (out-of-range access, overlapping copy, use after
    free, \<^verbatim>\<open>length_error\<close>, \<^verbatim>\<open>exit\<close>, signed overflow), 64-bit \<^verbatim>\<open>size_t\<close> arithmetic, vectors, decimal numbers, and the locale of
    inductive invariants.
  \<^item> \<open>ByteQueue\<close>, \<open>Buffer\<close> (\<^verbatim>\<open>include/Buffer.h\<close>, \<^verbatim>\<open>src/Buffer.cc\<close>): the contract of a byte queue as a locale, and the
    buffer with its two indices, which implements it.
  \<^item> \<open>Kernel\<close>: the system calls (epoll, eventfd, sockets, sendfile) as a record of functions on an
    unspecified kernel state. What the program relies on is stated in the \<open>_doc\<close> predicates, from the
    manual pages; a small concrete kernel satisfies all of them.
  \<^item> \<open>Channel\<close>, \<open>PollerSpec\<close>, \<open>EPollPoller\<close> (\<^verbatim>\<open>Channel\<close>, \<^verbatim>\<open>Poller\<close>, \<^verbatim>\<open>EPollPoller\<close>, \<^verbatim>\<open>DefaultPoller.cc\<close>): event masks as 32-bit
    words, which callbacks an event runs, the table of channels and its agreement with the kernel's
    interest list. Channels live in a store, so that following a pointer to a destroyed channel is an
    error of the model.
  \<^item> \<open>EventLoop\<close> (\<^verbatim>\<open>EventLoop\<close>, \<^verbatim>\<open>CurrentThread.h\<close>): the loop, its functors and its wake-up descriptor as one
    thread sees them; \<open>LoopThreads\<close>: the same loop under all interleavings with other threads that queue
    functors, with the critical section and the test of \<^verbatim>\<open>queueInLoop\<close> as separate steps.
  \<^item> \<open>LoopThreadPool\<close> (\<^verbatim>\<open>Thread\<close>, \<^verbatim>\<open>EventLoopThread\<close>, \<^verbatim>\<open>EventLoopThreadPool\<close>): the start and stop handshake of two threads as
    inductive step relations, one for each thread, with the two steps of \<^verbatim>\<open>quit\<close> apart, and the pool.
  \<^item> \<open>InetAddress\<close>, \<open>Logging\<close> (\<^verbatim>\<open>Timestamp\<close>, \<^verbatim>\<open>Logger\<close>), \<open>Socket\<close>: the small classes.
  \<^item> \<open>TcpConnection\<close>: the connection with all its operations, over the state of the connection and its
    loop, and its invariant; \<open>ConnectionOps\<close>: what the operations that write do on every branch;
    \<open>ConnectionSpec\<close>: the abstract connection and the refinement; \<open>ConnectionStream\<close>: what a connection sends and
    receives; \<open>ConnectionSafety\<close>: what its operations keep.
  \<^item> \<open>Acceptor\<close>, \<open>TcpServer\<close>: the acceptor and the server, over the state \<open>world\<close> of the whole system: all
    loops, all connection objects that exist, and the server.
  \<^item> \<open>ServerSystem\<close>: the running server as a transition system, with its invariant; \<open>ServerConns\<close>, \<open>ServerObjects\<close>,
    \<open>ServerSteps\<close>: the operations of connections, the coming and going of connection objects, and every
    step keep it; \<open>ServerRun\<close>: the start of a program; \<open>ServerLife\<close>, \<open>ServerDispatch\<close>,
    \<open>ServerDestroy\<close>: the life of a connection, the arrival of one, and the destructor of the server (its body,
    and the whole of it for a server without threads).
  \<^item> \<open>EchoServer\<close>: the programs \<^verbatim>\<open>example/testserver.cc\<close> and \<^verbatim>\<open>benchmark/cpp17_pingpong_server.cc\<close>; \<open>PingpongClient\<close>: the
    load generator of the benchmark and the second server.

  \<^bold>\<open>What is shown.\<close>

  \<^item> The running server (\<open>ServerRun\<close>, \<open>ServerLife\<close>, \<open>ServerDispatch\<close>, \<open>ServerDestroy\<close>): in every state it reaches, under every interleaving
    of its threads but one (a close between the test and the assignment of a \<^verbatim>\<open>shutdown\<close>, see below), no step follows a dangling pointer, leaves a buffer or makes \<^verbatim>\<open>epoll_ctl\<close> fail, until the number of
    connections ever accepted exceeds an \<^verbatim>\<open>int\<close>; a connection
    object dies only when its channel is out of the poller; every connection is listed,
    or its removal or destruction is pending; a thread touches only its own loop's channels and connections; the destructor
    hands every connection to its own loop, and those of the base loop are gone after it unless a functor still captures them.
  \<^item> Connections (\<open>ConnectionSpec\<close>, \<open>ConnectionStream\<close>, \<open>ConnectionSafety\<close>): the bytes handed to \<^verbatim>\<open>send\<close> reach the socket once and in order, as an
    abstract connection with one output stream does; \<^verbatim>\<open>shutdown\<close> sends what is buffered before it
    closes; input is delivered completely; sends from other threads keep their order; the three ways
    to send agree; \<^verbatim>\<open>sendFile\<close> completes, unless it runs past the end of the file. The properties of the output stream
    are for connections whose peer does not reset them (then the code drops the message) and whose user does
    not mix \<^verbatim>\<open>sendFile\<close> with the other calls; each property says so.
  \<^item> Buffers (\<open>Buffer\<close>): FIFO behaviour as a refinement of a list of bytes, exact growth, scatter reads.
  \<^item> The reactor (\<open>Channel\<close>, \<open>EPollPoller\<close>, \<open>EventLoop\<close>, \<open>LoopThreads\<close>): dispatch of events, agreement of table and
    kernel, no lost wake-up, functors run once and in order, the loop returns after \<^verbatim>\<open>quit\<close>.
  \<^item> Threads (\<open>LoopThreadPool\<close>): the handshake, when a join ends, round robin, and three races of the destructor.
  \<^item> Programs (\<open>EchoServer\<close>, \<open>PingpongClient\<close>): what the servers reply, and what the client sends, counts and
    reports for every sequence of calls of its handlers.
  \<^item> Addresses, time stamps and log lines (\<open>InetAddress\<close>, \<open>Logging\<close>): round trips and exact texts.

  \<^bold>\<open>Interfaces.\<close> The contract of a byte queue, of a poller, and of an inductive invariant are locales;
  \<open>Buffer\<close>, \<open>EPollPoller\<close> and the transition systems of \<open>LoopThreads\<close>, \<open>LoopThreadPool\<close> and \<open>ServerRun\<close> are their
  interpretations, and the properties use the facts these give.

  \<^bold>\<open>Conventions of the model.\<close> A method is a function from the state to a result, which is an error or
  the new state; a method that runs user code takes the callbacks as a record of functions from the
  connection to the list of library calls they make. Lambdas queued in a loop are constructors of the
  datatype \<open>functor_t\<close>. In the system, a step is one poll, the handling of one active channel, the call of
  one functor, one call from another thread, or the destruction of a connection object. A call from
  another thread may also be torn apart: it queues its functor at any time after its test of the state,
  whatever the loop's thread has done in between, and \<^verbatim>\<open>shutdown\<close> assigns the new state in a step of its
  own, which may come at any time after its test. One case breaks the server: a close between this
  test and the assignment (\<open>torn\<close>) can bring a destroyed connection back, which \<open>ConnectionSafety\<close> and \<open>ServerLife\<close> prove. The
  reachable states are those of runs without it. \<open>LoopThreads\<close> and \<open>LoopThreadPool\<close> split
  the code that runs without a lock further. The destruction may happen at any time after
  the last reference is gone, which covers every moment at which the counter of a shared pointer can
  reach zero. The event loop itself is a partial function, and the theorem about it states that it
  returns; no other definition uses fuel. The number in the name of a connection is an \<^verbatim>\<open>int\<close>; counting it up
  past its largest value is an error of the model, the only one beside \<^verbatim>\<open>length_error\<close> that a step of the
  running server can end in. Object numbers and pointers are unbounded. Vectors end at \<open>2 ^ 63 - 1\<close> bytes, where the library
  throws \<^verbatim>\<open>length_error\<close>; memory does not run out before, and neither does the kernel's memory nor the limit on
  watched descriptors, on which \<^verbatim>\<open>epoll_ctl\<close> may refuse to add one.

  \<^bold>\<open>Assumptions about the program around the library.\<close> The library does not ignore SIGPIPE, whose default action ends the
  process when a connection is written to after its peer reset it; the model is of a process that
  ignores it, where the write returns \<^verbatim>\<open>EPIPE\<close>. The connection and message callbacks are set. A user's
  callback calls operations of the connection it is called for, those of the datatype \<open>user_op\<close>: \<^verbatim>\<open>send\<close> of a message or of the input buffer, \<^verbatim>\<open>sendFile\<close>,
  \<^verbatim>\<open>shutdown\<close>, and what works on the input buffer, the high water mark and the socket's delay; calls on other connections are steps of their own. The
  abstract connection has no \<^verbatim>\<open>sendFile\<close>. The array for the results of a poll doubles without
  bound, while the code passes its size as an \<^verbatim>\<open>int\<close>, so the model is exact below \<open>2 ^ 31\<close> events.

  \<^bold>\<open>Not modelled.\<close> \<^verbatim>\<open>noncopyable.h\<close> has no behaviour at run time. The vendored copy of the original
  muduo is not this program; the client and the second server under \<^verbatim>\<open>benchmark\<close> are written against it, so it is a
  parameter of their model: the actions they ask of it, and the calls it makes. Build
  files and scripts are left out. The stopping of the threads of a pool inside the server's destructor is modelled
  for one thread in \<open>LoopThreadPool\<close>, not as a part of the destructor. Log output of the library is not part of the state of the server;
  the logger has its own theory. The order in which an \<^verbatim>\<open>unordered_map\<close> is traversed is a parameter.
\<close>

end
